(* ===== verification/Prelude.thy ===== *)
theory Prelude
  imports
    Complex_Main
    "HOL-Library.Word"
    "HOL-Library.Signed_Division"
    "HOL-Library.Char_ord"
    "HOL-Library.List_Lexorder"
    "HOL-Library.Product_Lexorder"
begin

text \<open>
  What every component of the development shares: the faults a C++ operation can end in and
  the sequencing of operations that may fault, machine integers as mathematical integers with
  the wrap-around written out, vectors of bytes with bounds-checked block reads and writes,
  and the ordered searches of the C++ standard library.
\<close>

section \<open>Faults and sequencing\<close>

text \<open>
  The build does not define NDEBUG, so a failed \<open>assert\<close> stops the program. The other
  constructors are the exceptions the sources or the standard library throw, and
  \<open>Undefined\<close> for an access outside an object.
\<close>

datatype fault =
    AssertionFailed
  | LengthError
  | OutOfRange
  | BadFunctionCall
  | BadAlloc
  | LogicError string
  | ThrowCString string
  | Undefined

type_synonym 'a res = "fault + 'a"

definition bind_r :: "('e + 'a) \<Rightarrow> ('a \<Rightarrow> 'e + 'b) \<Rightarrow> 'e + 'b" where
  "bind_r m f = (case m of Inl e \<Rightarrow> Inl e | Inr a \<Rightarrow> f a)"

definition cassert :: "bool \<Rightarrow> 'a res \<Rightarrow> 'a res" where
  "cassert c m = (if c then m else Inl AssertionFailed)"

named_theorems res_simps "evaluation and inversion of fallible operations"
named_theorems inv_intros "operations keep the invariants of their components"

lemma bind_r_simps [simp]:
  "bind_r (Inr a) f = f a"
  "bind_r (Inl e) f = Inl e"
  by (simp_all add: bind_r_def)

lemma bind_r_eq_Inr [res_simps]:
  "bind_r m f = Inr b \<longleftrightarrow> (\<exists>a. m = Inr a \<and> f a = Inr b)"
  by (cases m) auto

lemma bind_r_assoc: "bind_r (bind_r m f) g = bind_r m (\<lambda>a. bind_r (f a) g)"
  by (cases m) auto

lemma cassert_True [simp]: "c \<Longrightarrow> cassert c m = m"
  by (simp add: cassert_def)

lemma cassert_False [simp]: "\<not> c \<Longrightarrow> cassert c m = Inl AssertionFailed"
  by (simp add: cassert_def)

lemma cassert_eq_Inr [res_simps]: "cassert c m = Inr b \<longleftrightarrow> c \<and> m = Inr b"
  by (simp add: cassert_def)

section \<open>Machine integers\<close>

text \<open>
  \<open>int\<close> and \<open>int64_t\<close> values are integers; every arithmetic operation of the
  code is followed by the two's complement wrap of its type. Division and remainder truncate
  towards zero, as C++ does (\<open>sdiv\<close>, \<open>smod\<close>). \<open>size_t\<close> values are
  naturals below \<open>2 ^ 64\<close>, with the wrap of their sums and differences written out.
\<close>

definition wrap32 :: "int \<Rightarrow> int" where
  "wrap32 x = signed_take_bit 31 x"

definition wrap64 :: "int \<Rightarrow> int" where
  "wrap64 x = signed_take_bit 63 x"

definition in32 :: "int \<Rightarrow> bool" where
  "in32 x \<longleftrightarrow> - 2147483648 \<le> x \<and> x \<le> 2147483647"

definition in64 :: "int \<Rightarrow> bool" where
  "in64 x \<longleftrightarrow> - 9223372036854775808 \<le> x \<and> x \<le> 9223372036854775807"

lemma wrap32_id [simp]: "- 2147483648 \<le> x \<Longrightarrow> x \<le> 2147483647 \<Longrightarrow> wrap32 x = x"
  by (simp add: wrap32_def signed_take_bit_int_eq_self)

lemma wrap64_id [simp]:
  "- 9223372036854775808 \<le> x \<Longrightarrow> x \<le> 9223372036854775807 \<Longrightarrow> wrap64 x = x"
  by (simp add: wrap64_def signed_take_bit_int_eq_self)

lemma wrap32_range: "in32 (wrap32 x)"
  using signed_take_bit_int_greater_eq_minus_exp [of 31 x] signed_take_bit_int_less_exp [of 31 x]
  by (simp add: wrap32_def in32_def)

lemma wrap64_range: "in64 (wrap64 x)"
  using signed_take_bit_int_greater_eq_minus_exp [of 63 x] signed_take_bit_int_less_exp [of 63 x]
  by (simp add: wrap64_def in64_def)

text \<open>The operators of \<open>int\<close> expressions, each wrapped to 32 bits.\<close>

lemma wrap32_shift: "wrap32 (x + 4294967296 * k) = wrap32 x"
proof -
  have "x + 4294967296 * k + 2147483648 = (x + 2147483648) + 4294967296 * k" by simp
  then have "(x + 4294967296 * k + 2147483648) mod 4294967296 = (x + 2147483648) mod 4294967296"
    by (simp only: mod_mult_self2)
  then show ?thesis by (simp add: wrap32_def signed_take_bit_eq_take_bit_shift take_bit_eq_mod)
qed

definition add32 :: "int \<Rightarrow> int \<Rightarrow> int" where
  "add32 a b = wrap32 (a + b)"

definition sub32 :: "int \<Rightarrow> int \<Rightarrow> int" where
  "sub32 a b = wrap32 (a - b)"

definition mul32 :: "int \<Rightarrow> int \<Rightarrow> int" where
  "mul32 a b = wrap32 (a * b)"

definition div32 :: "int \<Rightarrow> int \<Rightarrow> int" where
  "div32 a b = wrap32 (a sdiv b)"

definition mod32 :: "int \<Rightarrow> int \<Rightarrow> int" where
  "mod32 a b = wrap32 (a smod b)"

text \<open>The operators of \<open>int64_t\<close> and \<open>time_t\<close> expressions.\<close>

definition add64 :: "int \<Rightarrow> int \<Rightarrow> int" where
  "add64 a b = wrap64 (a + b)"

definition sub64 :: "int \<Rightarrow> int \<Rightarrow> int" where
  "sub64 a b = wrap64 (a - b)"

definition mul64 :: "int \<Rightarrow> int \<Rightarrow> int" where
  "mul64 a b = wrap64 (a * b)"

definition div64 :: "int \<Rightarrow> int \<Rightarrow> int" where
  "div64 a b = wrap64 (a sdiv b)"

definition mod64 :: "int \<Rightarrow> int \<Rightarrow> int" where
  "mod64 a b = wrap64 (a smod b)"

lemmas ops32_defs = add32_def sub32_def mul32_def div32_def mod32_def
lemmas ops64_defs = add64_def sub64_def mul64_def div64_def mod64_def

lemma sdiv_nonneg [simp]: "0 \<le> a \<Longrightarrow> 0 \<le> b \<Longrightarrow> a sdiv b = a div (b::int)"
  by (cases "a = 0"; cases "b = 0") (simp_all add: signed_divide_int_def sgn_if)

lemma smod_nonneg [simp]: "0 \<le> a \<Longrightarrow> 0 \<le> b \<Longrightarrow> a smod b = a mod (b::int)"
  by (cases "a = 0"; cases "b = 0") (simp_all add: signed_modulo_int_def sgn_if)

lemma sdiv_neg: "a \<le> 0 \<Longrightarrow> 0 < b \<Longrightarrow> a sdiv b = - ((- a) div (b::int))"
  by (cases "a = 0") (simp_all add: signed_divide_int_def sgn_if)

lemma smod_neg: "a \<le> 0 \<Longrightarrow> 0 < b \<Longrightarrow> a smod b = - ((- a) mod (b::int))"
  by (cases "a = 0") (simp_all add: signed_modulo_int_def sgn_if)

lemma div_eqI: "b * q \<le> x \<Longrightarrow> x < b * q + b \<Longrightarrow> 0 < b \<Longrightarrow> x div b = (q::int)"
  by (rule int_div_pos_eq [where r = "x - b * q"]) simp_all

lemma div_add_one:
  assumes "0 < k"
  shows "(z + 1) div k = z div k + (if (z + 1) mod k = 0 then 1 else (0::int))"
proof -
  have z: "z = k * (z div k) + z mod k" by simp
  have r: "0 \<le> z mod k" "z mod k < k" using assms by simp_all
  show ?thesis
  proof (cases "z mod k = k - 1")
    case True
    then have "z + 1 = k * (z div k + 1)" using z by (simp add: distrib_left)
    then have "(z + 1) div k = z div k + 1" "(z + 1) mod k = 0"
      using assms by (metis nonzero_mult_div_cancel_left less_irrefl, metis mod_mult_self1_is_0)
    then show ?thesis by simp
  next
    case False
    then have "(z + 1) div k = z div k \<and> (z + 1) mod k = z mod k + 1"
      using z r by (intro conjI div_pos_pos_trivial int_div_pos_eq [where r = "z mod k + 1"]
        int_mod_pos_eq [where q = "z div k"]) auto
    then show ?thesis using r by simp
  qed
qed

lemma div_bounds:
  "0 \<le> x \<Longrightarrow> x \<le> k \<Longrightarrow> 0 < d \<Longrightarrow> 0 \<le> x div d \<and> x div d \<le> k div (d::int)"
  by (simp add: pos_imp_zdiv_nonneg_iff zdiv_mono1)

text \<open>Division of a non-negative dividend in range: no wrap, and the quotient rounds down.\<close>

lemma div32_nonneg: "0 \<le> x \<Longrightarrow> x \<le> 2147483647 \<Longrightarrow> 0 < d \<Longrightarrow> div32 x d = x div d"
  using div_bounds [of x 2147483647 d] int_div_less_self [of 2147483647 d]
  by (cases "d = 1") (simp_all add: div32_def)

text \<open>Truncating division turned into flooring division by one correction step.\<close>

lemma trunc_to_floor:
  assumes "0 < (d::int)"
  shows "(if a smod d < 0 then (a smod d + d, a sdiv d - 1) else (a smod d, a sdiv d)) =
    (a mod d, a div d)"
proof (cases "0 \<le> a")
  case True
  then show ?thesis using assms by (simp add: not_less)
next
  case False
  then have "a smod d = - (- a mod d)" "a sdiv d = - (- a div d)"
    using assms by (simp_all add: smod_neg sdiv_neg)
  moreover have "- a mod d = 0 \<or> 0 < - a mod d" using pos_mod_sign [OF assms, of "- a"] by linarith
  ultimately show ?thesis
    using assms zdiv_zminus1_eq_if [of d "- a"] zmod_zminus1_eq_if [of "- a" d] by auto
qed

definition add_sz :: "nat \<Rightarrow> nat \<Rightarrow> nat" where
  "add_sz a b = (a + b) mod 2 ^ 64"

definition sub_sz :: "nat \<Rightarrow> nat \<Rightarrow> nat" where
  "sub_sz a b = (a + (2 ^ 64 - b)) mod 2 ^ 64"

lemma add_sz_id [simp]: "a + b < 2 ^ 64 \<Longrightarrow> add_sz a b = a + b"
  by (simp add: add_sz_def)

lemma sub_sz_id [simp]: "b \<le> a \<Longrightarrow> a < 2 ^ 64 \<Longrightarrow> sub_sz a b = a - b"
proof -
  assume "b \<le> a" "a < 2 ^ 64"
  then have "(a + (2 ^ 64 - b)) mod 2 ^ 64 = (a - b + 2 ^ 64) mod 2 ^ 64" by simp
  also have "\<dots> = a - b" using \<open>a < 2 ^ 64\<close> by (simp only: mod_add_self2) simp
  finally show ?thesis by (simp add: sub_sz_def)
qed

lemma sub_sz_wraps: "a < b \<Longrightarrow> b < 2 ^ 64 \<Longrightarrow> sub_sz a b = a + 2 ^ 64 - b"
  by (simp add: sub_sz_def)

text \<open>
  A \<open>double\<close> is the rational it denotes; its conversion to an integer type truncates,
  and is undefined out of that type's range. \<open>timespec\<close> is the libc's.
\<close>

type_synonym double = rat

definition trunc_double :: "double \<Rightarrow> int" where
  "trunc_double x = (if 0 \<le> x then \<lfloor>x\<rfloor> else \<lceil>x\<rceil>)"

record timespec =
  tv_sec :: int
  tv_nsec :: int

section \<open>Decimal text\<close>

text \<open>
  What the sources use of \<open>snprintf\<close>: the decimal conversions with a minimal width
  (padded with blanks, or with zeros after the sign), and the cut at the size of the target.
\<close>

fun dec_nat :: "nat \<Rightarrow> string" where
  "dec_nat n = (if n < 10 then [char_of (48 + n)] else dec_nat (n div 10) @ [char_of (48 + n mod 10)])"

declare dec_nat.simps [simp del]

definition dec_int :: "int \<Rightarrow> string" where
  "dec_int x = (if x < 0 then CHR ''-'' # dec_nat (nat (- x)) else dec_nat (nat x))"

definition fmt_d :: "nat \<Rightarrow> int \<Rightarrow> string" where
  "fmt_d w x = replicate (w - length (dec_int x)) (CHR '' '') @ dec_int x"

definition fmt_0d :: "nat \<Rightarrow> int \<Rightarrow> string" where
  "fmt_0d w x =
     (if x < 0
      then CHR ''-'' # replicate (w - 1 - length (dec_nat (nat (- x)))) (CHR ''0'') @ dec_nat (nat (- x))
      else replicate (w - length (dec_nat (nat x))) (CHR ''0'') @ dec_nat (nat x))"

definition snprintf_to :: "nat \<Rightarrow> string \<Rightarrow> string" where
  "snprintf_to sz s = take (sz - 1) s"

fun nat_of_dec :: "string \<Rightarrow> nat" where
  "nat_of_dec [] = 0"
| "nat_of_dec (c # cs) = (of_char c - 48) * 10 ^ length cs + nat_of_dec cs"

lemma nat_of_dec_append:
  "nat_of_dec (xs @ ys) = nat_of_dec xs * 10 ^ length ys + nat_of_dec ys"
  by (induction xs) (auto simp: power_add algebra_simps)

lemma of_char_digit [simp]: "d < 10 \<Longrightarrow> (of_char (char_of (48 + d :: nat)) :: nat) = 48 + d"
  by (simp add: of_char_of)

lemma nat_of_dec_nat [simp]: "nat_of_dec (dec_nat n) = n"
proof (induction n rule: dec_nat.induct)
  case (1 n)
  then show ?case
    by (subst dec_nat.simps) (auto simp: nat_of_dec_append)
qed

lemma dec_nat_nonempty [simp]: "dec_nat n \<noteq> []"
  by (subst dec_nat.simps) simp

lemma dec_nat_digits: "c \<in> set (dec_nat n) \<Longrightarrow> 48 \<le> (of_char c :: nat) \<and> (of_char c :: nat) \<le> 57"
proof (induction n rule: dec_nat.induct)
  case (1 n)
  have "48 \<le> (of_char (char_of (48 + n mod 10)) :: nat) \<and> (of_char (char_of (48 + n mod 10)) :: nat) \<le> 57"
    by (simp add: of_char_digit)
  then show ?case
    using 1 by (subst (asm) (2) dec_nat.simps) (auto split: if_splits)
qed

lemma length_dec_nat_le: "n < 10 ^ k \<Longrightarrow> 0 < k \<Longrightarrow> length (dec_nat n) \<le> k"
proof (induction n arbitrary: k rule: dec_nat.induct)
  case (1 n)
  show ?case
  proof (cases "n < 10")
    case True
    with 1(3) show ?thesis by (subst dec_nat.simps) simp
  next
    case False
    from 1(3) obtain j where "k = Suc j" by (cases k) auto
    moreover from this False 1(2) have "0 < j" by (cases j) auto
    ultimately have k: "k = Suc j" "0 < j" by auto
    with 1(2) have "n div 10 < 10 ^ j" by (simp add: less_mult_imp_div_less mult.commute)
    with 1(1) False k show ?thesis by (subst dec_nat.simps) simp
  qed
qed

lemma length_dec_nat_ge: "10 ^ k \<le> n \<Longrightarrow> k < length (dec_nat n)"
proof (induction n arbitrary: k rule: dec_nat.induct)
  case (1 n)
  show ?case
  proof (cases "n < 10")
    case True
    with 1(2) have "(10::nat) ^ k < 10 ^ 1" by simp
    then have "k = 0" using power_less_imp_less_exp [of "10::nat" k 1] by simp
    then show ?thesis by (subst dec_nat.simps) simp
  next
    case False
    show ?thesis
    proof (cases k)
      case 0
      then show ?thesis by (subst dec_nat.simps) simp
    next
      case (Suc j)
      with 1(2) have "10 ^ j \<le> n div 10" by (simp add: less_eq_div_iff_mult_less_eq mult.commute)
      with 1(1) False Suc show ?thesis by (subst dec_nat.simps) simp
    qed
  qed
qed

lemma length_dec_nat:
  "10 ^ k \<le> n \<Longrightarrow> n < 10 ^ Suc k \<Longrightarrow> length (dec_nat n) = Suc k"
  using length_dec_nat_ge [of k n] length_dec_nat_le [of n "Suc k"] by simp

lemma nat_of_dec_zeros [simp]: "nat_of_dec (replicate k (CHR ''0'') @ xs) = nat_of_dec xs"
  by (induction k) auto

text \<open>A zero-padded field of enough width: exactly that many characters, which read back.\<close>

lemma fmt_0d_ok:
  assumes "0 \<le> x" "x < 10 ^ w" "0 < w"
  shows "length (fmt_0d w x) = w" and "nat_of_dec (fmt_0d w x) = nat x"
proof -
  have "nat x < 10 ^ w" using assms by (simp add: nat_less_iff)
  then show "length (fmt_0d w x) = w" "nat_of_dec (fmt_0d w x) = nat x"
    using assms length_dec_nat_le [of "nat x" w] by (simp_all add: fmt_0d_def)
qed

lemma fmt_0d_2:
  assumes "0 \<le> x" "x < 100"
  shows "length (fmt_0d 2 x) = 2" and "nat_of_dec (fmt_0d 2 x) = nat x"
  using assms fmt_0d_ok [of x 2] by simp_all

section \<open>Byte vectors\<close>

text \<open>
  \<open>std::vector<char>\<close> as a list, with block reads and writes that are
  \<open>Undefined\<close> outside the vector. \<open>vec_max\<close> is \<open>max_size()\<close> of a
  vector of one-byte elements; growing past it throws \<open>std::length_error\<close>. New elements
  are value-initialised.
\<close>

definition vec_max :: nat where
  "vec_max = 2 ^ 63 - 1"

definition vec_resize :: "nat \<Rightarrow> char list \<Rightarrow> char list res" where
  "vec_resize n v =
     (if n \<le> vec_max then Inr (take n v @ replicate (n - length v) (CHR 0x00))
      else Inl LengthError)"

definition vec_load :: "nat \<Rightarrow> nat \<Rightarrow> 'a list \<Rightarrow> 'a list res" where
  "vec_load off n v = (if off + n \<le> length v then Inr (take n (drop off v)) else Inl Undefined)"

definition vec_store :: "nat \<Rightarrow> 'a list \<Rightarrow> 'a list \<Rightarrow> 'a list res" where
  "vec_store off xs v =
     (if off + length xs \<le> length v
      then Inr (take off v @ xs @ drop (off + length xs) v) else Inl Undefined)"

lemma vec_load_ok [simp]: "off + n \<le> length v \<Longrightarrow> vec_load off n v = Inr (take n (drop off v))"
  by (simp add: vec_load_def)

lemma vec_store_ok [simp]:
  "off + length xs \<le> length v \<Longrightarrow>
     vec_store off xs v = Inr (take off v @ xs @ drop (off + length xs) v)"
  by (simp add: vec_store_def)

lemma vec_store_length: "vec_store off xs v = Inr v' \<Longrightarrow> length v' = length v"
  by (auto simp: vec_store_def split: if_splits)

text \<open>The part of a vector below an offset, and the block just stored, after a store.\<close>

lemma take_drop_append_exact:
  "length ys = off \<Longrightarrow> take (length xs) (drop off (ys @ xs @ zs)) = xs"
  by simp

lemma drop_take_append_store:
  assumes "r \<le> w" and "w \<le> length v"
  shows "take (w + length xs - r) (drop r (take w v @ xs @ zs)) = take (w - r) (drop r v) @ xs"
proof -
  have "drop r (take w v @ xs @ zs) = take (w - r) (drop r v) @ xs @ zs"
    using assms by (simp add: drop_take)
  moreover have "length (take (w - r) (drop r v) @ xs) = w + length xs - r"
    using assms by simp
  ultimately show ?thesis
    by (metis append.assoc append_eq_conv_conj)
qed

section \<open>Object representation of integers\<close>

text \<open>
  The bytes of an integer in memory, on a little-endian host; \<open>int_of_mem\<close> reads the
  bytes back as a two's complement value of that many bytes.
\<close>

fun mem_of_int :: "nat \<Rightarrow> int \<Rightarrow> char list" where
  "mem_of_int 0 x = []"
| "mem_of_int (Suc n) x = char_of x # mem_of_int n (x div 256)"

fun nat_of_mem :: "char list \<Rightarrow> int" where
  "nat_of_mem [] = 0"
| "nat_of_mem (c # cs) = of_char c + 256 * nat_of_mem cs"

definition int_of_mem :: "char list \<Rightarrow> int" where
  "int_of_mem cs = signed_take_bit (8 * length cs - 1) (nat_of_mem cs)"

lemma length_mem_of_int [simp]: "length (mem_of_int n x) = n"
  by (induction n arbitrary: x) auto

lemma nat_of_mem_of_int: "nat_of_mem (mem_of_int n x) = take_bit (8 * n) x"
proof (induction n arbitrary: x)
  case 0
  show ?case by simp
next
  case (Suc n)
  have "nat_of_mem (mem_of_int (Suc n) x) = x mod 256 + 256 * (x div 256 mod 256 ^ n)"
    by (simp add: Suc take_bit_eq_mod power_mult)
  also have "\<dots> = x mod (256 * 256 ^ n)" by (simp add: zmod_zmult2_eq)
  also have "\<dots> = take_bit (8 * Suc n) x" by (simp add: take_bit_eq_mod power_mult power_add)
  finally show ?case .
qed

lemma int_of_mem_of_int:
  assumes "0 < n" and "- (2 ^ (8 * n - 1)) \<le> x" and "x < 2 ^ (8 * n - 1)"
  shows "int_of_mem (mem_of_int n x) = x"
proof -
  have "int_of_mem (mem_of_int n x) = signed_take_bit (8 * n - 1) (take_bit (8 * n) x)"
    by (simp add: int_of_mem_def nat_of_mem_of_int)
  also have "\<dots> = signed_take_bit (8 * n - 1) x"
  proof -
    have "\<not> 8 * n \<le> 8 * n - 1" using assms(1) by linarith
    then show ?thesis by (simp add: signed_take_bit_take_bit)
  qed
  also have "\<dots> = x" using assms(2,3) by (simp add: signed_take_bit_int_eq_self)
  finally show ?thesis .
qed

section \<open>Searches of the standard library\<close>

text \<open>
  \<open>std::search\<close> and \<open>std::find\<close> on a range given as a list: the index of the
  first match, or the length of the range (the \<open>last\<close> iterator).
\<close>

fun std_search :: "'a list \<Rightarrow> 'a list \<Rightarrow> nat" where
  "std_search pat [] = 0"
| "std_search pat (x # xs) =
     (if take (length pat) (x # xs) = pat then 0 else Suc (std_search pat xs))"

fun std_find :: "'a \<Rightarrow> 'a list \<Rightarrow> nat" where
  "std_find c [] = 0"
| "std_find c (x # xs) = (if x = c then 0 else Suc (std_find c xs))"

lemma std_search_le: "std_search pat xs \<le> length xs"
  by (induction xs) auto

lemma std_search_found:
  "std_search pat xs < length xs \<Longrightarrow> take (length pat) (drop (std_search pat xs) xs) = pat"
  by (induction xs) auto

lemma std_search_found_le:
  "std_search pat xs < length xs \<Longrightarrow> std_search pat xs + length pat \<le> length xs"
proof -
  assume a: "std_search pat xs < length xs"
  from arg_cong [OF std_search_found [OF a], of length]
  have "min (length xs - std_search pat xs) (length pat) = length pat" by (simp add: min.commute)
  with a show ?thesis by linarith
qed

lemma std_search_first:
  "i < std_search pat xs \<Longrightarrow> take (length pat) (drop i xs) \<noteq> pat"
proof (induction xs arbitrary: i)
  case Nil
  then show ?case by simp
next
  case (Cons x xs)
  then show ?case by (cases i) (auto split: if_splits)
qed

lemma std_find_le: "std_find c xs \<le> length xs"
  by (induction xs) auto

lemma std_find_found: "std_find c xs < length xs \<Longrightarrow> xs ! std_find c xs = c"
  by (induction xs) auto

lemma std_find_first: "c \<notin> set (take (std_find c xs) xs)"
  by (induction xs) auto

lemma std_find_less_iff: "std_find c xs < length xs \<longleftrightarrow> c \<in> set xs"
  by (induction xs) auto

lemma std_find_append: "c \<notin> set xs \<Longrightarrow> std_find c (xs @ c # ys) = length xs"
  by (induction xs) auto

lemma std_find_notin: "c \<notin> set xs \<Longrightarrow> std_find c xs = length xs"
  by (induction xs) auto

section \<open>Ordered ranges\<close>

text \<open>
  \<open>std::lower_bound\<close> on a range that is partitioned by the comparison: the first position
  whose element does not come before the value. The standard library's precondition on the
  comparison, a strict weak order, is the interface.
\<close>

definition lower_bound :: "('a \<Rightarrow> 'a \<Rightarrow> bool) \<Rightarrow> 'a list \<Rightarrow> 'a \<Rightarrow> nat" where
  "lower_bound lt xs x = length (takeWhile (\<lambda>y. lt y x) xs)"

lemma lower_bound_le: "lower_bound lt xs x \<le> length xs"
  by (simp add: lower_bound_def length_takeWhile_le)

lemma take_lower_bound: "take (lower_bound lt xs x) xs = takeWhile (\<lambda>y. lt y x) xs"
  unfolding lower_bound_def by (rule takeWhile_eq_take [symmetric])

lemma drop_lower_bound: "drop (lower_bound lt xs x) xs = dropWhile (\<lambda>y. lt y x) xs"
  unfolding lower_bound_def by (rule dropWhile_eq_drop [symmetric])

locale strict_weak_order =
  fixes lt :: "'a \<Rightarrow> 'a \<Rightarrow> bool"
  assumes lt_irrefl: "\<not> lt x x"
    and lt_trans: "lt x y \<Longrightarrow> lt y z \<Longrightarrow> lt x z"
    and lt_cotrans: "lt x z \<Longrightarrow> lt x y \<or> lt y z"
begin

lemma lt_asym: "lt x y \<Longrightarrow> \<not> lt y x"
  using lt_irrefl lt_trans by blast

lemma sorted_distinct: "sorted_wrt lt xs \<Longrightarrow> distinct xs"
  by (induction xs) (auto simp: lt_irrefl)

text \<open>The position splits a sorted range into what comes before the value and what does not.\<close>

lemma lower_bound_filter:
  assumes "sorted_wrt lt xs"
  shows "take (lower_bound lt xs x) xs = filter (\<lambda>y. lt y x) xs"
    and "drop (lower_bound lt xs x) xs = filter (\<lambda>y. \<not> lt y x) xs"
proof -
  have "takeWhile (\<lambda>y. lt y x) xs = filter (\<lambda>y. lt y x) xs \<and>
      dropWhile (\<lambda>y. lt y x) xs = filter (\<lambda>y. \<not> lt y x) xs"
    using assms
  proof (induction xs)
    case (Cons y ys)
    show ?case
    proof (cases "lt y x")
      case False
      have "\<not> lt z x" if "z \<in> set ys" for z
        using that Cons.prems False lt_trans [of y z x] by auto
      then have "filter (\<lambda>y. lt y x) ys = []" "filter (\<lambda>y. \<not> lt y x) ys = ys"
        by (auto simp: filter_empty_conv filter_id_conv)
      with False show ?thesis by simp
    qed (use Cons in auto)
  qed simp
  then show "take (lower_bound lt xs x) xs = filter (\<lambda>y. lt y x) xs"
    "drop (lower_bound lt xs x) xs = filter (\<lambda>y. \<not> lt y x) xs"
    by (simp_all add: take_lower_bound drop_lower_bound)
qed

text \<open>The elements up to and including the value: those before the position, and the one at it when equivalent.\<close>

lemma not_after_filter:
  assumes "sorted_wrt lt xs"
  shows "filter (\<lambda>y. \<not> lt x y) xs =
    take (lower_bound lt xs x) xs @
      (if lower_bound lt xs x < length xs \<and> \<not> lt x (xs ! lower_bound lt xs x)
       then [xs ! lower_bound lt xs x] else [])"
  using assms
proof (induction xs)
  case Nil
  then show ?case by (simp add: lower_bound_def)
next
  case (Cons y ys)
  show ?case
  proof (cases "lt y x")
    case True
    with Cons lt_asym show ?thesis by (simp add: lower_bound_def)
  next
    case False
    have "lt x z" if "z \<in> set ys" for z
      using that Cons.prems False lt_cotrans [of y z x] by auto
    then have "filter (\<lambda>y. \<not> lt x y) ys = []" by (auto simp: filter_empty_conv)
    with False show ?thesis by (simp add: lower_bound_def)
  qed
qed

end

text \<open>
  \<open>std::set::insert\<close>, on the elements in order: an equivalent element keeps its place and
  the insertion is refused.
\<close>

definition set_insert :: "('a \<Rightarrow> 'a \<Rightarrow> bool) \<Rightarrow> 'a \<Rightarrow> 'a list \<Rightarrow> 'a list \<times> bool" where
  "set_insert lt x xs =
     (let p = lower_bound lt xs x in
      if p < length xs \<and> \<not> lt x (xs ! p) then (xs, False)
      else (take p xs @ [x] @ drop p xs, True))"

context strict_weak_order
begin

lemma set_insert_refused:
  assumes "\<not> snd (set_insert lt x xs)"
  shows "fst (set_insert lt x xs) = xs" "\<exists>y \<in> set xs. \<not> lt x y \<and> \<not> lt y x"
proof -
  let ?p = "lower_bound lt xs x"
  have p: "?p < length xs \<and> \<not> lt x (xs ! ?p)"
    using assms by (auto simp: set_insert_def Let_def split: if_splits)
  then show "fst (set_insert lt x xs) = xs" by (simp add: set_insert_def)
  have "\<not> lt (xs ! ?p) x"
    using p nth_length_takeWhile [of "\<lambda>y. lt y x" xs] by (simp add: lower_bound_def)
  with p show "\<exists>y \<in> set xs. \<not> lt x y \<and> \<not> lt y x" using nth_mem by blast
qed

lemma set_insert_done:
  assumes "snd (set_insert lt x xs)" "sorted_wrt lt xs"
  shows "fst (set_insert lt x xs) = filter (\<lambda>y. lt y x) xs @ x # filter (\<lambda>y. \<not> lt y x) xs"
    and "sorted_wrt lt (fst (set_insert lt x xs))"
    and "set (fst (set_insert lt x xs)) = insert x (set xs)"
proof -
  let ?p = "lower_bound lt xs x"
  have c: "\<not> (?p < length xs \<and> \<not> lt x (xs ! ?p))" using assms(1) by (auto simp: set_insert_def Let_def split: if_splits)
  show e: "fst (set_insert lt x xs) = filter (\<lambda>y. lt y x) xs @ x # filter (\<lambda>y. \<not> lt y x) xs"
    using c lower_bound_filter [OF assms(2), of x] by (auto simp: set_insert_def Let_def)
  show "set (fst (set_insert lt x xs)) = insert x (set xs)" unfolding e by auto
  have "filter (\<lambda>y. \<not> lt x y) xs = filter (\<lambda>y. lt y x) xs"
    using not_after_filter [OF assms(2), of x] c lower_bound_filter(1) [OF assms(2), of x] by auto
  from arg_cong [OF this, of set]
  have after: "lt x y" if "y \<in> set xs" "\<not> lt y x" for y using that by auto
  show "sorted_wrt lt (fst (set_insert lt x xs))"
    unfolding e using assms(2) after lt_trans
    by (auto simp: sorted_wrt_append sorted_wrt_filter)
qed

end

section \<open>Allocation\<close>

text \<open>The greatest value of <stdint.h> for an address.\<close>

definition UINTPTR_MAX :: nat where
  "UINTPTR_MAX = 2 ^ 64 - 1"

text \<open>
  \<open>operator new\<close>: given the addresses in use it yields one that is not, or throws
  \<open>bad_alloc\<close>. The highest address is never an object's.
\<close>

typedef allocator = "{new :: nat set \<Rightarrow> nat option. \<forall>A p. new A = Some p \<longrightarrow> p \<notin> A \<and> p < UINTPTR_MAX}"
  by (rule exI [of _ "\<lambda>_. None"]) simp

setup_lifting type_definition_allocator

lift_definition operator_new :: "allocator \<Rightarrow> nat set \<Rightarrow> nat option" is "\<lambda>new. new" .

lemma operator_new: "operator_new a A = Some p \<Longrightarrow> p \<notin> A \<and> p < UINTPTR_MAX"
  by transfer auto

text \<open>An allocator with room for three objects, for concrete runs.\<close>

lift_definition three_slots :: allocator is
  "\<lambda>A. if 16 \<notin> A then Some 16 else if 32 \<notin> A then Some 32 else if 48 \<notin> A then Some 48 else None"
  by (auto simp: UINTPTR_MAX_def split: if_splits)

lemma operator_new_three_slots [simp]:
  "operator_new three_slots A =
     (if 16 \<notin> A then Some 16 else if 32 \<notin> A then Some 32 else if 48 \<notin> A then Some 48 else None)"
  by transfer simp

end
