(* ===== verification/Buffer.thy ===== *)
theory Buffer
  imports Prelude
begin

text \<open>
  The byte buffer of every connection, \<open>net::Buffer\<close> (src/net/Buffer.h): one vector, a
  reader index and a writer index. A pointer into the buffer is its offset from
  \<open>begin()\<close>. An operation whose \<open>assert\<close> fails ends in \<open>AssertionFailed\<close>;
  a read or write outside the vector would be \<open>Undefined\<close>.
  \<open>kCRLF\<close> is declared by the class and defined nowhere in the repository, so the two
  searches that use it take it as a parameter.
\<close>

section \<open>State\<close>

record buffer =
  vec :: "char list"
  readerIndex :: nat
  writerIndex :: nat

definition kCheapPrepend :: nat where
  "kCheapPrepend = 8"

definition kInitialSize :: nat where
  "kInitialSize = 1024"

definition readableBytes :: "buffer \<Rightarrow> nat" where
  "readableBytes b = sub_sz (writerIndex b) (readerIndex b)"

definition writableBytes :: "buffer \<Rightarrow> nat" where
  "writableBytes b = sub_sz (length (vec b)) (writerIndex b)"

definition prependableBytes :: "buffer \<Rightarrow> nat" where
  "prependableBytes b = readerIndex b"

definition new_buffer :: "nat \<Rightarrow> buffer res" where
  "new_buffer initialSize =
     bind_r (vec_resize (add_sz kCheapPrepend initialSize) []) (\<lambda>v.
       let b = \<lparr>vec = v, readerIndex = kCheapPrepend, writerIndex = kCheapPrepend\<rparr> in
       cassert (readableBytes b = 0)
         (cassert (writableBytes b = initialSize)
           (cassert (prependableBytes b = kCheapPrepend) (Inr b))))"

definition swap_buffer :: "buffer \<Rightarrow> buffer \<Rightarrow> buffer \<times> buffer" where
  "swap_buffer b rhs = (rhs, b)"

definition peek :: "buffer \<Rightarrow> nat" where
  "peek b = readerIndex b"

definition beginWrite :: "buffer \<Rightarrow> nat" where
  "beginWrite b = writerIndex b"

section \<open>Searching\<close>

definition search_from :: "char list \<Rightarrow> buffer \<Rightarrow> nat \<Rightarrow> nat option res" where
  "search_from kCRLF b start =
     bind_r (vec_load start (sub_sz (beginWrite b) start) (vec b)) (\<lambda>range.
       let crlf = start + std_search (take 2 kCRLF) range in
       Inr (if crlf = beginWrite b then None else Some crlf))"

definition findCRLF :: "char list \<Rightarrow> buffer \<Rightarrow> nat option res" where
  "findCRLF kCRLF b = search_from kCRLF b (peek b)"

definition findCRLF_from :: "char list \<Rightarrow> buffer \<Rightarrow> nat \<Rightarrow> nat option res" where
  "findCRLF_from kCRLF b start =
     cassert (peek b \<le> start) (cassert (start \<le> beginWrite b) (search_from kCRLF b start))"

definition memchr :: "buffer \<Rightarrow> nat \<Rightarrow> char \<Rightarrow> nat \<Rightarrow> nat option res" where
  "memchr b start c n =
     bind_r (vec_load start n (vec b)) (\<lambda>range.
       let i = std_find c range in Inr (if i = length range then None else Some (start + i)))"

definition findEOL :: "buffer \<Rightarrow> nat option res" where
  "findEOL b = memchr b (peek b) (CHR 0x0A) (readableBytes b)"

definition findEOL_from :: "buffer \<Rightarrow> nat \<Rightarrow> nat option res" where
  "findEOL_from b start =
     cassert (peek b \<le> start)
       (cassert (start \<le> beginWrite b)
         (memchr b start (CHR 0x0A) (sub_sz (beginWrite b) start)))"

section \<open>Taking bytes out\<close>

definition retrieveAll :: "buffer \<Rightarrow> buffer" where
  "retrieveAll b = b\<lparr>readerIndex := kCheapPrepend, writerIndex := kCheapPrepend\<rparr>"

definition retrieve :: "nat \<Rightarrow> buffer \<Rightarrow> buffer res" where
  "retrieve len b =
     cassert (len \<le> readableBytes b)
       (if len < readableBytes b
        then Inr (b\<lparr>readerIndex := add_sz (readerIndex b) len\<rparr>)
        else Inr (retrieveAll b))"

definition retrieveUntil :: "nat \<Rightarrow> buffer \<Rightarrow> buffer res" where
  "retrieveUntil end b =
     cassert (peek b \<le> end) (cassert (end \<le> beginWrite b) (retrieve (end - peek b) b))"

definition retrieveInt64 :: "buffer \<Rightarrow> buffer res" where
  "retrieveInt64 b = retrieve 8 b"

definition retrieveInt32 :: "buffer \<Rightarrow> buffer res" where
  "retrieveInt32 b = retrieve 4 b"

definition retrieveInt16 :: "buffer \<Rightarrow> buffer res" where
  "retrieveInt16 b = retrieve 2 b"

definition retrieveInt8 :: "buffer \<Rightarrow> buffer res" where
  "retrieveInt8 b = retrieve 1 b"

definition retrieveAsString :: "nat \<Rightarrow> buffer \<Rightarrow> (string \<times> buffer) res" where
  "retrieveAsString len b =
     cassert (len \<le> readableBytes b)
       (bind_r (vec_load (peek b) len (vec b)) (\<lambda>result.
          bind_r (retrieve len b) (\<lambda>b'. Inr (result, b'))))"

definition retrieveAllAsString :: "buffer \<Rightarrow> (string \<times> buffer) res" where
  "retrieveAllAsString b = retrieveAsString (readableBytes b) b"

section \<open>Putting bytes in\<close>

definition makeSpace :: "nat \<Rightarrow> buffer \<Rightarrow> buffer res" where
  "makeSpace len b =
     (if add_sz (prependableBytes b) (writableBytes b) < add_sz len kCheapPrepend
      then bind_r (vec_resize (add_sz (writerIndex b) len) (vec b)) (\<lambda>v. Inr (b\<lparr>vec := v\<rparr>))
      else cassert (kCheapPrepend < readerIndex b)
        (let readable = readableBytes b in
         bind_r (vec_load (readerIndex b) readable (vec b)) (\<lambda>bytes.
         bind_r (vec_store kCheapPrepend bytes (vec b)) (\<lambda>v.
           let b' = b\<lparr>vec := v, readerIndex := kCheapPrepend,
                      writerIndex := add_sz kCheapPrepend readable\<rparr> in
           cassert (len \<le> writableBytes b') (Inr b')))))"

definition ensureWritableBytes :: "nat \<Rightarrow> buffer \<Rightarrow> buffer res" where
  "ensureWritableBytes len b =
     bind_r (if writableBytes b < len then makeSpace len b else Inr b) (\<lambda>b'.
       cassert (len \<le> writableBytes b') (Inr b'))"

definition hasWritten :: "nat \<Rightarrow> buffer \<Rightarrow> buffer res" where
  "hasWritten len b =
     cassert (len \<le> writableBytes b) (Inr (b\<lparr>writerIndex := add_sz (writerIndex b) len\<rparr>))"

definition unwrite :: "nat \<Rightarrow> buffer \<Rightarrow> buffer res" where
  "unwrite len b =
     cassert (len \<le> readableBytes b) (Inr (b\<lparr>readerIndex := sub_sz (readerIndex b) len\<rparr>))"

definition buffer_append :: "string \<Rightarrow> buffer \<Rightarrow> buffer res" where
  "buffer_append data b =
     bind_r (ensureWritableBytes (length data) b) (\<lambda>b1.
     bind_r (vec_store (beginWrite b1) data (vec b1)) (\<lambda>v.
       hasWritten (length data) (b1\<lparr>vec := v\<rparr>)))"

definition prepend :: "string \<Rightarrow> buffer \<Rightarrow> buffer res" where
  "prepend data b =
     cassert (length data \<le> prependableBytes b)
       (let r = sub_sz (readerIndex b) (length data) in
        bind_r (vec_store r data (vec b)) (\<lambda>v. Inr (b\<lparr>vec := v, readerIndex := r\<rparr>)))"

definition shrink :: "nat \<Rightarrow> buffer \<Rightarrow> buffer res" where
  "shrink reserve b =
     bind_r (new_buffer kInitialSize) (\<lambda>other.
     bind_r (ensureWritableBytes (add_sz (readableBytes b) reserve) other) (\<lambda>other.
     bind_r (retrieveAsString (readableBytes b) b) (\<lambda>(x, b).
     bind_r (buffer_append x other) (\<lambda>other. Inr (fst (swap_buffer b other))))))"

section \<open>Integers\<close>

text \<open>
  An integer is copied as its object representation with \<open>memcpy\<close>, with no byte-order
  conversion.
\<close>

definition peekInt :: "nat \<Rightarrow> buffer \<Rightarrow> int res" where
  "peekInt n b =
     cassert (n \<le> readableBytes b)
       (bind_r (vec_load (peek b) n (vec b)) (\<lambda>bytes. Inr (int_of_mem bytes)))"

definition peekInt64 :: "buffer \<Rightarrow> int res" where
  "peekInt64 b = peekInt 8 b"

definition peekInt32 :: "buffer \<Rightarrow> int res" where
  "peekInt32 b = peekInt 4 b"

definition peekInt16 :: "buffer \<Rightarrow> int res" where
  "peekInt16 b = peekInt 2 b"

definition peekInt8 :: "buffer \<Rightarrow> int res" where
  "peekInt8 b = peekInt 1 b"

definition readInt64 :: "buffer \<Rightarrow> (int \<times> buffer) res" where
  "readInt64 b = bind_r (peekInt64 b) (\<lambda>x. bind_r (retrieveInt64 b) (\<lambda>b'. Inr (x, b')))"

definition readInt32 :: "buffer \<Rightarrow> (int \<times> buffer) res" where
  "readInt32 b = bind_r (peekInt32 b) (\<lambda>x. bind_r (retrieveInt32 b) (\<lambda>b'. Inr (x, b')))"

definition readInt16 :: "buffer \<Rightarrow> (int \<times> buffer) res" where
  "readInt16 b = bind_r (peekInt16 b) (\<lambda>x. bind_r (retrieveInt16 b) (\<lambda>b'. Inr (x, b')))"

definition readInt8 :: "buffer \<Rightarrow> (int \<times> buffer) res" where
  "readInt8 b = bind_r (peekInt8 b) (\<lambda>x. bind_r (retrieveInt8 b) (\<lambda>b'. Inr (x, b')))"

definition prependInt64 :: "int \<Rightarrow> buffer \<Rightarrow> buffer res" where
  "prependInt64 x b = prepend (mem_of_int 8 x) b"

definition prependInt32 :: "int \<Rightarrow> buffer \<Rightarrow> buffer res" where
  "prependInt32 x b = prepend (mem_of_int 4 x) b"

definition prependInt16 :: "int \<Rightarrow> buffer \<Rightarrow> buffer res" where
  "prependInt16 x b = prepend (mem_of_int 2 x) b"

definition prependInt8 :: "int \<Rightarrow> buffer \<Rightarrow> buffer res" where
  "prependInt8 x b = prepend (mem_of_int 1 x) b"

section \<open>Invariant and abstraction\<close>

text \<open>
  A buffer stands for the byte string between its two indices. The writer index never falls
  below \<open>kCheapPrepend\<close>; the reader index may, after a \<open>prepend\<close>.
\<close>

definition content :: "buffer \<Rightarrow> string" where
  "content b = take (writerIndex b - readerIndex b) (drop (readerIndex b) (vec b))"

definition wf_buffer :: "buffer \<Rightarrow> bool" where
  "wf_buffer b \<longleftrightarrow>
     readerIndex b \<le> writerIndex b \<and> kCheapPrepend \<le> writerIndex b \<and>
     writerIndex b \<le> length (vec b) \<and> length (vec b) \<le> vec_max"

named_theorems buf_simps "sizes and indices of a well-formed buffer"

lemma wf_buffer_sizes [buf_simps]:
  assumes "wf_buffer b"
  shows "readableBytes b = writerIndex b - readerIndex b"
    and "writableBytes b = length (vec b) - writerIndex b"
    and "length (content b) = writerIndex b - readerIndex b"
  using assms
  by (auto simp: wf_buffer_def readableBytes_def writableBytes_def content_def vec_max_def)

lemma wf_bufferD:
  assumes "wf_buffer b"
  shows "readerIndex b \<le> writerIndex b" "8 \<le> writerIndex b" "writerIndex b \<le> length (vec b)"
    "length (vec b) < 2 ^ 63"
  using assms by (simp_all add: wf_buffer_def kCheapPrepend_def vec_max_def)

lemma readableBytes_content: "wf_buffer b \<Longrightarrow> readableBytes b = length (content b)"
  by (simp add: buf_simps)

lemma new_buffer_ok:
  assumes "n + 8 \<le> vec_max"
  shows "\<exists>b. new_buffer n = Inr b \<and> wf_buffer b \<and> content b = [] \<and> writerIndex b = 8 \<and>
           length (vec b) = n + 8"
  using assms
  by (auto simp: new_buffer_def vec_resize_def vec_max_def kCheapPrepend_def readableBytes_def
      writableBytes_def prependableBytes_def wf_buffer_def content_def Let_def)

section \<open>Taking bytes out, correctly\<close>

lemma retrieveAll_ok [inv_intros]:
  "wf_buffer b \<Longrightarrow> wf_buffer (retrieveAll b) \<and> content (retrieveAll b) = []"
  by (auto simp: wf_buffer_def retrieveAll_def content_def)

lemma retrieve_ok:
  assumes wf: "wf_buffer b" and n: "n \<le> length (content b)"
  shows "\<exists>b'. retrieve n b = Inr b' \<and> wf_buffer b' \<and> content b' = drop n (content b) \<and>
           writerIndex b' \<le> writerIndex b \<and> vec b' = vec b"
proof (cases "n < length (content b)")
  case True
  with wf_bufferD [OF wf] wf have "readerIndex b + n < 2 ^ 64" by (simp add: buf_simps)
  moreover have "readerIndex b + n \<le> writerIndex b" using True wf by (simp add: buf_simps)
  ultimately show ?thesis
    using wf True by (simp add: retrieve_def buf_simps)
      (simp add: wf_buffer_def content_def drop_take add.commute)
next
  case False
  with wf n show ?thesis
    using retrieveAll_ok [OF wf]
    by (simp add: retrieve_def buf_simps) (simp add: retrieveAll_def wf_buffer_def)
qed

lemma retrieve_too_much:
  "wf_buffer b \<Longrightarrow> length (content b) < n \<Longrightarrow> retrieve n b = Inl AssertionFailed"
  by (simp add: retrieve_def buf_simps)

lemma retrieveAsString_ok:
  assumes wf: "wf_buffer b" and n: "n \<le> length (content b)"
  shows "\<exists>b'. retrieveAsString n b = Inr (take n (content b), b') \<and> wf_buffer b' \<and>
           content b' = drop n (content b) \<and> writerIndex b' \<le> writerIndex b"
proof -
  have "readerIndex b + n \<le> length (vec b)" and "n \<le> writerIndex b - readerIndex b"
    using wf n by (auto simp: buf_simps) (auto simp: wf_buffer_def)
  then show ?thesis
    using retrieve_ok [OF wf n] wf
    by (auto simp: retrieveAsString_def buf_simps peek_def) (simp add: content_def min_absorb1)
qed

lemma retrieveAsString_too_much:
  "wf_buffer b \<Longrightarrow> length (content b) < n \<Longrightarrow> retrieveAsString n b = Inl AssertionFailed"
  by (simp add: retrieveAsString_def buf_simps)

lemma retrieveAllAsString_ok:
  assumes "wf_buffer b"
  shows "\<exists>b'. retrieveAllAsString b = Inr (content b, b') \<and> wf_buffer b' \<and> content b' = [] \<and>
           writerIndex b' \<le> writerIndex b"
  using retrieveAsString_ok [OF assms order_refl] assms
  by (auto simp: retrieveAllAsString_def readableBytes_content)

section \<open>Putting bytes in, correctly\<close>

lemma makeSpace_ok:
  assumes wf: "wf_buffer b" and full: "length (vec b) - writerIndex b < n"
    and room: "writerIndex b + n \<le> vec_max"
  shows "\<exists>b'. makeSpace n b = Inr b' \<and> wf_buffer b' \<and> content b' = content b \<and>
           n \<le> length (vec b') - writerIndex b' \<and> writerIndex b' \<le> writerIndex b"
proof (cases "readerIndex b + (length (vec b) - writerIndex b) < n + 8")
  case True
  let ?v = "take (writerIndex b + n) (vec b) @ replicate (writerIndex b + n - length (vec b)) (CHR 0x00)"
  have len: "length ?v = writerIndex b + n" using wf full by (simp add: wf_buffer_def)
  have "makeSpace n b = Inr (b\<lparr>vec := ?v\<rparr>)"
    using True wf room
    by (simp add: makeSpace_def buf_simps prependableBytes_def kCheapPrepend_def)
      (simp add: wf_buffer_def vec_max_def vec_resize_def)
  moreover have "wf_buffer (b\<lparr>vec := ?v\<rparr>)" using wf len room by (simp add: wf_buffer_def)
  moreover have "content (b\<lparr>vec := ?v\<rparr>) = content b"
    using wf full by (simp add: wf_buffer_def content_def)
  ultimately show ?thesis using len by auto
next
  case False
  let ?c = "content b"
  let ?v = "take 8 (vec b) @ ?c @ drop (8 + length ?c) (vec b)"
  let ?b = "b\<lparr>vec := ?v, readerIndex := 8, writerIndex := 8 + length ?c\<rparr>"
  have r: "8 < readerIndex b" using False full by linarith
  have idx: "readerIndex b \<le> writerIndex b" "writerIndex b \<le> length (vec b)"
    "length (vec b) \<le> vec_max" using wf by (auto simp: wf_buffer_def)
  have len: "length ?c = writerIndex b - readerIndex b" using wf by (simp add: buf_simps)
  have lv: "length ?v = length (vec b)" using r idx len by simp
  have wf': "wf_buffer ?b" using lv idx len r by (auto simp: wf_buffer_def kCheapPrepend_def)
  have "content ?b = ?c" using len idx r by (simp add: content_def)
  moreover have "n \<le> length ?v - (8 + length ?c)" using False full idx len lv by simp
  moreover have "makeSpace n b = Inr ?b"
    using False wf r idx len lv wf' calculation
    by (simp add: makeSpace_def buf_simps prependableBytes_def kCheapPrepend_def vec_max_def Let_def
        flip: content_def)
  ultimately show ?thesis using wf' len idx r by auto
qed

lemma ensureWritableBytes_ok:
  assumes wf: "wf_buffer b" and room: "writerIndex b + n \<le> vec_max"
  shows "\<exists>b'. ensureWritableBytes n b = Inr b' \<and> wf_buffer b' \<and> content b' = content b \<and>
           n \<le> length (vec b') - writerIndex b' \<and> writerIndex b' \<le> writerIndex b"
proof (cases "length (vec b) - writerIndex b < n")
  case True
  from makeSpace_ok [OF wf this room] True wf show ?thesis
    by (auto simp: ensureWritableBytes_def buf_simps)
next
  case False
  with wf show ?thesis by (simp add: ensureWritableBytes_def buf_simps)
qed

text \<open>An append into free space, which the append after \<open>ensureWritableBytes\<close> always is.\<close>

lemma buffer_append_in_place:
  assumes wf: "wf_buffer b" and fit: "length xs \<le> length (vec b) - writerIndex b"
  shows "\<exists>b'. buffer_append xs b = Inr b' \<and> wf_buffer b' \<and> content b' = content b @ xs \<and>
           writerIndex b' = writerIndex b + length xs \<and> length (vec b') = length (vec b)"
proof -
  note idx = wf_bufferD [OF wf]
  let ?v = "take (writerIndex b) (vec b) @ xs @ drop (writerIndex b + length xs) (vec b)"
  let ?b = "b\<lparr>vec := ?v, writerIndex := writerIndex b + length xs\<rparr>"
  have len: "length ?v = length (vec b)" using idx fit by simp
  have "ensureWritableBytes (length xs) b = Inr b"
    using fit wf by (simp add: ensureWritableBytes_def buf_simps)
  moreover have "vec_store (beginWrite b) xs (vec b) = Inr ?v"
    using idx fit by (simp add: beginWrite_def)
  moreover have "hasWritten (length xs) (b\<lparr>vec := ?v\<rparr>) = Inr ?b"
    using idx fit len by (simp add: hasWritten_def writableBytes_def)
  ultimately have "buffer_append xs b = Inr ?b" by (simp add: buffer_append_def)
  moreover have "wf_buffer ?b" using wf fit len idx by (auto simp: wf_buffer_def)
  moreover have "content ?b = content b @ xs"
  proof -
    have "content ?b = take (writerIndex b + length xs - readerIndex b) (drop (readerIndex b) ?v)"
      by (simp add: content_def)
    also have "\<dots> = content b @ xs"
      unfolding content_def by (rule drop_take_append_store [OF idx(1,3)])
    finally show ?thesis .
  qed
  ultimately show ?thesis using len by simp
qed

lemma buffer_append_ok:
  assumes wf: "wf_buffer b" and room: "writerIndex b + length xs \<le> vec_max"
  shows "\<exists>b'. buffer_append xs b = Inr b' \<and> wf_buffer b' \<and> content b' = content b @ xs \<and>
           writerIndex b' \<le> writerIndex b + length xs"
proof -
  from ensureWritableBytes_ok [OF wf room] obtain b1 where b1:
    "ensureWritableBytes (length xs) b = Inr b1" "wf_buffer b1" "content b1 = content b"
    "length xs \<le> length (vec b1) - writerIndex b1" "writerIndex b1 \<le> writerIndex b" by auto
  have "buffer_append xs b = buffer_append xs b1"
    using b1(1,2,4) by (simp add: buffer_append_def ensureWritableBytes_def buf_simps)
  with buffer_append_in_place [OF b1(2,4)] b1(3,5) show ?thesis by auto
qed

lemma prepend_ok:
  assumes wf: "wf_buffer b" and room: "length xs \<le> readerIndex b"
  shows "\<exists>b'. prepend xs b = Inr b' \<and> wf_buffer b' \<and> content b' = xs @ content b \<and>
           readerIndex b' = readerIndex b - length xs \<and> writerIndex b' = writerIndex b"
proof -
  let ?r = "readerIndex b - length xs"
  let ?v = "take ?r (vec b) @ xs @ drop (?r + length xs) (vec b)"
  let ?b = "b\<lparr>vec := ?v, readerIndex := ?r\<rparr>"
  note idx = wf_bufferD [OF wf]
  have "prepend xs b = Inr ?b"
    using idx room by (simp add: prepend_def prependableBytes_def Let_def)
  moreover have "wf_buffer ?b" using wf room idx by (auto simp: wf_buffer_def)
  moreover have "content ?b = xs @ content b" using idx room by (simp add: content_def min_absorb2)
  ultimately show ?thesis by simp
qed

lemma prepend_no_room:
  "readerIndex b < length xs \<Longrightarrow> prepend xs b = Inl AssertionFailed"
  by (simp add: prepend_def prependableBytes_def)

lemma unwrite_widens:
  assumes wf: "wf_buffer b" and n: "n \<le> length (content b)" and r: "n \<le> readerIndex b"
  shows "\<exists>b'. unwrite n b = Inr b' \<and> wf_buffer b' \<and>
           content b' = take n (drop (readerIndex b - n) (vec b)) @ content b"
proof -
  let ?b = "b\<lparr>readerIndex := readerIndex b - n\<rparr>"
  note idx = wf_bufferD [OF wf]
  have "unwrite n b = Inr ?b" using wf n r idx by (simp add: unwrite_def buf_simps)
  moreover have "wf_buffer ?b" using wf r by (auto simp: wf_buffer_def)
  moreover have "content ?b = take n (drop (readerIndex b - n) (vec b)) @ content b"
  proof -
    have "writerIndex b - (readerIndex b - n) = n + (writerIndex b - readerIndex b)"
      using idx r by simp
    then show ?thesis using r by (simp add: content_def take_add)
  qed
  ultimately show ?thesis by simp
qed

lemma shrink_ok:
  assumes wf: "wf_buffer b" and room: "length (content b) + n + 8 \<le> vec_max"
  shows "\<exists>b'. shrink n b = Inr b' \<and> wf_buffer b' \<and> content b' = content b \<and> n \<le> writableBytes b'"
proof -
  obtain b0 where b0: "new_buffer kInitialSize = Inr b0" "wf_buffer b0" "content b0 = []"
      "writerIndex b0 = 8"
    using new_buffer_ok [of kInitialSize] by (auto simp: kInitialSize_def vec_max_def)
  have sz: "add_sz (readableBytes b) n = length (content b) + n"
    using wf room by (simp add: readableBytes_content vec_max_def)
  obtain b1 where b1: "ensureWritableBytes (length (content b) + n) b0 = Inr b1" "wf_buffer b1"
      "content b1 = []" "length (content b) + n \<le> length (vec b1) - writerIndex b1"
    using ensureWritableBytes_ok [OF b0(2), of "length (content b) + n"] room b0 by auto
  obtain b2 where b2: "buffer_append (content b) b1 = Inr b2" "wf_buffer b2" "content b2 = content b"
      "n \<le> writableBytes b2"
    using buffer_append_in_place [OF b1(2), of "content b"] b1 by (auto simp: buf_simps)
  from retrieveAsString_ok [OF wf order_refl] show ?thesis
    using wf b0 b1 b2 sz
    by (auto simp: shrink_def readableBytes_content swap_buffer_def)
qed

section \<open>Searching, correctly\<close>

lemma findCRLF_content:
  assumes wf: "wf_buffer b"
  shows "findCRLF k b =
    Inr (let i = std_search (take 2 k) (content b)
         in if i = length (content b) then None else Some (readerIndex b + i))"
proof -
  note idx = wf_bufferD [OF wf]
  have "vec_load (readerIndex b) (sub_sz (writerIndex b) (readerIndex b)) (vec b) = Inr (content b)"
    using idx by (simp add: content_def)
  moreover have "writerIndex b = readerIndex b + length (content b)" using idx wf
    by (simp add: buf_simps)
  ultimately show ?thesis
    by (simp add: findCRLF_def search_from_def peek_def beginWrite_def Let_def)
qed

lemma findEOL_content:
  assumes wf: "wf_buffer b"
  shows "findEOL b =
    Inr (let i = std_find (CHR 0x0A) (content b)
         in if i = length (content b) then None else Some (readerIndex b + i))"
proof -
  note idx = wf_bufferD [OF wf]
  have "vec_load (readerIndex b) (readableBytes b) (vec b) = Inr (content b)"
    using idx wf by (simp add: content_def buf_simps)
  then show ?thesis by (simp add: findEOL_def memchr_def peek_def Let_def)
qed

lemma retrieveUntil_ok:
  assumes wf: "wf_buffer b" and n: "n \<le> length (content b)"
  shows "\<exists>b'. retrieveUntil (readerIndex b + n) b = Inr b' \<and> wf_buffer b' \<and>
           content b' = drop n (content b) \<and> writerIndex b' \<le> writerIndex b"
  using retrieve_ok [OF wf n] n wf wf_bufferD [OF wf]
  by (auto simp: retrieveUntil_def peek_def beginWrite_def buf_simps)

section \<open>Integers, correctly\<close>

text \<open>What \<open>prependIntN\<close> writes, \<open>readIntN\<close> takes back out.\<close>

lemma prepend_read_int:
  assumes wf: "wf_buffer b" and room: "n \<le> readerIndex b" and n: "0 < n"
    and x: "- (2 ^ (8 * n - 1)) \<le> x" "x < 2 ^ (8 * n - 1)"
  shows "\<exists>b1 b2. prepend (mem_of_int n x) b = Inr b1 \<and> peekInt n b1 = Inr x \<and>
           retrieve n b1 = Inr b2 \<and> wf_buffer b2 \<and> content b2 = content b"
proof -
  obtain b1 where b1: "prepend (mem_of_int n x) b = Inr b1" "wf_buffer b1"
      "content b1 = mem_of_int n x @ content b"
    using prepend_ok [OF wf, of "mem_of_int n x"] room by auto
  note idx = wf_bufferD [OF b1(2)]
  have len: "n \<le> length (content b1)" by (simp add: b1(3))
  have fit: "n \<le> writerIndex b1 - readerIndex b1" using len b1(2) by (simp only: buf_simps)
  have "take n (drop (readerIndex b1) (vec b1)) = take n (content b1)"
    using fit by (simp add: content_def min_absorb1)
  then have "peekInt n b1 = Inr x"
    using fit idx b1(2) int_of_mem_of_int [OF n x] b1(3)
    by (simp add: peekInt_def peek_def buf_simps)
  then show ?thesis using retrieve_ok [OF b1(2) len] b1(1,3) by auto
qed

section \<open>The buffer as a queue of bytes\<close>

text \<open>
  What the clients of a buffer rely on: it is a queue of bytes, \<open>put\<close> adds at one end and
  \<open>get\<close> takes from the other. \<open>used\<close> bounds the space the queue occupies and
  \<open>limit\<close> is the space it can ever have. A \<open>get\<close> of more than the queue holds
  faults.
\<close>

locale byte_queue =
  fixes inv :: "'b \<Rightarrow> bool" and bytes :: "'b \<Rightarrow> string" and used :: "'b \<Rightarrow> nat" and limit :: nat
    and put :: "string \<Rightarrow> 'b \<Rightarrow> 'b res" and get :: "nat \<Rightarrow> 'b \<Rightarrow> (string \<times> 'b) res"
  assumes put_ok: "inv b \<Longrightarrow> used b + length xs \<le> limit \<Longrightarrow>
      \<exists>b'. put xs b = Inr b' \<and> inv b' \<and> bytes b' = bytes b @ xs \<and> used b' \<le> used b + length xs"
    and get_ok: "inv b \<Longrightarrow> n \<le> length (bytes b) \<Longrightarrow>
      \<exists>b'. get n b = Inr (take n (bytes b), b') \<and> inv b' \<and> bytes b' = drop n (bytes b) \<and>
           used b' \<le> used b"
    and get_fault: "inv b \<Longrightarrow> length (bytes b) < n \<Longrightarrow> get n b = Inl AssertionFailed"

text \<open>A client's use of a queue: a list of operations, and the bytes it got, in order.\<close>

datatype queue_op = Put string | Get nat

fun run_queue :: "(string \<Rightarrow> 'b \<Rightarrow> 'b res) \<Rightarrow> (nat \<Rightarrow> 'b \<Rightarrow> (string \<times> 'b) res) \<Rightarrow>
    queue_op list \<Rightarrow> 'b \<Rightarrow> (string \<times> 'b) res" where
  "run_queue put get [] b = Inr ([], b)"
| "run_queue put get (Put xs # ops) b = bind_r (put xs b) (\<lambda>b'. run_queue put get ops b')"
| "run_queue put get (Get n # ops) b =
     bind_r (get n b) (\<lambda>(out, b'). bind_r (run_queue put get ops b') (\<lambda>(out', b''). Inr (out @ out', b'')))"

fun put_bytes :: "queue_op list \<Rightarrow> string" where
  "put_bytes [] = []"
| "put_bytes (Put xs # ops) = xs @ put_bytes ops"
| "put_bytes (Get n # ops) = put_bytes ops"

text \<open>The gets of a sequence never ask for more than is there, starting from \<open>n\<close> bytes.\<close>

fun gets_fit :: "nat \<Rightarrow> queue_op list \<Rightarrow> bool" where
  "gets_fit n [] = True"
| "gets_fit n (Put xs # ops) = gets_fit (n + length xs) ops"
| "gets_fit n (Get k # ops) = (k \<le> n \<and> gets_fit (n - k) ops)"

context byte_queue
begin

lemma run_fifo:
  assumes "inv b" and "used b + length (put_bytes ops) \<le> limit" and "gets_fit (length (bytes b)) ops"
  shows "\<exists>out b'. run_queue put get ops b = Inr (out, b') \<and> inv b' \<and>
           out @ bytes b' = bytes b @ put_bytes ops"
  using assms
proof (induction ops arbitrary: b)
  case Nil
  then show ?case by simp
next
  case (Cons op ops)
  show ?case
  proof (cases op)
    case (Put xs)
    with Cons.prems put_ok [of b xs] obtain b' where b': "put xs b = Inr b'" "inv b'"
        "bytes b' = bytes b @ xs" "used b' \<le> used b + length xs" by auto
    with Put Cons.prems Cons.IH [of b'] show ?thesis by auto
  next
    case (Get n)
    with Cons.prems get_ok [of b n] obtain b' where b': "get n b = Inr (take n (bytes b), b')"
        "inv b'" "bytes b' = drop n (bytes b)" "used b' \<le> used b" by auto
    with Get Cons.prems Cons.IH [of b'] obtain out b'' where
      "run_queue put get ops b' = Inr (out, b'')" "inv b''"
      "out @ bytes b'' = drop n (bytes b) @ put_bytes ops" by auto
    with Get b' show ?thesis by (simp flip: append.assoc)
  qed
qed

lemma run_overdraw:
  assumes "inv b" and "used b + length (put_bytes ops) \<le> limit"
    and "\<not> gets_fit (length (bytes b)) ops"
  shows "run_queue put get ops b = Inl AssertionFailed"
  using assms
proof (induction ops arbitrary: b)
  case Nil
  then show ?case by simp
next
  case (Cons op ops)
  show ?case
  proof (cases op)
    case (Put xs)
    with Cons.prems put_ok [of b xs] Cons.IH show ?thesis by fastforce
  next
    case (Get n)
    show ?thesis
    proof (cases "n \<le> length (bytes b)")
      case True
      with Get Cons.prems get_ok [of b n] Cons.IH show ?thesis by fastforce
    next
      case False
      with Get Cons.prems get_fault [of b n] show ?thesis by simp
    qed
  qed
qed

end

interpretation bufq: byte_queue wf_buffer content writerIndex vec_max buffer_append retrieveAsString
  by unfold_locales (simp_all add: buffer_append_ok retrieveAsString_ok retrieveAsString_too_much)

section \<open>Properties\<close>

text \<open>A small buffer with a few readable bytes, for the closed instances.\<close>

definition demo_buffer :: buffer where
  "demo_buffer = \<lparr>vec = replicate 8 (CHR 0x00) @ ''hi'' @ [CHR 0x0D, CHR 0x0A] @ ''x'',
                  readerIndex = 8, writerIndex = 13\<rparr>"

lemma demo_buffer_facts [simp]:
  "wf_buffer demo_buffer"
  "content demo_buffer = ''hi'' @ [CHR 0x0D, CHR 0x0A] @ ''x''"
  "writerIndex demo_buffer = 13"
  "readerIndex demo_buffer = 8"
  by (simp_all add: demo_buffer_def wf_buffer_def content_def kCheapPrepend_def vec_max_def)

text \<open>
  C8. The buffer is a first-in first-out queue of bytes: any sequence of \<open>append\<close> and
  \<open>retrieveAsString\<close> calls in which no retrieve asks for more than is readable, and whose
  appends fit into the largest vector, runs without a fault (no failed assert, no access
  outside the vector, whether the space is grown, compacted or already there), keeps the
  invariant, and the bytes retrieved followed by the bytes left are exactly the bytes there at
  the start followed by the bytes appended.
\<close>
theorem buffer_is_fifo:
  assumes "wf_buffer b" and "writerIndex b + length (put_bytes ops) \<le> vec_max"
    and "gets_fit (length (content b)) ops"
  shows "\<exists>out b'. run_queue buffer_append retrieveAsString ops b = Inr (out, b') \<and> wf_buffer b' \<and>
           out @ content b' = content b @ put_bytes ops"
  by (rule bufq.run_fifo [OF assms])

theorem buffer_is_fifo_witness:
  "\<exists>out b'. run_queue buffer_append retrieveAsString [Get 2, Put ''abc'', Get 4, Put ''d''] demo_buffer
       = Inr (out, b') \<and> wf_buffer b' \<and>
     out @ content b' = ''hi'' @ [CHR 0x0D, CHR 0x0A] @ ''xabcd''"
  using buffer_is_fifo [of demo_buffer "[Get 2, Put ''abc'', Get 4, Put ''d'']"]
  by (simp add: vec_max_def)

text \<open>
  A sequence of \<open>append\<close> and \<open>retrieveAsString\<close> calls in which some retrieve
  asks for more bytes than are then readable stops at a failed assert: it never returns bytes
  that were not appended.
\<close>
theorem buffer_overdraw_asserts:
  assumes "wf_buffer b" and "writerIndex b + length (put_bytes ops) \<le> vec_max"
    and "\<not> gets_fit (length (content b)) ops"
  shows "run_queue buffer_append retrieveAsString ops b = Inl AssertionFailed"
  by (rule bufq.run_overdraw [OF assms])

theorem buffer_overdraw_asserts_witness:
  "run_queue buffer_append retrieveAsString [Get 2, Put ''abc'', Get 7] demo_buffer
     = Inl AssertionFailed"
  by (rule buffer_overdraw_asserts) (simp_all add: vec_max_def)

text \<open>
  Integers survive the buffer: for each width, a value of that type that is prepended
  (there being room before the reader index) is the value the matching read returns, and the
  read leaves the buffer with the content it had before.
\<close>
theorem prepend_read_roundtrip:
  assumes "wf_buffer b"
  shows "(8 \<le> readerIndex b \<longrightarrow> x \<in> {- (2 ^ 63) ..< 2 ^ 63} \<longrightarrow>
      (\<exists>b'. bind_r (prependInt64 x b) readInt64 = Inr (x, b') \<and> wf_buffer b' \<and> content b' = content b)) \<and>
    (4 \<le> readerIndex b \<longrightarrow> x \<in> {- (2 ^ 31) ..< 2 ^ 31} \<longrightarrow>
      (\<exists>b'. bind_r (prependInt32 x b) readInt32 = Inr (x, b') \<and> wf_buffer b' \<and> content b' = content b)) \<and>
    (2 \<le> readerIndex b \<longrightarrow> x \<in> {- (2 ^ 15) ..< 2 ^ 15} \<longrightarrow>
      (\<exists>b'. bind_r (prependInt16 x b) readInt16 = Inr (x, b') \<and> wf_buffer b' \<and> content b' = content b)) \<and>
    (1 \<le> readerIndex b \<longrightarrow> x \<in> {- (2 ^ 7) ..< 2 ^ 7} \<longrightarrow>
      (\<exists>b'. bind_r (prependInt8 x b) readInt8 = Inr (x, b') \<and> wf_buffer b' \<and> content b' = content b))"
  using prepend_read_int [OF assms, of 8 x] prepend_read_int [OF assms, of 4 x]
    prepend_read_int [OF assms, of 2 x] prepend_read_int [OF assms, of 1 x]
  by (auto simp: prependInt64_def readInt64_def peekInt64_def retrieveInt64_def
      prependInt32_def readInt32_def peekInt32_def retrieveInt32_def
      prependInt16_def readInt16_def peekInt16_def retrieveInt16_def
      prependInt8_def readInt8_def peekInt8_def retrieveInt8_def)

theorem prepend_read_roundtrip_witness:
  "\<exists>b'. bind_r (prependInt32 (- 5) demo_buffer) readInt32 = Inr (- 5, b') \<and> wf_buffer b' \<and>
     content b' = content demo_buffer"
  using prepend_read_roundtrip [of demo_buffer "- 5"] by simp

text \<open>
  \<open>findCRLF\<close> finds the first line end: with a two-character \<open>kCRLF\<close>, it returns
  NULL exactly when the readable bytes hold no such pair, and otherwise a pointer to a pair
  before which no pair starts.
\<close>
theorem findCRLF_first:
  assumes "wf_buffer b" and "length k = 2"
  shows "(\<exists>i. findCRLF k b = Inr (Some (peek b + i)) \<and> i + 2 \<le> readableBytes b \<and>
            take 2 (drop i (content b)) = k \<and>
            (\<forall>j < i. take 2 (drop j (content b)) \<noteq> k)) \<or>
         (findCRLF k b = Inr None \<and> (\<forall>j. take 2 (drop j (content b)) \<noteq> k))"
proof (cases "std_search k (content b) < length (content b)")
  case True
  with assms std_search_found [OF True] std_search_found_le [OF True]
    std_search_first [of _ k "content b"] show ?thesis
    by (auto simp: findCRLF_content readableBytes_content peek_def Let_def)
next
  case False
  then have none: "std_search k (content b) = length (content b)"
    using std_search_le [of k "content b"] by simp
  have "take 2 (drop j (content b)) \<noteq> k" for j
    using std_search_first [of j k "content b"] none assms(2)
    by (cases "j < length (content b)") auto
  with none assms show ?thesis by (simp add: findCRLF_content Let_def)
qed

theorem findCRLF_first_witness:
  "findCRLF [CHR 0x0D, CHR 0x0A] demo_buffer = Inr (Some (peek demo_buffer + 2))"
  using findCRLF_first [of demo_buffer "[CHR 0x0D, CHR 0x0A]"]
  by (simp add: findCRLF_content peek_def Let_def)

text \<open>
  \<open>unwrite(len)\<close> moves the wrong index: with room before the reader index it does not
  take the last \<open>len\<close> bytes back, it makes \<open>len\<close> bytes in front of the content
  readable.
\<close>
theorem unwrite_grows:
  assumes "wf_buffer b" and "len \<le> readableBytes b" and "len \<le> readerIndex b"
  shows "\<exists>b'. unwrite len b = Inr b' \<and> readableBytes b' = readableBytes b + len \<and>
           drop len (content b') = content b"
  using unwrite_widens [of b len] assms wf_bufferD [OF assms(1)]
  by (auto simp: readableBytes_content)

theorem unwrite_grows_witness:
  "\<exists>b'. unwrite 2 demo_buffer = Inr b' \<and> readableBytes b' = readableBytes demo_buffer + 2 \<and>
     drop 2 (content b') = content demo_buffer"
  by (rule unwrite_grows) (simp_all add: readableBytes_content)

text \<open>
  \<open>shrink(reserve)\<close> keeps the content, whatever the sizes of the old and the new
  vector, and leaves at least \<open>reserve\<close> writable bytes.
\<close>
theorem shrink_keeps_content:
  assumes "wf_buffer b" and "readableBytes b + reserve + 8 \<le> vec_max"
  shows "\<exists>b'. shrink reserve b = Inr b' \<and> wf_buffer b' \<and> content b' = content b \<and>
           reserve \<le> writableBytes b'"
  using assms shrink_ok by (simp add: readableBytes_content)

theorem shrink_keeps_content_witness:
  "\<exists>b'. shrink 100 demo_buffer = Inr b' \<and> wf_buffer b' \<and> content b' = content demo_buffer \<and>
     100 \<le> writableBytes b'"
  by (rule shrink_keeps_content) (simp_all add: readableBytes_content vec_max_def)

end
