(* ===== verification/Date.thy ===== *)
theory Date
  imports Prelude
begin

text \<open>
  \<open>base::Date\<close> (src/base/Date.h, src/base/Date.cc): a date held as its Julian day number,
  with the conversion to and from year, month and day, the day of the week, the order and the
  ISO text. All arithmetic is \<open>int\<close> arithmetic of the code: 32 bits, truncating division.
  The reference it is compared with is the Gregorian calendar written out: leap years, month
  lengths, and the successor of a date.
\<close>

section \<open>Julian day numbers\<close>

definition getJulianDayNumber :: "int \<Rightarrow> int \<Rightarrow> int \<Rightarrow> int" where
  "getJulianDayNumber y0 month day =
     (let a = div32 (sub32 14 month) 12;
          y = sub32 (add32 y0 4800) a;
          m = sub32 (add32 month (mul32 12 a)) 3
      in sub32
           (add32
             (sub32
               (add32
                 (add32
                   (add32 day (div32 (add32 (mul32 153 m) 2) 5))
                   (mul32 y 365))
                 (div32 y 4))
               (div32 y 100))
             (div32 y 400))
           32045)"

record YearMonthDay =
  ymd_year :: int
  ymd_month :: int
  ymd_day :: int

definition getYearMonthDay :: "int \<Rightarrow> YearMonthDay" where
  "getYearMonthDay julianDayNum =
     (let a = add32 julianDayNum 32044;
          b = div32 (add32 (mul32 4 a) 3) 146097;
          c = sub32 a (div32 (mul32 b 146097) 4);
          d = div32 (add32 (mul32 4 c) 3) 1461;
          e = sub32 c (div32 (mul32 1461 d) 4);
          m = div32 (add32 (mul32 5 e) 2) 153
      in \<lparr>ymd_year = add32 (sub32 (add32 (mul32 b 100) d) 4800) (div32 m 10),
          ymd_month = sub32 (add32 m 3) (mul32 12 (div32 m 10)),
          ymd_day = add32 (sub32 e (div32 (add32 (mul32 153 m) 2) 5)) 1\<rparr>)"

definition kJulianDayOf1970_01_01 :: int where
  "kJulianDayOf1970_01_01 = getJulianDayNumber 1970 1 1"

section \<open>The class\<close>

record Date =
  julianDayNumber :: int

definition Date_default :: Date where
  "Date_default = \<lparr>julianDayNumber = 0\<rparr>"

definition Date_ymd :: "int \<Rightarrow> int \<Rightarrow> int \<Rightarrow> Date" where
  "Date_ymd y m d = \<lparr>julianDayNumber = getJulianDayNumber y m d\<rparr>"

definition Date_julian :: "int \<Rightarrow> Date" where
  "Date_julian julianDayNum = \<lparr>julianDayNumber = julianDayNum\<rparr>"

text \<open>The fields of \<open>struct tm\<close> that the sources read or write.\<close>

record tm =
  tm_sec :: int
  tm_min :: int
  tm_hour :: int
  tm_mday :: int
  tm_mon :: int
  tm_year :: int
  tm_wday :: int
  tm_yday :: int
  tm_isdst :: int
  tm_gmtoff :: int
  tm_zone :: string

definition Date_tm :: "tm \<Rightarrow> Date" where
  "Date_tm t =
     \<lparr>julianDayNumber = getJulianDayNumber (add32 (tm_year t) 1900) (add32 (tm_mon t) 1) (tm_mday t)\<rparr>"

definition Date_swap :: "Date \<Rightarrow> Date \<Rightarrow> Date \<times> Date" where
  "Date_swap this that =
     (this\<lparr>julianDayNumber := julianDayNumber that\<rparr>, that\<lparr>julianDayNumber := julianDayNumber this\<rparr>)"

definition Date_valid :: "Date \<Rightarrow> bool" where
  "Date_valid d \<longleftrightarrow> 0 < julianDayNumber d"

definition yearMonthDay :: "Date \<Rightarrow> YearMonthDay" where
  "yearMonthDay d = getYearMonthDay (julianDayNumber d)"

definition Date_year :: "Date \<Rightarrow> int" where
  "Date_year d = ymd_year (yearMonthDay d)"

definition Date_month :: "Date \<Rightarrow> int" where
  "Date_month d = ymd_month (yearMonthDay d)"

definition Date_day :: "Date \<Rightarrow> int" where
  "Date_day d = ymd_day (yearMonthDay d)"

definition weekDay :: "Date \<Rightarrow> int" where
  "weekDay d = mod32 (add32 (julianDayNumber d) 1) 7"

definition toIsoString :: "Date \<Rightarrow> string" where
  "toIsoString d =
     (let ymd = yearMonthDay d in
      snprintf_to 32 (fmt_d 4 (ymd_year ymd) @ ''-'' @ fmt_0d 2 (ymd_month ymd) @ ''-'' @
                      fmt_0d 2 (ymd_day ymd)))"

definition Date_less :: "Date \<Rightarrow> Date \<Rightarrow> bool" where
  "Date_less x y \<longleftrightarrow> julianDayNumber x < julianDayNumber y"

definition Date_eq :: "Date \<Rightarrow> Date \<Rightarrow> bool" where
  "Date_eq x y \<longleftrightarrow> julianDayNumber x = julianDayNumber y"

section \<open>The calendar\<close>

definition leap_year :: "int \<Rightarrow> bool" where
  "leap_year y \<longleftrightarrow> y mod 4 = 0 \<and> (y mod 100 \<noteq> 0 \<or> y mod 400 = 0)"

definition days_in_month :: "int \<Rightarrow> int \<Rightarrow> int" where
  "days_in_month y m =
     (if m = 2 then (if leap_year y then 29 else 28)
      else if m = 4 \<or> m = 6 \<or> m = 9 \<or> m = 11 then 30 else 31)"

definition valid_ymd :: "YearMonthDay \<Rightarrow> bool" where
  "valid_ymd t \<longleftrightarrow> 1 \<le> ymd_month t \<and> ymd_month t \<le> 12 \<and> 1 \<le> ymd_day t \<and>
     ymd_day t \<le> days_in_month (ymd_year t) (ymd_month t)"

definition next_day :: "YearMonthDay \<Rightarrow> YearMonthDay" where
  "next_day t =
     (if ymd_day t < days_in_month (ymd_year t) (ymd_month t) then t\<lparr>ymd_day := ymd_day t + 1\<rparr>
      else if ymd_month t < 12 then t\<lparr>ymd_month := ymd_month t + 1, ymd_day := 1\<rparr>
      else t\<lparr>ymd_year := ymd_year t + 1, ymd_month := 1, ymd_day := 1\<rparr>)"

text \<open>
  The years for which no intermediate value of either conversion leaves the 32-bit range, and
  the day numbers that go with them.
\<close>

definition year_range :: "int \<Rightarrow> bool" where
  "year_range y \<longleftrightarrow> - 4799 \<le> y \<and> y \<le> 1400000"

definition jdn_range :: "int \<Rightarrow> bool" where
  "jdn_range j \<longleftrightarrow> - 32044 \<le> j \<and> j \<le> 536838867"

section \<open>The two conversions without machine arithmetic\<close>

text \<open>
  Years starting in March: \<open>march_days q r m\<close> is the number of days before month \<open>m\<close>
  (0 for March) of year \<open>r\<close> of century \<open>q\<close>.
\<close>

definition march_days :: "int \<Rightarrow> int \<Rightarrow> int \<Rightarrow> int" where
  "march_days q r m = (146097 * q) div 4 + (1461 * r) div 4 + (153 * m + 2) div 5"

definition march_a :: "int \<Rightarrow> int" where
  "march_a month = (if month \<le> 2 then 1 else 0)"

lemma century_days: "(146097 * q) div 4 = 36524 * q + q div (4::int)"
  using div_mult_self1 [of 4 q "36524 * q"] by (simp add: algebra_simps)

lemma year_days: "(1461 * r) div 4 = 365 * r + r div (4::int)"
  using div_mult_self1 [of 4 r "365 * r"] by (simp add: algebra_simps)

lemma century_days4: "(146097 * q) div 4 * 4 = 146097 * q - q mod (4::int)"
  unfolding century_days using mult_div_mod_eq [of 4 q] by (simp add: algebra_simps)

lemma year_days4: "(1461 * r) div 4 * 4 = 1461 * r - r mod (4::int)"
  unfolding year_days using mult_div_mod_eq [of 4 r] by (simp add: algebra_simps)

lemma years_days:
  "z * 365 + z div 4 - z div 100 + z div 400 =
     (146097 * (z div 100)) div 4 + (1461 * (z mod 100)) div (4::int)"
proof -
  define q r where "q = z div 100" and "r = z mod 100"
  have z: "z = r + (25 * q) * 4" by (simp add: q_def r_def)
  have "z div 4 = 25 * q + r div 4" unfolding z by simp
  moreover have "z div 400 = q div 4" by (simp add: q_def zdiv_zmult2_eq [symmetric])
  ultimately show ?thesis
    by (simp add: century_days year_days flip: q_def r_def) (simp add: z)
qed

lemma fourteen_minus: "1 \<le> month \<Longrightarrow> month \<le> 12 \<Longrightarrow> (14 - month) div 12 = march_a month"
  by (auto simp: march_a_def intro!: div_eqI)

text \<open>
  The arithmetic with its quotients named, so that the bounds are linear in the names.
\<close>

lemma jdn_no_wrap:
  assumes y: "0 \<le> z" "z \<le> 1404800" and m: "0 \<le> m" "m \<le> 11" and day: "1 \<le> day" "day \<le> 31"
  shows "sub32 (add32 (sub32 (add32 (add32 (add32 day (div32 (add32 (mul32 153 m) 2) 5))
      (mul32 z 365)) (div32 z 4)) (div32 z 100)) (div32 z 400)) 32045 =
    day + (153 * m + 2) div 5 + z * 365 + z div 4 - z div 100 + z div 400 - 32045"
proof -
  define p q r s where "p = (153 * m + 2) div 5" and "q = z div 4" and "r = z div 100"
    and "s = z div 400"
  have "0 \<le> p" "p \<le> 337" using div_bounds [of "153 * m + 2" 1685 5] m by (simp_all add: p_def)
  moreover have "0 \<le> q" "q \<le> 351200" using div_bounds [of z 1404800 4] y by (simp_all add: q_def)
  moreover have "0 \<le> r" "r \<le> 14048" using div_bounds [of z 1404800 100] y by (simp_all add: r_def)
  moreover have "0 \<le> s" "s \<le> 3512" using div_bounds [of z 1404800 400] y by (simp_all add: s_def)
  moreover have "div32 (add32 (mul32 153 m) 2) 5 = p" "div32 z 4 = q" "div32 z 100 = r"
    "div32 z 400 = s"
    using m y by (simp_all add: add32_def mul32_def div32_nonneg p_def q_def r_def s_def)
  ultimately show ?thesis
    using y day by (simp add: add32_def sub32_def mul32_def flip: p_def q_def r_def s_def)
qed

lemma regroup:
  "day + p + t1 + t2 - t3 + t4 - 32045 = day - 1 + ((t1 + t2 - t3 + t4) + p) - (32044::int)"
  by simp

lemma jdn_plain:
  assumes "year_range y" and "1 \<le> month" "month \<le> 12" and "1 \<le> day" "day \<le> 31"
  shows "getJulianDayNumber y month day =
    (let a = march_a month; z = y + 4800 - a; m = month + 12 * a - 3
     in day - 1 + march_days (z div 100) (z mod 100) m - 32044)"
proof -
  define z where "z = y + 4800 - march_a month"
  define m where "m = month + 12 * march_a month - 3"
  have a: "div32 (sub32 14 month) 12 = march_a month"
    using assms fourteen_minus [OF assms(2,3)] by (simp add: sub32_def div32_nonneg)
  have zz: "sub32 (add32 y 4800) (march_a month) = z" "add32 month (mul32 12 (march_a month)) - 3 = m"
    "sub32 (add32 month (mul32 12 (march_a month))) 3 = m"
    using assms by (auto simp: sub32_def add32_def mul32_def march_a_def z_def m_def year_range_def)
  have z: "0 \<le> z" "z \<le> 1404800"
    using assms(1) by (auto simp: z_def year_range_def march_a_def)
  have m: "0 \<le> m" "m \<le> 11" using assms by (auto simp: m_def march_a_def)
  have "getJulianDayNumber y month day =
      day + (153 * m + 2) div 5 + z * 365 + z div 4 - z div 100 + z div 400 - 32045"
    unfolding getJulianDayNumber_def Let_def a zz by (rule jdn_no_wrap [OF z m assms(4,5)])
  also have "\<dots> = day - 1 + march_days (z div 100) (z mod 100) m - 32044"
    unfolding regroup years_days march_days_def ..
  finally show ?thesis by (simp only: Let_def z_def m_def)
qed

section \<open>March years\<close>

text \<open>
  A date of a March year: \<open>q\<close> centuries and \<open>r\<close> years since 4801 BC, month
  \<open>m\<close> counted from March.
\<close>

definition march_leap :: "int \<Rightarrow> int \<Rightarrow> bool" where
  "march_leap q r \<longleftrightarrow> r mod 4 = 3 \<and> (r = 99 \<longrightarrow> q mod 4 = 3)"

definition march_len :: "int \<Rightarrow> int \<Rightarrow> int \<Rightarrow> int" where
  "march_len q r m =
     (if m = 11 then (if march_leap q r then 29 else 28)
      else if m = 1 \<or> m = 3 \<or> m = 6 \<or> m = 8 then 30 else 31)"

definition march_valid :: "int \<Rightarrow> int \<Rightarrow> int \<Rightarrow> int \<Rightarrow> bool" where
  "march_valid q r m day \<longleftrightarrow>
     0 \<le> q \<and> 0 \<le> r \<and> r \<le> 99 \<and> 0 \<le> m \<and> m \<le> 11 \<and> 1 \<le> day \<and> day \<le> march_len q r m"

lemma month_cases:
  "0 \<le> m \<Longrightarrow> m \<le> 11 \<Longrightarrow> m \<in> {0, 1, 2, 3, 4, 5, 6, 7, 8, 9, 10, 11 :: int}"
proof -
  assume "0 \<le> m" "m \<le> 11"
  then have "m \<in> set [0..11]" by (simp only: set_upto atLeastAtMost_iff)
  moreover have "[0..11] = [0, 1, 2, 3, 4, 5, 6, 7, 8, 9, 10, 11 :: int]"
    by code_simp
  ultimately show ?thesis by (simp only: list.set)
qed

lemma leap_year_march:
  assumes "0 \<le> r" "r \<le> 99"
  shows "leap_year (100 * q + r - 4800 + 1) \<longleftrightarrow> march_leap q r"
proof (cases "r = 99")
  case True
  have eq: "100 * q + r - 4800 + 1 = 100 * (q - 47)" using True by simp
  have "100 * (q - 47) mod 400 = 100 * ((q - 47) mod 4)"
    using mult_mod_right [of 100 "q - 47" 4] by simp
  moreover have "100 * (q - 47) mod 4 = 0" by presburger
  moreover have "(q - 47) mod 4 = 0 \<longleftrightarrow> q mod 4 = 3" by presburger
  ultimately show ?thesis unfolding leap_year_def march_leap_def eq using True by simp
next
  case False
  have eq: "100 * q + r - 4800 + 1 = (r + 1) + 100 * (q - 48)" by simp
  have "((r + 1) + 100 * (q - 48)) mod 100 = r + 1"
    using False assms by (simp only: mod_mult_self2) simp
  moreover have "((r + 1) + 4 * (25 * (q - 48))) mod 4 = (r + 1) mod 4" by (rule mod_mult_self2)
  moreover have "(r + 1) mod 4 = 0 \<longleftrightarrow> r mod 4 = 3" by presburger
  ultimately show ?thesis unfolding leap_year_def march_leap_def eq using False assms by simp
qed

text \<open>The day of a March year determines month and day, and has 366 values in a leap year.\<close>

lemma march_day_of_year:
  assumes "march_valid q r m day"
  defines "e \<equiv> (153 * m + 2) div 5 + day - 1"
  shows "(5 * e + 2) div 153 = m" and "0 \<le> e" and "e \<le> 364 \<or> e = 365 \<and> march_leap q r"
proof -
  have "m \<in> {0, 1, 2, 3, 4, 5, 6, 7, 8, 9, 10, 11}"
    using assms(1) by (intro month_cases) (auto simp: march_valid_def)
  then have "(5 * e + 2) div 153 = m \<and> 0 \<le> e \<and> (e \<le> 364 \<or> e = 365 \<and> march_leap q r)"
    using assms(1)
    by (elim insertE emptyE)
      (auto simp: e_def march_valid_def march_len_def intro!: div_eqI split: if_splits)
  then show "(5 * e + 2) div 153 = m" "0 \<le> e" "e \<le> 364 \<or> e = 365 \<and> march_leap q r" by auto
qed

lemma march_month_of_day:
  assumes "0 \<le> e" and "e \<le> 364 \<or> e = 365 \<and> march_leap q r" and "0 \<le> q" "0 \<le> r" "r \<le> 99"
  defines "m \<equiv> (5 * e + 2) div 153"
  shows "march_valid q r m (e - (153 * m + 2) div 5 + 1)"
proof -
  have e: "0 \<le> e" "e \<le> 365" using assms(1,2) by auto
  have m: "0 \<le> m" "m \<le> 11" using div_bounds [of "5 * e + 2" 1827 153] e by (auto simp: m_def)
  have b: "153 * m \<le> 5 * e + 2" "5 * e + 2 < 153 * m + 153"
    using pos_mod_sign [of 153 "5 * e + 2"] pos_mod_bound [of 153 "5 * e + 2"]
      mult_div_mod_eq [of 153 "5 * e + 2"] unfolding m_def by linarith+
  from month_cases [OF m] show ?thesis
    using assms(2-5) e b
    by (elim insertE emptyE) (auto simp: march_valid_def march_len_def)
qed

text \<open>
  The arithmetic of \<open>getYearMonthDay\<close> on a day count \<open>a\<close>: century, year of the
  century, day of the year.
\<close>

lemma year_split:
  assumes "0 \<le> q" "0 \<le> r" "r \<le> 99" "0 \<le> e" and "e \<le> 364 \<or> e = 365 \<and> march_leap q r"
  defines "a \<equiv> (146097 * q) div 4 + (1461 * r) div 4 + e"
  shows "(4 * a + 3) div 146097 = q"
    and "(4 * (a - (146097 * q) div 4) + 3) div 1461 = r"
proof -
  define f g where "f = r div 4" and "g = r mod 4"
  define u v where "u = q div 4" and "v = q mod 4"
  have r: "r = 4 * f + g" "0 \<le> g" "g \<le> 3" and q: "q = 4 * u + v" "0 \<le> v" "v \<le> 3"
    using pos_mod_sign [of 4 r] pos_mod_bound [of 4 r] mult_div_mod_eq [of 4 r]
      pos_mod_sign [of 4 q] pos_mod_bound [of 4 q] mult_div_mod_eq [of 4 q]
    unfolding f_def g_def u_def v_def by linarith+
  have a: "a = 36524 * q + u + 365 * r + f + e"
    by (simp add: a_def century_days year_days f_def u_def)
  have e: "e \<le> 365" and e': "e = 365 \<Longrightarrow> g = 3" "e = 365 \<Longrightarrow> r = 99 \<Longrightarrow> v = 3"
    using assms(5) by (auto simp: march_leap_def g_def v_def)
  show "(4 * a + 3) div 146097 = q"
  proof (rule div_eqI)
    have "0 \<le> f" using assms(2) by (simp add: f_def)
    then show "146097 * q \<le> 4 * a + 3" using a q r assms(2,4) by linarith
    have "f \<le> 24" using div_bounds [of r 99 4] assms(2,3) by (simp add: f_def)
    have "4 * (365 * r + f + e) + 3 < 146097 + v"
      using assms(5)
    proof
      assume "e \<le> 364"
      with \<open>f \<le> 24\<close> q assms(3) show ?thesis by simp
    next
      assume "e = 365 \<and> march_leap q r"
      with e' r q assms(3) show ?thesis by (cases "r = 99") auto
    qed
    then show "4 * a + 3 < 146097 * q + 146097" using a q by simp
  qed simp
  have "a - (146097 * q) div 4 = 365 * r + f + e" using a by (simp add: century_days u_def)
  then show "(4 * (a - (146097 * q) div 4) + 3) div 1461 = r"
    using r e e' assms(4) by (cases "e = 365") (auto intro!: div_eqI)
qed

lemma year_join:
  assumes "0 \<le> a"
  defines "b \<equiv> (4 * a + 3) div 146097"
  defines "c \<equiv> a - (146097 * b) div 4"
  defines "d \<equiv> (4 * c + 3) div 1461"
  defines "e \<equiv> c - (1461 * d) div 4"
  shows "0 \<le> b" "0 \<le> c" "c \<le> 36524" "0 \<le> d" "d \<le> 99" "0 \<le> e"
    and "e \<le> 364 \<or> e = 365 \<and> march_leap b d"
proof -
  define g where "g = d mod 4"
  define v where "v = b mod 4"
  have v: "0 \<le> v" "v < 4" "(146097 * b) div 4 * 4 = 146097 * b - v"
    by (simp_all add: v_def century_days4)
  have g: "0 \<le> g" "g < 4" "(1461 * d) div 4 * 4 = 1461 * d - g"
    by (simp_all add: g_def year_days4)
  have b: "146097 * b \<le> 4 * a + 3" "4 * a + 3 < 146097 * b + 146097"
    using pos_mod_sign [of 146097 "4 * a + 3"] pos_mod_bound [of 146097 "4 * a + 3"]
      mult_div_mod_eq [of 146097 "4 * a + 3"] unfolding b_def by linarith+
  show "0 \<le> b" using assms(1) by (simp add: b_def)
  have c4: "4 * c = 4 * a - 146097 * b + v" using v by (simp add: c_def)
  then show "0 \<le> c" using b v by linarith
  have c: "4 * c + 3 < 146097 + v" using c4 b by linarith
  then show "c \<le> 36524" using v by linarith
  have d: "1461 * d \<le> 4 * c + 3" "4 * c + 3 < 1461 * d + 1461"
    using pos_mod_sign [of 1461 "4 * c + 3"] pos_mod_bound [of 1461 "4 * c + 3"]
      mult_div_mod_eq [of 1461 "4 * c + 3"] unfolding d_def by linarith+
  show "0 \<le> d" using \<open>0 \<le> c\<close> by (simp add: d_def)
  show d99: "d \<le> 99" using d c v by linarith
  have e4: "4 * e = 4 * c - 1461 * d + g" using g by (simp add: e_def)
  then show "0 \<le> e" using d g by linarith
  have e: "4 * e + 3 < 1461 + g" using e4 d by linarith
  have "g = 3" if "e = 365" using that e g by linarith
  moreover have "v = 3" if "e = 365" "d = 99" using that c e4 g v by linarith
  moreover have "e \<le> 365" using e g by linarith
  ultimately show "e \<le> 364 \<or> e = 365 \<and> march_leap b d"
    by (auto simp: march_leap_def g_def v_def)
qed

lemma ymd_no_wrap:
  assumes j: "jdn_range j"
  defines "a \<equiv> j + 32044"
  defines "b \<equiv> (4 * a + 3) div 146097"
  defines "c \<equiv> a - (146097 * b) div 4"
  defines "d \<equiv> (4 * c + 3) div 1461"
  defines "e \<equiv> c - (1461 * d) div 4"
  defines "m \<equiv> (5 * e + 2) div 153"
  shows "getYearMonthDay j =
    \<lparr>ymd_year = b * 100 + d - 4800 + m div 10, ymd_month = m + 3 - 12 * (m div 10),
     ymd_day = e - (153 * m + 2) div 5 + 1\<rparr>"
proof -
  have a: "0 \<le> a" "a \<le> 536870911" using j by (auto simp: a_def jdn_range_def)
  note cde = year_join [OF a(1), folded b_def, folded c_def, folded d_def, folded e_def]
  have b: "b \<le> 14699" "146097 * b \<le> 4 * a + 3"
    using div_bounds [of "4 * a + 3" 2147483647 146097] a
      pos_mod_sign [of 146097 "4 * a + 3"] mult_div_mod_eq [of 146097 "4 * a + 3"]
    unfolding b_def by linarith+
  have e: "e \<le> 365" using cde by auto
  have m: "0 \<le> m" "m \<le> 11" using div_bounds [of "5 * e + 2" 1827 153] cde(6) e by (auto simp: m_def)
  have bq: "0 \<le> (b * 146097) div 4" "(b * 146097) div 4 \<le> 536870911"
    using div_bounds [of "b * 146097" 2147483647 4] cde(1) b by auto
  have dq: "0 \<le> (1461 * d) div 4" "(1461 * d) div 4 \<le> 36159"
    using div_bounds [of "1461 * d" 144639 4] cde(4,5) by auto
  have mq: "0 \<le> m div 10" "m div 10 \<le> 1" "0 \<le> (153 * m + 2) div 5" "(153 * m + 2) div 5 \<le> 337"
    using div_bounds [of m 11 10] div_bounds [of "153 * m + 2" 1685 5] m by auto
  have s1: "add32 j 32044 = a" using j by (simp add: add32_def a_def jdn_range_def)
  have s2: "div32 (add32 (mul32 4 a) 3) 146097 = b"
    using a by (simp add: add32_def mul32_def div32_nonneg b_def)
  have s3: "sub32 a (div32 (mul32 b 146097) 4) = c"
    using a b bq cde(1-3) by (simp add: sub32_def mul32_def div32_nonneg c_def mult.commute)
  have s4: "div32 (add32 (mul32 4 c) 3) 1461 = d"
    using cde(2,3) by (simp add: add32_def mul32_def div32_nonneg d_def)
  have s5: "sub32 c (div32 (mul32 1461 d) 4) = e"
    using cde(2-5) dq by (simp add: sub32_def mul32_def div32_nonneg e_def)
  have s6: "div32 (add32 (mul32 5 e) 2) 153 = m"
    using cde(6) e by (simp add: add32_def mul32_def div32_nonneg m_def)
  have s7: "div32 m 10 = m div 10" "div32 (add32 (mul32 153 m) 2) 5 = (153 * m + 2) div 5"
    using m by (simp_all add: add32_def mul32_def div32_nonneg)
  show ?thesis
    unfolding getYearMonthDay_def Let_def s1 s2 s3 s4 s5 s6 s7
    using cde b(1) m e mq by (simp add: add32_def sub32_def mul32_def)
qed

text \<open>A valid date is a valid date of its March year, and the other way round.\<close>

lemma march_of_date:
  assumes "valid_ymd \<lparr>ymd_year = y, ymd_month = mon, ymd_day = day\<rparr>" and "- 4799 \<le> y"
  defines "z \<equiv> y + 4800 - march_a mon"
  shows "march_valid (z div 100) (z mod 100) (mon + 12 * march_a mon - 3) day"
proof -
  have z: "0 \<le> z" using assms(2) by (auto simp: z_def march_a_def)
  have "leap_year (z - 4800 + 1) \<longleftrightarrow> march_leap (z div 100) (z mod 100)"
    using leap_year_march [of "z mod 100" "z div 100"] mult_div_mod_eq [of 100 z] by simp
  then show ?thesis
    using assms(1) z
    by (auto simp: valid_ymd_def days_in_month_def march_valid_def march_len_def march_a_def z_def
        pos_imp_zdiv_nonneg_iff split: if_splits)
qed

lemma date_of_march:
  assumes "march_valid q r m day"
  shows "valid_ymd \<lparr>ymd_year = q * 100 + r - 4800 + m div 10, ymd_month = m + 3 - 12 * (m div 10),
      ymd_day = day\<rparr>"
    and "march_a (m + 3 - 12 * (m div 10)) = m div 10"
proof -
  have m: "m div 10 = (if m \<le> 9 then 0 else 1)"
    using assms by (auto simp: march_valid_def intro!: div_eqI)
  have "leap_year (q * 100 + r - 4800 + 1) \<longleftrightarrow> march_leap q r"
    using leap_year_march [of r q] assms by (simp add: march_valid_def mult.commute)
  then show "valid_ymd \<lparr>ymd_year = q * 100 + r - 4800 + m div 10,
      ymd_month = m + 3 - 12 * (m div 10), ymd_day = day\<rparr>"
    using assms unfolding m
    by (auto simp: valid_ymd_def days_in_month_def march_valid_def march_len_def)
  show "march_a (m + 3 - 12 * (m div 10)) = m div 10"
    using assms unfolding m by (auto simp: march_a_def march_valid_def)
qed

section \<open>The conversions are inverse\<close>

lemma march_valid_bounds:
  assumes "march_valid q r m day" and "q \<le> 14048"
  shows "0 \<le> march_days q r m + day - 1" and "march_days q r m + day - 1 \<le> 513200000"
proof -
  have "0 \<le> (146097 * q) div 4" "(146097 * q) div 4 \<le> 513092664"
    using assms div_bounds [of "146097 * q" 2052370656 4] by (auto simp: march_valid_def)
  moreover have "0 \<le> (1461 * r) div 4" "(1461 * r) div 4 \<le> 36159"
    using assms div_bounds [of "1461 * r" 144639 4] by (auto simp: march_valid_def)
  moreover have "0 \<le> (153 * m + 2) div 5" "(153 * m + 2) div 5 \<le> 337"
    using assms div_bounds [of "153 * m + 2" 1685 5] by (auto simp: march_valid_def)
  moreover have "1 \<le> day" "day \<le> 31"
    using assms by (auto simp: march_valid_def march_len_def split: if_splits)
  ultimately show "0 \<le> march_days q r m + day - 1" "march_days q r m + day - 1 \<le> 513200000"
    unfolding march_days_def by linarith+
qed

lemma ymd_of_march:
  assumes v: "march_valid q r m day" and q: "q \<le> 14048"
  shows "getYearMonthDay (day - 1 + march_days q r m - 32044) =
    \<lparr>ymd_year = q * 100 + r - 4800 + m div 10, ymd_month = m + 3 - 12 * (m div 10), ymd_day = day\<rparr>"
proof -
  define e where "e = (153 * m + 2) div 5 + day - 1"
  define a where "a = (146097 * q) div 4 + (1461 * r) div 4 + e"
  note e = march_day_of_year [OF v, folded e_def]
  have qr: "0 \<le> q" "0 \<le> r" "r \<le> 99" using v by (auto simp: march_valid_def)
  note split = year_split [OF qr e(2,3), folded a_def]
  have j: "day - 1 + march_days q r m - 32044 = a - 32044"
    by (simp add: a_def e_def march_days_def)
  have a: "a = march_days q r m + day - 1" by (simp add: a_def e_def march_days_def)
  have "0 \<le> a" "a \<le> 513200000" unfolding a by (fact march_valid_bounds [OF v q])+
  then have "jdn_range (a - 32044)" by (simp add: jdn_range_def)
  note ymd = ymd_no_wrap [OF this]
  have cancel: "x - 32044 + 32044 = x" "x + y + z - x - y = z" "x + y - 1 - x + 1 = y" for x y z :: int
    by simp_all
  have s: "a - (146097 * q) div 4 - (1461 * r) div 4 = e" unfolding a_def by (rule cancel)
  show ?thesis
    using ymd unfolding j cancel split s e(1) unfolding e_def cancel .
qed

lemma ymd_jdn:
  assumes v: "valid_ymd \<lparr>ymd_year = y, ymd_month = mon, ymd_day = day\<rparr>" and y: "year_range y"
  shows "getYearMonthDay (getJulianDayNumber y mon day) =
    \<lparr>ymd_year = y, ymd_month = mon, ymd_day = day\<rparr>"
    and "jdn_range (getJulianDayNumber y mon day)"
proof -
  define z where "z = y + 4800 - march_a mon"
  define m where "m = mon + 12 * march_a mon - 3"
  have mon: "1 \<le> mon" "mon \<le> 12" "1 \<le> day" "day \<le> 31"
    using v by (auto simp: valid_ymd_def days_in_month_def split: if_splits)
  have mv: "march_valid (z div 100) (z mod 100) m day"
    using march_of_date [OF v] y by (simp add: z_def m_def year_range_def)
  have q: "z div 100 \<le> 14048"
    using div_bounds [of z 1404800 100] y by (auto simp: z_def year_range_def march_a_def)
  have jdn: "getJulianDayNumber y mon day =
      day - 1 + march_days (z div 100) (z mod 100) m - 32044"
    using jdn_plain [OF y mon] by (simp add: Let_def z_def m_def)
  have m10: "m div 10 = march_a mon"
    using mon by (auto simp: m_def march_a_def intro!: div_eqI)
  show "getYearMonthDay (getJulianDayNumber y mon day) =
      \<lparr>ymd_year = y, ymd_month = mon, ymd_day = day\<rparr>"
    unfolding jdn ymd_of_march [OF mv q] m10 using mult_div_mod_eq [of 100 z]
    by (simp add: z_def m_def)
  show "jdn_range (getJulianDayNumber y mon day)"
    using march_valid_bounds [OF mv q] unfolding jdn jdn_range_def by simp
qed

lemma jdn_ymd:
  assumes j: "- 31738 \<le> j" "j \<le> 510000000"
  shows "valid_ymd (getYearMonthDay j)" and "year_range (ymd_year (getYearMonthDay j))"
    and "getJulianDayNumber (ymd_year (getYearMonthDay j)) (ymd_month (getYearMonthDay j))
           (ymd_day (getYearMonthDay j)) = j"
    and "ymd_year (getYearMonthDay j) < 1400000"
proof -
  define a where "a = j + 32044"
  define b where "b = (4 * a + 3) div 146097"
  define c where "c = a - (146097 * b) div 4"
  define d where "d = (4 * c + 3) div 1461"
  define e where "e = c - (1461 * d) div 4"
  define m where "m = (5 * e + 2) div 153"
  define day where "day = e - (153 * m + 2) div 5 + 1"
  have a: "0 \<le> a" using j by (simp add: a_def)
  note cde = year_join [OF a, folded b_def, folded c_def, folded d_def, folded e_def]
  have mv: "march_valid b d m day"
    using march_month_of_day [OF cde(6,7,1,4,5)] by (simp add: m_def day_def)
  note date = date_of_march [OF mv]
  have ymd: "getYearMonthDay j =
    \<lparr>ymd_year = b * 100 + d - 4800 + m div 10, ymd_month = m + 3 - 12 * (m div 10), ymd_day = day\<rparr>"
    using ymd_no_wrap [of j] j
    unfolding jdn_range_def a_def [symmetric] b_def [symmetric] c_def [symmetric]
      d_def [symmetric] e_def [symmetric] m_def [symmetric] day_def [symmetric] by simp
  have b: "b \<le> 13964"
    using div_bounds [of "4 * a + 3" 2040128179 146097] a j by (simp add: a_def b_def)
  have m: "0 \<le> m div 10" "m div 10 \<le> 1"
    using div_bounds [of m 11 10] mv by (auto simp: march_valid_def)
  let ?y = "b * 100 + d - 4800 + m div 10"
  show "valid_ymd (getYearMonthDay j)" unfolding ymd by (rule date(1))
  have nz: "- 4799 \<le> ?y"
  proof (cases "b = 0 \<and> d = 0 \<and> m div 10 = 0")
    case False
    then show ?thesis using cde(1,4) m by auto
  next
    case True
    then have "306 \<le> e" using j by (simp add: e_def c_def a_def)
    then have "m div 10 \<noteq> 0"
      using zdiv_mono1 [of 1530 "5 * e + 2" 153] zdiv_mono1 [of 10 m 10] by (simp add: m_def)
    with True show ?thesis by simp
  qed
  show y: "year_range (ymd_year (getYearMonthDay j))"
    unfolding ymd year_range_def using b cde(1,4,5) m nz by simp
  show "ymd_year (getYearMonthDay j) < 1400000"
    unfolding ymd using b cde(5) m by simp
  have mon: "1 \<le> m + 3 - 12 * (m div 10)" "m + 3 - 12 * (m div 10) \<le> 12" "1 \<le> day" "day \<le> 31"
    using date(1) by (auto simp: valid_ymd_def days_in_month_def split: if_splits)
  have z: "?y + 4800 - m div 10 = d + b * 100" by simp
  have "getJulianDayNumber ?y (m + 3 - 12 * (m div 10)) day =
      day - 1 + march_days b d m - 32044"
    using jdn_plain [OF _ mon, of ?y] y cde(4,5) unfolding ymd Let_def date(2) z by simp
  then show "getJulianDayNumber (ymd_year (getYearMonthDay j)) (ymd_month (getYearMonthDay j))
           (ymd_day (getYearMonthDay j)) = j"
    unfolding ymd by (simp add: march_days_def day_def) (simp add: e_def c_def a_def)
qed

section \<open>Day numbers count the days of the calendar\<close>

lemma leap_count:
  "(c400 \<Longrightarrow> c100) \<Longrightarrow> (c100 \<Longrightarrow> c4) \<Longrightarrow>
     (z + 1) * 365 + (p + (if c4 then 1 else 0)) - (q + (if c100 then 1 else 0)) +
       (s + (if c400 then 1 else 0)) =
     z * 365 + p - q + s + (if c4 \<and> (\<not> c100 \<or> c400) then 366 else (365::int))"
  by (cases c4; cases c100; cases c400) simp_all

lemma days_of_years_step:
  "march_days ((z + 1) div 100) ((z + 1) mod 100) 0 =
     march_days (z div 100) (z mod 100) 0 + (if leap_year (z + 1 - 4800) then 366 else 365)"
proof -
  have md: "march_days (x div 100) (x mod 100) 0 = x * 365 + x div 4 - x div 100 + x div 400" for x
  proof -
    have p0: "(153 * 0 + 2) div 5 = (0::int)" by simp
    show ?thesis by (simp only: march_days_def years_days p0 add_0_right)
  qed
  have leap: "leap_year (z + 1 - 4800) \<longleftrightarrow>
      (z + 1) mod 4 = 0 \<and> ((z + 1) mod 100 \<noteq> 0 \<or> (z + 1) mod 400 = 0)"
  proof -
    have eq: "z + 1 - 4800 = z + 1 + 4 * (- 1200)" "z + 1 - 4800 = z + 1 + 100 * (- 48)"
      "z + 1 - 4800 = z + 1 + 400 * (- 12)" by simp_all
    have "(z + 1 - 4800) mod 4 = (z + 1) mod 4" unfolding eq(1) by (rule mod_mult_self2)
    moreover have "(z + 1 - 4800) mod 100 = (z + 1) mod 100" unfolding eq(2) by (rule mod_mult_self2)
    moreover have "(z + 1 - 4800) mod 400 = (z + 1) mod 400" unfolding eq(3) by (rule mod_mult_self2)
    ultimately show ?thesis by (simp only: leap_year_def)
  qed
  have "(z + 1) mod 400 = 0 \<Longrightarrow> (z + 1) mod 100 = 0"
    using dvd_trans [of 100 400 "z + 1"] by (simp add: mod_eq_0_iff_dvd)
  moreover have "(z + 1) mod 100 = 0 \<Longrightarrow> (z + 1) mod 4 = 0"
    using dvd_trans [of 4 100 "z + 1"] by (simp add: mod_eq_0_iff_dvd)
  moreover have "march_days ((z + 1) div 100) ((z + 1) mod 100) 0 =
      (z + 1) * 365 + (z div 4 + (if (z + 1) mod 4 = 0 then 1 else 0)) -
      (z div 100 + (if (z + 1) mod 100 = 0 then 1 else 0)) +
      (z div 400 + (if (z + 1) mod 400 = 0 then 1 else 0))"
    unfolding md by (simp only: div_add_one zero_less_numeral)
  ultimately show ?thesis unfolding md [of z] leap by (simp only: leap_count)
qed

lemma march_days_split: "march_days q r m = march_days q r 0 + (153 * m + 2) div 5"
  by (simp add: march_days_def)

lemma month_step:
  assumes "0 \<le> m" "m \<le> 10"
  shows "(153 * (m + 1) + 2) div 5 = (153 * m + 2) div 5 + march_len q r m"
proof -
  have "m \<in> {0, 1, 2, 3, 4, 5, 6, 7, 8, 9, 10, 11}" using month_cases [of m] assms by simp
  then show ?thesis using assms by (elim insertE emptyE) (simp_all add: march_len_def)
qed

text \<open>A date as its day count since the first of March of 4801 BC.\<close>

definition day_count :: "YearMonthDay \<Rightarrow> int" where
  "day_count t =
     (let z = ymd_year t + 4800 - march_a (ymd_month t)
      in march_days (z div 100) (z mod 100) (ymd_month t + 12 * march_a (ymd_month t) - 3) +
         ymd_day t - 1)"

lemma day_count_next_month:
  assumes "1 \<le> mon" "mon \<le> 11" and "- 4799 \<le> y"
  shows "day_count \<lparr>ymd_year = y, ymd_month = mon + 1, ymd_day = 1\<rparr> =
     day_count \<lparr>ymd_year = y, ymd_month = mon, ymd_day = days_in_month y mon\<rparr> + 1"
proof (cases "mon = 2")
  case True
  obtain z where y: "y = z - 4799" by (rule that [of "y + 4799"]) simp
  from days_of_years_step [of z] march_days_split [of "z div 100" "z mod 100" 11] show ?thesis
    by (simp add: day_count_def Let_def True march_a_def days_in_month_def y add.commute [of 1])
next
  case False
  define m where "m = mon + 12 * march_a mon - 3"
  define z where "z = y + 4800 - march_a mon"
  have m: "0 \<le> m" "m \<le> 10" using assms False by (auto simp: m_def march_a_def)
  have a: "march_a (mon + 1) = march_a mon" "march_a (1 + mon) = march_a mon"
    using False by (auto simp: march_a_def)
  have len: "march_len (z div 100) (z mod 100) m = days_in_month y mon"
    using assms False by (auto simp: march_len_def days_in_month_def m_def march_a_def)
  have "march_days (z div 100) (z mod 100) (m + 1) =
      march_days (z div 100) (z mod 100) m + days_in_month y mon"
    using month_step [OF m, of "z div 100" "z mod 100"] unfolding len
    by (simp only: march_days_def)
  then show ?thesis by (simp add: day_count_def Let_def a m_def z_def algebra_simps)
qed

lemma day_count_next:
  assumes "valid_ymd t" and "- 4799 \<le> ymd_year t"
  shows "day_count (next_day t) = day_count t + 1"
proof -
  obtain y mon day where t: "t = \<lparr>ymd_year = y, ymd_month = mon, ymd_day = day\<rparr>"
    by (cases t) auto
  have v: "1 \<le> mon" "mon \<le> 12" "day \<le> days_in_month y mon" and y: "- 4799 \<le> y"
    using assms by (simp_all add: t valid_ymd_def)
  consider "day < days_in_month y mon" | "day = days_in_month y mon" "mon \<le> 11"
    | "day = 31" "mon = 12" "\<not> day < days_in_month y mon"
  proof -
    have "days_in_month y 12 = 31" by (simp add: days_in_month_def)
    with v that show thesis by (cases "day < days_in_month y mon"; cases "mon = 12") auto
  qed
  then show ?thesis
  proof cases
    case 1
    then show ?thesis by (simp add: t next_day_def day_count_def Let_def)
  next
    case 2
    then show ?thesis using day_count_next_month [OF v(1) 2(2) y] by (simp add: t next_day_def)
  next
    case 3
    obtain z where y: "y = z - 4800" by (rule that [of "y + 4800"]) simp
    have "march_days (z div 100) (z mod 100) 10 = march_days (z div 100) (z mod 100) 9 + 31"
      using march_days_split [of "z div 100" "z mod 100" 10]
        march_days_split [of "z div 100" "z mod 100" 9] by simp
    with 3 show ?thesis by (simp add: t next_day_def day_count_def Let_def march_a_def y)
  qed
qed

lemma jdn_day_count:
  assumes "valid_ymd t" and "year_range (ymd_year t)"
  shows "getJulianDayNumber (ymd_year t) (ymd_month t) (ymd_day t) = day_count t - 32044"
proof -
  have "ymd_day t \<le> 31" using assms(1) by (auto simp: valid_ymd_def days_in_month_def split: if_splits)
  then show ?thesis
    using assms by (simp add: jdn_plain valid_ymd_def day_count_def Let_def)
qed

lemma next_day_valid:
  "valid_ymd t \<Longrightarrow> valid_ymd (next_day t) \<and> ymd_year t \<le> ymd_year (next_day t) \<and>
     ymd_year (next_day t) \<le> ymd_year t + 1"
  by (auto simp: valid_ymd_def next_day_def days_in_month_def)

lemma ymd_of_date:
  assumes "valid_ymd t" and "year_range (ymd_year t)"
  shows "yearMonthDay (Date_ymd (ymd_year t) (ymd_month t) (ymd_day t)) = t"
  using ymd_jdn(1) [of "ymd_year t" "ymd_month t" "ymd_day t"] assms
  by (cases t) (simp add: yearMonthDay_def Date_ymd_def)

section \<open>Properties\<close>



text \<open>
  Every day number from -31738 (the first day of the year -4799) to 510000000 is the number
  of a date: its components form a valid calendar date, and the date made from them has the
  same day number.
\<close>
theorem julian_roundtrip:
  assumes "- 31738 \<le> j" and "j \<le> 510000000"
  shows "valid_ymd (yearMonthDay (Date_julian j)) \<and>
    Date_ymd (Date_year (Date_julian j)) (Date_month (Date_julian j)) (Date_day (Date_julian j)) =
      Date_julian j"
  using jdn_ymd [OF assms]
  by (simp add: yearMonthDay_def Date_julian_def Date_ymd_def Date_year_def Date_month_def
      Date_day_def)

theorem julian_roundtrip_witness:
  "valid_ymd (yearMonthDay (Date_julian 2440588)) \<and>
    Date_ymd (Date_year (Date_julian 2440588)) (Date_month (Date_julian 2440588))
      (Date_day (Date_julian 2440588)) = Date_julian 2440588"
  by (rule julian_roundtrip) simp_all

text \<open>
  C30. Day numbers count days: the calendar's successor of a date (next day of the month, first
  of the next month, first of January) has the next day number, and its day of the week is the
  next one modulo seven.
\<close>
theorem next_day_counts:
  assumes "valid_ymd t" and "year_range (ymd_year t)" and "ymd_year t < 1400000"
  defines "d \<equiv> Date_ymd (ymd_year t) (ymd_month t) (ymd_day t)"
    and "d' \<equiv> Date_ymd (ymd_year (next_day t)) (ymd_month (next_day t)) (ymd_day (next_day t))"
  shows "julianDayNumber d' = julianDayNumber d + 1 \<and> Date_less d d' \<and>
    (0 \<le> julianDayNumber d \<longrightarrow> weekDay d' = (weekDay d + 1) mod 7)"
proof -
  have y': "year_range (ymd_year (next_day t))"
    using assms(2,3) next_day_valid [OF assms(1)] by (simp add: year_range_def)
  have j: "julianDayNumber d' = julianDayNumber d + 1"
    using jdn_day_count [OF assms(1,2)] jdn_day_count [of "next_day t"] day_count_next [OF assms(1)]
      next_day_valid [OF assms(1)] y' assms(2)
    by (simp add: d_def d'_def Date_ymd_def year_range_def)
  have "jdn_range (julianDayNumber d)"
    using ymd_jdn(2) [of "ymd_year t" "ymd_month t" "ymd_day t"] assms(1,2)
    by (cases t) (simp add: d_def Date_ymd_def)
  moreover have "(x + 1 + 1) mod 7 = ((x + 1) mod 7 + 1) mod (7::int)" for x
    by (simp add: mod_simps)
  moreover have "0 \<le> x mod 7 \<and> x mod 7 \<le> 6" for x :: int
    using pos_mod_bound [of 7 x] by simp
  ultimately show ?thesis
    using j by (simp add: weekDay_def Date_less_def mod32_def add32_def jdn_range_def)
qed

theorem next_day_counts_witness:
  "julianDayNumber (Date_ymd 2001 1 1) = julianDayNumber (Date_ymd 2000 12 31) + 1"
  using next_day_counts [of "\<lparr>ymd_year = 2000, ymd_month = 12, ymd_day = 31\<rparr>"]
  by (simp add: valid_ymd_def days_in_month_def year_range_def next_day_def)

text \<open>
  The Unix epoch: 1 January 1970 has day number 2440588, the value of
  \<open>kJulianDayOf1970_01_01\<close>, and was a Thursday.
\<close>
theorem epoch_day:
  "kJulianDayOf1970_01_01 = 2440588 \<and> weekDay (Date_ymd 1970 1 1) = 4"
proof -
  have "getJulianDayNumber 1970 1 1 = 2440588"
    by (subst jdn_plain) (simp_all add: year_range_def march_a_def march_days_def Let_def)
  then show ?thesis
    by (simp add: kJulianDayOf1970_01_01_def weekDay_def Date_ymd_def mod32_def add32_def)
qed

text \<open>
  The ISO text of a date of the years 1000 to 9999 has ten characters, with dashes after
  the year and the month, and the three fields read back as the date.
\<close>
theorem iso_string_roundtrip:
  assumes "valid_ymd t" and "1000 \<le> ymd_year t" and "ymd_year t \<le> 9999"
  defines "s \<equiv> toIsoString (Date_ymd (ymd_year t) (ymd_month t) (ymd_day t))"
  shows "length s = 10 \<and> s ! 4 = CHR ''-'' \<and> s ! 7 = CHR ''-'' \<and>
    int (nat_of_dec (take 4 s)) = ymd_year t \<and>
    int (nat_of_dec (take 2 (drop 5 s))) = ymd_month t \<and>
    int (nat_of_dec (drop 8 s)) = ymd_day t"
proof -
  have t: "yearMonthDay (Date_ymd (ymd_year t) (ymd_month t) (ymd_day t)) = t"
    using assms by (intro ymd_of_date) (simp_all add: year_range_def)
  have y: "length (fmt_d 4 (ymd_year t)) = 4" "nat_of_dec (fmt_d 4 (ymd_year t)) = nat (ymd_year t)"
    using assms length_dec_nat [of 3 "nat (ymd_year t)"]
    by (simp_all add: fmt_d_def dec_int_def)
  have bounds: "0 \<le> ymd_month t" "ymd_month t < 100" "0 \<le> ymd_day t" "ymd_day t < 100"
    using assms(1) by (auto simp: valid_ymd_def days_in_month_def split: if_splits)
  note mon = fmt_0d_2 [OF bounds(1,2)] and day = fmt_0d_2 [OF bounds(3,4)]
  have s: "s = fmt_d 4 (ymd_year t) @ ''-'' @ fmt_0d 2 (ymd_month t) @ ''-'' @ fmt_0d 2 (ymd_day t)"
    using y mon day by (simp add: s_def toIsoString_def t snprintf_to_def)
  show ?thesis
    unfolding s using y mon day bounds assms(2) by (simp add: nth_append)
qed

theorem iso_string_roundtrip_witness:
  "length (toIsoString (Date_ymd 2024 2 29)) = 10"
  using iso_string_roundtrip [of "\<lparr>ymd_year = 2024, ymd_month = 2, ymd_day = 29\<rparr>"]
  by (simp add: valid_ymd_def days_in_month_def leap_year_def)

end
