(* ===== verification/LibcTime.thy ===== *)
theory LibcTime
  imports Date
begin

text \<open>
  The two calendar functions of the C library that the sources call, as POSIX describes them:
  \<open>gmtime_r\<close> breaks a count of seconds down by counting days of the calendar from
  1 January 1970, one day at a time and in either direction; \<open>timegm\<close> is the POSIX
  formula for the seconds since the epoch. Neither uses the formulas of \<open>Date\<close>; the
  lemmas here connect the two.
\<close>

definition prev_day :: "YearMonthDay \<Rightarrow> YearMonthDay" where
  "prev_day t =
     (if 1 < ymd_day t then t\<lparr>ymd_day := ymd_day t - 1\<rparr>
      else if 1 < ymd_month t
      then t\<lparr>ymd_month := ymd_month t - 1, ymd_day := days_in_month (ymd_year t) (ymd_month t - 1)\<rparr>
      else t\<lparr>ymd_year := ymd_year t - 1, ymd_month := 12, ymd_day := 31\<rparr>)"

definition epoch :: YearMonthDay where
  "epoch = \<lparr>ymd_year = 1970, ymd_month = 1, ymd_day = 1\<rparr>"

definition civil :: "int \<Rightarrow> YearMonthDay" where
  "civil n = (if 0 \<le> n then (next_day ^^ nat n) epoch else (prev_day ^^ nat (- n)) epoch)"

definition days_before_month :: "int \<Rightarrow> int \<Rightarrow> int" where
  "days_before_month y m = sum_list (map (days_in_month y) [1..m - 1])"

definition year_day :: "YearMonthDay \<Rightarrow> int" where
  "year_day t = days_before_month (ymd_year t) (ymd_month t) + ymd_day t - 1"

definition gmtime_r :: "int \<Rightarrow> tm" where
  "gmtime_r t =
     (let s = t mod 86400; n = t div 86400; d = civil n
      in \<lparr>tm_sec = s mod 60, tm_min = s div 60 mod 60, tm_hour = s div 3600,
          tm_mday = ymd_day d, tm_mon = ymd_month d - 1, tm_year = ymd_year d - 1900,
          tm_wday = (4 + n) mod 7, tm_yday = year_day d, tm_isdst = 0, tm_gmtoff = 0,
          tm_zone = ''GMT''\<rparr>)"

definition days_since_epoch :: "int \<Rightarrow> int \<Rightarrow> int \<Rightarrow> int" where
  "days_since_epoch y m d =
     365 * (y - 1970) + ((y - 1) div 4 - 492) - ((y - 1) div 100 - 19) + ((y - 1) div 400 - 4) +
       days_before_month y m + d - 1"

definition timegm :: "tm \<Rightarrow> int" where
  "timegm t =
     wrap64 (days_since_epoch (tm_year t + 1900) (tm_mon t + 1) (tm_mday t) * 86400 +
             tm_hour t * 3600 + tm_min t * 60 + tm_sec t)"

section \<open>Counting and the day number formulas agree\<close>

lemma prev_next_day: "valid_ymd t \<Longrightarrow> prev_day (next_day t) = t"
  by (cases t) (auto simp: valid_ymd_def next_day_def prev_day_def days_in_month_def split: if_splits)

lemma ymd_succ:
  assumes "- 31738 \<le> j" "j < 510000000"
  shows "getYearMonthDay (j + 1) = next_day (getYearMonthDay j)"
proof -
  let ?t = "getYearMonthDay j" and ?n = "next_day (getYearMonthDay j)"
  have j: "- 31738 \<le> j" "j \<le> 510000000" and j': "- 31738 \<le> j + 1" "j + 1 \<le> 510000000"
    using assms by simp_all
  note t = jdn_ymd [OF j]
  note n = next_day_valid [OF t(1)]
  have dc: "day_count ?n = j + 1 + 32044"
    using day_count_next [OF t(1)] t(2) jdn_day_count [OF t(1,2)] unfolding t(3) year_range_def
    by simp
  note t' = jdn_ymd [OF j']
  have y: "year_range (ymd_year ?n)" using n t(2,4) by (auto simp: year_range_def)
  have "getJulianDayNumber (ymd_year ?n) (ymd_month ?n) (ymd_day ?n) = j + 1"
    using jdn_day_count [of ?n] n y dc by simp
  moreover have "getYearMonthDay (getJulianDayNumber (ymd_year ?n) (ymd_month ?n) (ymd_day ?n)) = ?n"
    using ymd_of_date [of ?n] n y by (simp add: yearMonthDay_def Date_ymd_def)
  ultimately show ?thesis by simp
qed

lemma civil_ymd:
  assumes "- 2472326 \<le> n" "n \<le> 507559412"
  shows "civil n = getYearMonthDay (2440588 + n)"
proof -
  have e: "epoch = getYearMonthDay 2440588"
  proof -
    have "getJulianDayNumber 1970 1 1 = 2440588"
      by (subst jdn_plain) (simp_all add: year_range_def march_a_def march_days_def Let_def)
    moreover have "getYearMonthDay (getJulianDayNumber 1970 1 1) = epoch"
      unfolding epoch_def by (rule ymd_jdn) (simp_all add: valid_ymd_def days_in_month_def year_range_def)
    ultimately show ?thesis by simp
  qed
  have up: "(next_day ^^ k) epoch = getYearMonthDay (2440588 + int k)" if "k \<le> 507559412" for k
    using that
  proof (induction k)
    case (Suc k)
    then show ?case using ymd_succ [of "2440588 + int k"] by (simp add: algebra_simps)
  qed (simp add: e)
  have down: "(prev_day ^^ k) epoch = getYearMonthDay (2440588 - int k)" if "k \<le> 2472326" for k
    using that
  proof (induction k)
    case (Suc k)
    let ?j = "2440588 - int (Suc k)"
    have "prev_day (getYearMonthDay (?j + 1)) = getYearMonthDay ?j"
      using ymd_succ [of ?j] prev_next_day [OF jdn_ymd(1) [of ?j]] Suc.prems by simp
    with Suc show ?case by simp
  qed (simp add: e)
  show ?thesis using up [of "nat n"] down [of "nat (- n)"] assms by (auto simp: civil_def)
qed

lemma days_before_month_step:
  "1 \<le> m \<Longrightarrow> days_before_month y (m + 1) = days_before_month y m + days_in_month y m"
  by (simp add: days_before_month_def upto_rec2)

lemma day_count_year_day:
  assumes "valid_ymd t" and "- 4799 \<le> ymd_year t"
  shows "day_count t = day_count \<lparr>ymd_year = ymd_year t, ymd_month = 1, ymd_day = 1\<rparr> + year_day t"
proof -
  let ?y = "ymd_year t"
  have month: "1 + int k \<le> 12 \<Longrightarrow> day_count \<lparr>ymd_year = ?y, ymd_month = 1 + int k, ymd_day = 1\<rparr> =
      day_count \<lparr>ymd_year = ?y, ymd_month = 1, ymd_day = 1\<rparr> + days_before_month ?y (1 + int k)" for k
  proof (induction k)
    case 0
    show ?case by (simp add: days_before_month_def)
  next
    case (Suc k)
    have "day_count \<lparr>ymd_year = ?y, ymd_month = (1 + int k) + 1, ymd_day = 1\<rparr> =
        day_count \<lparr>ymd_year = ?y, ymd_month = 1 + int k, ymd_day = 1\<rparr> + days_in_month ?y (1 + int k)"
      using day_count_next_month [of "1 + int k" ?y] Suc.prems assms(2)
      by (simp add: day_count_def Let_def)
    moreover have "days_before_month ?y ((1 + int k) + 1) =
        days_before_month ?y (1 + int k) + days_in_month ?y (1 + int k)"
      by (rule days_before_month_step) simp
    ultimately show ?case using Suc by (simp add: add.commute add.left_commute)
  qed
  from month [of "nat (ymd_month t - 1)"] assms(1)
  have "day_count \<lparr>ymd_year = ?y, ymd_month = ymd_month t, ymd_day = 1\<rparr> =
      day_count \<lparr>ymd_year = ?y, ymd_month = 1, ymd_day = 1\<rparr> + days_before_month ?y (ymd_month t)"
    by (simp add: valid_ymd_def)
  then show ?thesis by (simp add: day_count_def Let_def year_day_def)
qed

text \<open>The POSIX day count is the day number counted from the epoch.\<close>

lemma day_count_january:
  "day_count \<lparr>ymd_year = y, ymd_month = 1, ymd_day = 1\<rparr> =
     365 * (y + 4799) + (y + 4799) div 4 - (y + 4799) div 100 + (y + 4799) div 400 + 306"
proof -
  have regroup: "x * 365 + p - q + r + 306 + 1 - 1 = 365 * x + p - q + r + (306::int)" for x p q r
    by simp
  have "march_days ((y + 4799) div 100) ((y + 4799) mod 100) 10 =
      (y + 4799) * 365 + (y + 4799) div 4 - (y + 4799) div 100 + (y + 4799) div 400 + 306"
    unfolding march_days_def years_days by simp
  moreover have "y + 4800 - march_a 1 = y + 4799" "1 + 12 * march_a 1 - 3 = 10"
    by (simp_all add: march_a_def)
  ultimately have "day_count \<lparr>ymd_year = y, ymd_month = 1, ymd_day = 1\<rparr> =
      (y + 4799) * 365 + (y + 4799) div 4 - (y + 4799) div 100 + (y + 4799) div 400 + 306 + 1 - 1"
    unfolding day_count_def Let_def YearMonthDay.select_convs by (simp only:)
  then show ?thesis unfolding regroup .
qed

lemma days_since_epoch_day_count:
  assumes "valid_ymd t" and "- 4799 \<le> ymd_year t"
  shows "days_since_epoch (ymd_year t) (ymd_month t) (ymd_day t) = day_count t - 2472632"
proof -
  let ?y = "ymd_year t"
  have sh: "(?y + 4799) div 4 = (?y - 1) div 4 + 1200" "(?y + 4799) div 100 = (?y - 1) div 100 + 48"
    "(?y + 4799) div 400 = (?y - 1) div 400 + 12"
    using div_mult_self1 [of 4 "?y - 1" 1200] div_mult_self1 [of 100 "?y - 1" 48]
      div_mult_self1 [of 400 "?y - 1" 12] by (simp_all add: algebra_simps)
  have "day_count t = 365 * (?y + 4799) + ((?y - 1) div 4 + 1200) - ((?y - 1) div 100 + 48) +
      ((?y - 1) div 400 + 12) + 306 + (days_before_month ?y (ymd_month t) + ymd_day t - 1)"
    using day_count_year_day [OF assms] unfolding day_count_january sh year_day_def .
  moreover have "365 * (y - 1970) + (p - 492) - (q - 19) + (r - 4) + b + d - 1 =
      365 * (y + 4799) + (p + 1200) - (q + 48) + (r + 12) + 306 + (b + d - 1) - 2472632"
    for y p q r b d :: int by simp
  ultimately show ?thesis unfolding days_since_epoch_def by simp
qed

end
