(* ===== verification/Timestamp.thy ===== *)
theory Timestamp
  imports LibcTime
begin

text \<open>
  \<open>Timestamp\<close> (src/base/Timestamp.h, src/base/Timestamp.cc): microseconds since the epoch
  in an \<open>int64_t\<close>. The reading of the clock is an argument of \<open>Timestamp_now\<close>.
\<close>

section \<open>The class\<close>

record Timestamp =
  microSecondsSinceEpoch :: int

definition kMicroSecondsPerSecond :: int where
  "kMicroSecondsPerSecond = 1000 * 1000"

definition Timestamp_default :: Timestamp where
  "Timestamp_default = \<lparr>microSecondsSinceEpoch = 0\<rparr>"

definition Timestamp_of :: "int \<Rightarrow> Timestamp" where
  "Timestamp_of ms = \<lparr>microSecondsSinceEpoch = ms\<rparr>"

definition Timestamp_swap :: "Timestamp \<Rightarrow> Timestamp \<Rightarrow> Timestamp \<times> Timestamp" where
  "Timestamp_swap this that =
     (this\<lparr>microSecondsSinceEpoch := microSecondsSinceEpoch that\<rparr>,
      that\<lparr>microSecondsSinceEpoch := microSecondsSinceEpoch this\<rparr>)"

definition Timestamp_valid :: "Timestamp \<Rightarrow> bool" where
  "Timestamp_valid ts \<longleftrightarrow> 0 < microSecondsSinceEpoch ts"

definition Timestamp_invalid :: Timestamp where
  "Timestamp_invalid = Timestamp_default"

definition secondsSinceEpoch :: "Timestamp \<Rightarrow> int" where
  "secondsSinceEpoch ts = div64 (microSecondsSinceEpoch ts) kMicroSecondsPerSecond"

definition fromUnixTime_us :: "int \<Rightarrow> int \<Rightarrow> Timestamp" where
  "fromUnixTime_us t microSeconds =
     Timestamp_of (add64 (mul64 t kMicroSecondsPerSecond) microSeconds)"

definition fromUnixTime :: "int \<Rightarrow> Timestamp" where
  "fromUnixTime t = fromUnixTime_us t 0"

definition Timestamp_now :: "int \<Rightarrow> int \<Rightarrow> Timestamp" where
  "Timestamp_now sec usec =
     (let seconds = sec
      in Timestamp_of (add64 (mul64 seconds kMicroSecondsPerSecond) usec))"

definition Timestamp_less :: "Timestamp \<Rightarrow> Timestamp \<Rightarrow> bool" where
  "Timestamp_less lhs rhs \<longleftrightarrow> microSecondsSinceEpoch lhs < microSecondsSinceEpoch rhs"

definition Timestamp_eq :: "Timestamp \<Rightarrow> Timestamp \<Rightarrow> bool" where
  "Timestamp_eq lhs rhs \<longleftrightarrow> microSecondsSinceEpoch lhs = microSecondsSinceEpoch rhs"

text \<open>
  The product \<open>interval * kMicroSecondsPerSecond\<close> of two \<open>int\<close>s is computed in
  \<open>int\<close>; the cast to \<open>int64_t\<close> comes after it.
\<close>

definition addTime :: "Timestamp \<Rightarrow> int \<Rightarrow> Timestamp" where
  "addTime ts interval =
     (let delta = mul32 interval kMicroSecondsPerSecond
      in Timestamp_of (add64 (microSecondsSinceEpoch ts) delta))"

definition Timestamp_toString :: "Timestamp \<Rightarrow> string" where
  "Timestamp_toString ts =
     (let seconds = div64 (microSecondsSinceEpoch ts) kMicroSecondsPerSecond;
          microseconds = mod64 (microSecondsSinceEpoch ts) kMicroSecondsPerSecond
      in snprintf_to 32 (dec_int seconds @ ''.'' @ fmt_0d 6 microseconds))"

definition toFormattedString :: "Timestamp \<Rightarrow> bool \<Rightarrow> string" where
  "toFormattedString ts showMicroseconds =
     (let seconds = div64 (microSecondsSinceEpoch ts) kMicroSecondsPerSecond;
          tm_time = gmtime_r seconds;
          date = fmt_d 4 (add32 (tm_year tm_time) 1900) @ fmt_0d 2 (add32 (tm_mon tm_time) 1) @
                 fmt_0d 2 (tm_mday tm_time) @ '' '' @ fmt_0d 2 (tm_hour tm_time) @ '':'' @
                 fmt_0d 2 (tm_min tm_time) @ '':'' @ fmt_0d 2 (tm_sec tm_time)
      in if showMicroseconds
         then let microseconds = wrap32 (mod64 (microSecondsSinceEpoch ts) kMicroSecondsPerSecond)
              in snprintf_to 64 (date @ ''.'' @ fmt_0d 6 microseconds)
         else snprintf_to 64 date)"

section \<open>Order\<close>

text \<open>Timestamps are the first component of the timer set's entries; they are ordered as a type.\<close>

instantiation Timestamp_ext :: (linorder) linorder
begin

definition less_eq_Timestamp_ext :: "'a Timestamp_ext \<Rightarrow> 'a Timestamp_ext \<Rightarrow> bool" where
  "x \<le> y \<longleftrightarrow> (microSecondsSinceEpoch x, Timestamp.more x) \<le> (microSecondsSinceEpoch y, Timestamp.more y)"

definition less_Timestamp_ext :: "'a Timestamp_ext \<Rightarrow> 'a Timestamp_ext \<Rightarrow> bool" where
  "x < y \<longleftrightarrow> (microSecondsSinceEpoch x, Timestamp.more x) < (microSecondsSinceEpoch y, Timestamp.more y)"

instance
  by standard (auto simp: less_eq_Timestamp_ext_def less_Timestamp_ext_def intro: Timestamp.equality)

end

lemma Timestamp_less_iff [simp]: "(x < y) = Timestamp_less x (y :: Timestamp)"
  by (simp add: less_Timestamp_ext_def Timestamp_less_def less_prod_def')

section \<open>Properties\<close>

text \<open>
  Within 2147 seconds either way, adding an interval to a time stamp adds that many
  seconds, as long as the sum is an \<open>int64_t\<close>.
\<close>
theorem addTime_exact:
  assumes "- 2147 \<le> interval" and "interval \<le> 2147"
    and "in64 (microSecondsSinceEpoch ts + interval * 1000000)"
  shows "microSecondsSinceEpoch (addTime ts interval) = microSecondsSinceEpoch ts + interval * 1000000"
  using assms
  by (simp add: addTime_def mul32_def add64_def kMicroSecondsPerSecond_def Timestamp_of_def in64_def)

theorem addTime_exact_witness:
  "microSecondsSinceEpoch (addTime (Timestamp_of 5) 3) = 3000005"
  using addTime_exact [of 3 "Timestamp_of 5"] by (simp add: Timestamp_of_def in64_def)

text \<open>
  From 2148 to 4294 seconds the \<open>int\<close> product wraps and the result lies in the past:
  a timer set for an hour ahead is due at once.
\<close>
theorem addTime_wraps_to_past:
  assumes "2148 \<le> interval" and "interval \<le> 4294"
    and "0 \<le> microSecondsSinceEpoch ts" and "in64 (microSecondsSinceEpoch ts)"
  shows "Timestamp_less (addTime ts interval) ts"
proof -
  have "wrap32 (interval * 1000000) = interval * 1000000 - 4294967296"
  proof -
    have "wrap32 (interval * 1000000) = wrap32 (interval * 1000000 - 4294967296)"
      using wrap32_shift [of "interval * 1000000" "- 1"] by simp
    then show ?thesis using assms by simp
  qed
  then show ?thesis
    using assms
    by (simp add: addTime_def mul32_def add64_def kMicroSecondsPerSecond_def Timestamp_of_def
        Timestamp_less_def in64_def)
qed

theorem addTime_wraps_to_past_witness:
  "Timestamp_less (addTime (Timestamp_of 1600000000000000) 3600) (Timestamp_of 1600000000000000)"
  by (rule addTime_wraps_to_past) (simp_all add: Timestamp_of_def in64_def)

text \<open>
  The text of a time stamp that is not negative reads back exactly: the digits before the
  dot are its seconds and the six digits after it its microseconds.
\<close>
theorem timestamp_string_roundtrip:
  assumes "0 \<le> microSecondsSinceEpoch ts" and "in64 (microSecondsSinceEpoch ts)"
  defines "s \<equiv> Timestamp_toString ts"
  shows "length s \<le> 20 \<and> s ! std_find (CHR ''.'') s = CHR ''.'' \<and>
    int (nat_of_dec (take (std_find (CHR ''.'') s) s)) * 1000000 +
    int (nat_of_dec (drop (Suc (std_find (CHR ''.'') s)) s)) = microSecondsSinceEpoch ts"
proof -
  let ?u = "microSecondsSinceEpoch ts"
  define sec us where "sec = ?u div 1000000" and "us = ?u mod 1000000"
  have sec: "0 \<le> sec" "sec \<le> 9223372036854" and us: "0 \<le> us" "us < 10 ^ 6"
    using assms div_bounds [of ?u 9223372036854775807 1000000] pos_mod_bound [of 1000000 ?u]
    by (auto simp: sec_def us_def in64_def)
  have dec: "dec_int sec = dec_nat (nat sec)" using sec by (simp add: dec_int_def)
  have len: "length (dec_nat (nat sec)) \<le> 13"
    using sec by (intro length_dec_nat_le) (simp_all add: nat_less_iff)
  note f = fmt_0d_ok [OF us]
  have dot: "CHR ''.'' \<notin> set (dec_nat (nat sec))"
    using dec_nat_digits [of "CHR ''.''" "nat sec"] by auto
  have s: "s = dec_nat (nat sec) @ CHR ''.'' # fmt_0d 6 us"
    using assms(1) sec us len f(1) pos_mod_bound [of 1000000 ?u]
    by (simp add: s_def Timestamp_toString_def kMicroSecondsPerSecond_def div64_def mod64_def
        snprintf_to_def dec flip: sec_def us_def)
  have "sec * 1000000 + us = ?u" by (simp add: sec_def us_def)
  then show ?thesis
    unfolding s using dot len f sec us by (simp add: std_find_append)
qed

theorem timestamp_string_roundtrip_witness:
  "length (Timestamp_toString (Timestamp_of 1600000000000001)) \<le> 20"
  using timestamp_string_roundtrip [of "Timestamp_of 1600000000000001"]
  by (simp add: Timestamp_of_def in64_def)

end
