(* ===== verification/TimeZone.thy ===== *)
theory TimeZone
  imports Timestamp
begin

text \<open>
  \<open>base::TimeZone\<close> (src/base/TimeZone.h, src/base/TimeZone.cc): UTC conversion without
  the C library, the reader of compiled zone files, and local time by a search in the sorted
  transitions of a zone. A file is the list of its bytes, \<open>None\<close> when \<open>fopen\<close>
  fails.
\<close>

section \<open>Data\<close>

record Transition =
  tr_gmttime :: int
  tr_localtime :: int
  tr_localtimeIdx :: int

definition Transition_of :: "int \<Rightarrow> int \<Rightarrow> int \<Rightarrow> Transition" where
  "Transition_of g l idx = \<lparr>tr_gmttime = g, tr_localtime = l, tr_localtimeIdx = idx\<rparr>"

record Comp =
  compareGmt :: bool

definition Comp_less :: "Comp \<Rightarrow> Transition \<Rightarrow> Transition \<Rightarrow> bool" where
  "Comp_less c lhs rhs \<longleftrightarrow>
     (if compareGmt c then tr_gmttime lhs < tr_gmttime rhs else tr_localtime lhs < tr_localtime rhs)"

definition Comp_equal :: "Comp \<Rightarrow> Transition \<Rightarrow> Transition \<Rightarrow> bool" where
  "Comp_equal c lhs rhs \<longleftrightarrow>
     (if compareGmt c then tr_gmttime lhs = tr_gmttime rhs else tr_localtime lhs = tr_localtime rhs)"

record Localtime =
  lt_gmtOffset :: int
  lt_isDst :: bool
  lt_arrbIdx :: int

definition Localtime_of :: "int \<Rightarrow> bool \<Rightarrow> int \<Rightarrow> Localtime" where
  "Localtime_of offset dst arrb = \<lparr>lt_gmtOffset = offset, lt_isDst = dst, lt_arrbIdx = arrb\<rparr>"

record Data =
  transitions :: "Transition list"
  localtimes :: "Localtime list"
  names :: "string list"
  zone_abbreviation :: string

definition empty_data :: Data where
  "empty_data = \<lparr>transitions = [], localtimes = [], names = [], zone_abbreviation = []\<rparr>"

definition kSecondsPerDay :: int where
  "kSecondsPerDay = 24 * 60 * 60"

section \<open>Reading a zone file\<close>

text \<open>
  The reader's state is what is left of the file. \<open>readBytes\<close> declares an array of
  \<open>n\<close> elements, which a negative \<open>n\<close> makes undefined. \<open>readInt32\<close> throws a
  string literal where the other two throw \<open>logic_error\<close>. The bytes of an integer are
  copied and then swapped (\<open>be32toh\<close> on a little-endian host).
\<close>

definition readBytes :: "int \<Rightarrow> string \<Rightarrow> (string \<times> string) res" where
  "readBytes n f =
     (if n < 0 then Inl Undefined
      else if length (take (nat n) f) \<noteq> nat n then Inl (LogicError ''no enough data'')
      else Inr (take (nat n) f, drop (nat n) f))"

definition readInt32be :: "string \<Rightarrow> (int \<times> string) res" where
  "readInt32be f =
     (if length (take 4 f) \<noteq> 4 then Inl (ThrowCString ''bad int32_t data'')
      else Inr (int_of_mem (rev (take 4 f)), drop 4 f))"

definition readUInt8 :: "string \<Rightarrow> (int \<times> string) res" where
  "readUInt8 f =
     (if length (take 1 f) \<noteq> 1 then Inl (LogicError ''bad uint8_t data'')
      else Inr (of_char (hd f), drop 1 f))"

fun read_times :: "(string \<Rightarrow> (int \<times> string) res) \<Rightarrow> nat \<Rightarrow> string \<Rightarrow> (int list \<times> string) res" where
  "read_times r 0 f = Inr ([], f)"
| "read_times r (Suc n) f =
     bind_r (r f) (\<lambda>(x, f'). bind_r (read_times r n f') (\<lambda>(xs, f''). Inr (x # xs, f'')))"

text \<open>
  The two loops that write to \<open>*data\<close> return it with what happened, since what was pushed
  before an exception stays.
\<close>

fun read_localtimes :: "nat \<Rightarrow> string \<Rightarrow> Data \<Rightarrow> Data \<times> string res" where
  "read_localtimes 0 f d = (d, Inr f)"
| "read_localtimes (Suc n) f d =
     (case bind_r (readInt32be f) (\<lambda>(gmtoff, f). bind_r (readUInt8 f) (\<lambda>(isdst, f).
             bind_r (readUInt8 f) (\<lambda>(abbrind, f). Inr (gmtoff, isdst, abbrind, f)))) of
        Inl e \<Rightarrow> (d, Inl e)
      | Inr (gmtoff, isdst, abbrind, f') \<Rightarrow>
          read_localtimes n f'
            (d\<lparr>localtimes := localtimes d @ [Localtime_of gmtoff (isdst \<noteq> 0) abbrind]\<rparr>))"

fun add_transitions :: "(int \<times> int) list \<Rightarrow> Data \<Rightarrow> Data \<times> unit res" where
  "add_transitions [] d = (d, Inr ())"
| "add_transitions ((t, localIdx) # ts) d =
     (if 0 \<le> localIdx \<and> localIdx < int (length (localtimes d))
      then let localtime = add64 t (lt_gmtOffset (localtimes d ! nat localIdx))
           in add_transitions ts
                (d\<lparr>transitions := transitions d @ [Transition_of t localtime localIdx]\<rparr>)
      else (d, Inl Undefined))"

record tzhead =
  isgmtcnt :: int
  isstdcnt :: int
  leapcnt :: int
  timecnt :: int
  typecnt :: int
  charcnt :: int

definition read_head :: "string \<Rightarrow> (tzhead \<times> string) res" where
  "read_head f =
     bind_r (readBytes 4 f) (\<lambda>(head, f).
     if head \<noteq> ''TZif'' then Inl (LogicError ''bad head'') else
     bind_r (readBytes 1 f) (\<lambda>(version, f).
     bind_r (readBytes 15 f) (\<lambda>(_, f).
     bind_r (readInt32be f) (\<lambda>(isgmt, f).
     bind_r (readInt32be f) (\<lambda>(isstd, f).
     bind_r (readInt32be f) (\<lambda>(leap, f).
     bind_r (readInt32be f) (\<lambda>(time, f).
     bind_r (readInt32be f) (\<lambda>(type, f).
     bind_r (readInt32be f) (\<lambda>(chr, f).
       Inr (\<lparr>isgmtcnt = isgmt, isstdcnt = isstd, leapcnt = leap, timecnt = time, typecnt = type,
             charcnt = chr\<rparr>, f))))))))))"

text \<open>The block under \<open>try\<close>; \<open>reserve\<close> of a negative count is a \<open>length_error\<close>.\<close>

definition read_body :: "string \<Rightarrow> Data \<Rightarrow> Data \<times> unit res" where
  "read_body f d =
     (case bind_r (read_head f) (\<lambda>(h, f).
             if timecnt h < 0 then Inl LengthError else
             bind_r (read_times readInt32be (nat (timecnt h)) f) (\<lambda>(ts, f).
             bind_r (read_times readUInt8 (nat (timecnt h)) f) (\<lambda>(ls, f).
               Inr (h, ts, ls, f)))) of
        Inl e \<Rightarrow> (d, Inl e)
      | Inr (h, ts, ls, f) \<Rightarrow>
          (case read_localtimes (nat (typecnt h)) f d of
             (d, Inl e) \<Rightarrow> (d, Inl e)
           | (d, Inr f) \<Rightarrow>
               (case add_transitions (zip ts ls) d of
                  (d, Inl e) \<Rightarrow> (d, Inl e)
                | (d, Inr _) \<Rightarrow>
                    (case readBytes (charcnt h) f of
                       Inl e \<Rightarrow> (d, Inl e)
                     | Inr (abbrev, f) \<Rightarrow> (d\<lparr>zone_abbreviation := abbrev\<rparr>, Inr ())))))"

text \<open>\<open>std::length_error\<close> is a \<open>std::logic_error\<close>, so both are caught and reported.\<close>

definition readTimeZoneFile :: "string option \<Rightarrow> Data \<Rightarrow> Data \<times> bool res" where
  "readTimeZoneFile file d =
     (case file of
        None \<Rightarrow> (d, Inr True)
      | Some bytes \<Rightarrow>
          (case read_body bytes d of
             (d, Inr _) \<Rightarrow> (d, Inr True)
           | (d, Inl (LogicError what)) \<Rightarrow> (d, Inr True)
           | (d, Inl LengthError) \<Rightarrow> (d, Inr True)
           | (d, Inl e) \<Rightarrow> (d, Inl e)))"

section \<open>Constructors\<close>

text \<open>A zone is its \<open>shared_ptr<Data>\<close>.\<close>

type_synonym TimeZone = "Data option"

definition TimeZone_default :: TimeZone where
  "TimeZone_default = None"

definition TimeZone_file :: "string option \<Rightarrow> TimeZone res" where
  "TimeZone_file zonefile =
     (case readTimeZoneFile zonefile empty_data of
        (d, Inl e) \<Rightarrow> Inl e
      | (d, Inr ok) \<Rightarrow> Inr (if \<not> ok then None else Some d))"

definition TimeZone_fixed :: "int \<Rightarrow> string \<Rightarrow> TimeZone" where
  "TimeZone_fixed eastOfUtc name =
     Some (empty_data\<lparr>localtimes := [Localtime_of eastOfUtc False 0], zone_abbreviation := name\<rparr>)"

definition TimeZone_valid :: "TimeZone \<Rightarrow> bool" where
  "TimeZone_valid z \<longleftrightarrow> z \<noteq> None"

section \<open>Local time\<close>

definition localtime_at :: "Data \<Rightarrow> int \<Rightarrow> Localtime res" where
  "localtime_at d i =
     (if 0 \<le> i \<and> i < int (length (localtimes d)) then Inr (localtimes d ! nat i) else Inl Undefined)"

definition findLocaltime :: "Data \<Rightarrow> Transition \<Rightarrow> Comp \<Rightarrow> Localtime res" where
  "findLocaltime d sentry cmp =
     (if transitions d = [] \<or> Comp_less cmp sentry (transitions d ! 0)
      then localtime_at d 0
      else let transI = lower_bound (Comp_less cmp) (transitions d) sentry
           in if transI \<noteq> length (transitions d)
              then if \<not> Comp_equal cmp sentry (transitions d ! transI)
                   then cassert (transI \<noteq> 0)
                          (localtime_at d (tr_localtimeIdx (transitions d ! (transI - 1))))
                   else localtime_at d (tr_localtimeIdx (transitions d ! transI))
              else localtime_at d (tr_localtimeIdx (last (transitions d))))"

text \<open>The C string at an index of the abbreviations, which end in a NUL.\<close>

definition zone_at :: "Data \<Rightarrow> int \<Rightarrow> string res" where
  "zone_at d i =
     (if 0 \<le> i \<and> i \<le> int (length (zone_abbreviation d))
      then Inr (takeWhile (\<lambda>c. c \<noteq> CHR 0x00) (drop (nat i) (zone_abbreviation d)))
      else Inl Undefined)"

definition toLocalTime :: "TimeZone \<Rightarrow> int \<Rightarrow> tm res" where
  "toLocalTime z seconds =
     cassert (z \<noteq> None)
       (let data = the z; sentry = Transition_of seconds 0 0 in
        bind_r (findLocaltime data sentry \<lparr>compareGmt = True\<rparr>) (\<lambda>local.
          let localSeconds = add64 seconds (lt_gmtOffset local) in
          bind_r (zone_at data (lt_arrbIdx local)) (\<lambda>zone.
            Inr ((gmtime_r localSeconds)\<lparr>tm_isdst := (if lt_isDst local then 1 else 0),
                  tm_gmtoff := lt_gmtOffset local, tm_zone := zone\<rparr>))))"

definition fromLocalTime :: "TimeZone \<Rightarrow> tm \<Rightarrow> int res" where
  "fromLocalTime z localTm =
     cassert (z \<noteq> None)
       (let data = the z; seconds = timegm localTm; sentry = Transition_of 0 seconds 0 in
        bind_r (findLocaltime data sentry \<lparr>compareGmt = False\<rparr>) (\<lambda>local.
          if tm_isdst localTm \<noteq> 0
          then bind_r (toLocalTime z (sub64 seconds (lt_gmtOffset local))) (\<lambda>tryTm.
                 let seconds =
                   (if tm_isdst tryTm = 0 \<and> tm_hour tryTm = tm_hour localTm \<and>
                       tm_min tryTm = tm_min localTm
                    then sub64 seconds 3600 else seconds)
                 in Inr (sub64 seconds (lt_gmtOffset local)))
          else Inr (sub64 seconds (lt_gmtOffset local))))"

section \<open>UTC\<close>

definition zero_tm :: tm where
  "zero_tm = \<lparr>tm_sec = 0, tm_min = 0, tm_hour = 0, tm_mday = 0, tm_mon = 0, tm_year = 0,
     tm_wday = 0, tm_yday = 0, tm_isdst = 0, tm_gmtoff = 0, tm_zone = []\<rparr>"

definition fillHMS :: "nat \<Rightarrow> tm \<Rightarrow> tm" where
  "fillHMS seconds utc =
     (let minutes = seconds div 60
      in utc\<lparr>tm_sec := int (seconds mod 60), tm_min := int (minutes mod 60),
             tm_hour := int (minutes div 60)\<rparr>)"

definition toUtcTime :: "int \<Rightarrow> bool \<Rightarrow> tm" where
  "toUtcTime secs yday =
     (let utc = zero_tm\<lparr>tm_zone := ''GMT''\<rparr>;
          seconds = wrap32 (mod64 secs kSecondsPerDay);
          days = wrap32 (div64 secs kSecondsPerDay);
          (seconds, days) =
            (if seconds < 0 then (add32 seconds kSecondsPerDay, sub32 days 1) else (seconds, days));
          utc = fillHMS (nat seconds) utc;
          date = Date_julian (add32 days kJulianDayOf1970_01_01);
          ymd = yearMonthDay date;
          utc = utc\<lparr>tm_year := sub32 (ymd_year ymd) 1900, tm_mon := sub32 (ymd_month ymd) 1,
                    tm_mday := ymd_day ymd, tm_wday := weekDay date\<rparr>
      in if yday
         then let startOfYear = Date_ymd (ymd_year ymd) 1 1
              in utc\<lparr>tm_yday := sub32 (julianDayNumber date) (julianDayNumber startOfYear)\<rparr>
         else utc)"

definition fromUtcTime_fields :: "int \<Rightarrow> int \<Rightarrow> int \<Rightarrow> int \<Rightarrow> int \<Rightarrow> int \<Rightarrow> int" where
  "fromUtcTime_fields year month day hour minute seconds =
     (let date = Date_ymd year month day;
          secondsInDay = add32 (add32 (mul32 hour 3600) (mul32 minute 60)) seconds;
          days = sub32 (julianDayNumber date) kJulianDayOf1970_01_01
      in add64 (mul64 days kSecondsPerDay) secondsInDay)"

definition fromUtcTime :: "tm \<Rightarrow> int" where
  "fromUtcTime utc =
     fromUtcTime_fields (add32 (tm_year utc) 1900) (add32 (tm_mon utc) 1) (tm_mday utc)
       (tm_hour utc) (tm_min utc) (tm_sec utc)"

section \<open>UTC, correctly\<close>

text \<open>
  The instants for which the day number is not negative and within the range of the calendar
  lemmas: from 24 November 4714 BC to past the year 1390000.
\<close>

definition utc_range :: "int \<Rightarrow> bool" where
  "utc_range t \<longleftrightarrow> - 210866803200 \<le> t \<and> t < 43853133196800"

lemma utc_range_days:
  assumes "utc_range t"
  shows "- 2440588 \<le> t div 86400" "t div 86400 < 507559412"
    and "0 \<le> t mod 86400" "t mod 86400 < 86400"
  using assms pos_mod_sign [of 86400 t] pos_mod_bound [of 86400 t] mult_div_mod_eq [of 86400 t]
  unfolding utc_range_def by linarith+

lemma sdiv_bounds:
  assumes "utc_range t"
  shows "wrap32 (mod64 t kSecondsPerDay) = t smod 86400" "wrap32 (div64 t kSecondsPerDay) = t sdiv 86400"
proof -
  have "0 \<le> \<bar>t\<bar> mod 86400 \<and> \<bar>t\<bar> mod 86400 < 86400" by simp
  moreover have "\<bar>t\<bar> \<le> 43853133196800" using assms by (simp add: utc_range_def abs_le_iff)
  then have "0 \<le> \<bar>t\<bar> div 86400 \<and> \<bar>t\<bar> div 86400 \<le> 507559412"
    using div_bounds [of "\<bar>t\<bar>" 43853133196800 86400] by simp
  moreover have "t smod 86400 = sgn t * (\<bar>t\<bar> mod 86400)" "t sdiv 86400 = sgn t * (\<bar>t\<bar> div 86400)"
    by (simp_all add: signed_modulo_int_def signed_divide_int_def)
  ultimately show "wrap32 (mod64 t kSecondsPerDay) = t smod 86400"
    "wrap32 (div64 t kSecondsPerDay) = t sdiv 86400"
    by (cases "t = 0"; cases "0 < t"; simp add: mod64_def div64_def kSecondsPerDay_def sgn_if)+
qed

lemma utc_split:
  assumes "utc_range t"
  shows "(let seconds = wrap32 (mod64 t kSecondsPerDay); days = wrap32 (div64 t kSecondsPerDay)
    in if seconds < 0 then (add32 seconds kSecondsPerDay, sub32 days 1) else (seconds, days)) =
    (t mod 86400, t div 86400)"
proof -
  have fl: "(if t smod 86400 < 0 then (t smod 86400 + 86400, t sdiv 86400 - 1)
      else (t smod 86400, t sdiv 86400)) = (t mod 86400, t div 86400)"
    by (rule trunc_to_floor) simp
  note b = utc_range_days [OF assms]
  show ?thesis
  proof (cases "t smod 86400 < 0")
    case True
    then have "t smod 86400 + 86400 = t mod 86400" "t sdiv 86400 - 1 = t div 86400"
      using fl by simp_all
    then have "add32 (t smod 86400) kSecondsPerDay = t mod 86400" "sub32 (t sdiv 86400) 1 = t div 86400"
      using b unfolding add32_def sub32_def kSecondsPerDay_def by simp_all
    with True show ?thesis unfolding sdiv_bounds [OF assms] Let_def by simp
  next
    case False
    with fl show ?thesis unfolding sdiv_bounds [OF assms] Let_def by simp
  qed
qed

lemma kJulianDayOf1970_eq: "kJulianDayOf1970_01_01 = 2440588"
  unfolding kJulianDayOf1970_01_01_def
  by (subst jdn_plain) (simp_all add: year_range_def march_a_def march_days_def Let_def)

lemma week_day_shift: "(n + 2440588 + 1) mod 7 = (4 + n) mod (7::int)"
proof -
  have "n + 2440588 + 1 = (4 + n) + 7 * 348655" by simp
  then show ?thesis by (simp only: mod_mult_self2)
qed

lemma hms_split:
  assumes "0 \<le> (s::int)"
  shows "int (nat s mod 60) = s mod 60" "int (nat s div 60 mod 60) = s div 60 mod 60"
    "int (nat s div 60 div 60) = s div 3600"
  using assms by (simp_all add: zmod_int zdiv_int flip: zdiv_zmult2_eq)

lemma hms_join: "s div 3600 * 3600 + s div 60 mod 60 * 60 + s mod 60 = (s::int)"
proof -
  define m where "m = s div 60"
  have "s div 3600 = m div 60" using zdiv_zmult2_eq [of 60 s 60] by (simp add: m_def)
  moreover have "60 * m + s mod 60 = s" unfolding m_def by (rule mult_div_mod_eq)
  moreover have "60 * (m div 60) + m mod 60 = m" by (rule mult_div_mod_eq)
  ultimately show ?thesis unfolding m_def [symmetric] by linarith
qed

text \<open>The date of an instant: its day number, its components, its place in the year.\<close>

lemma utc_date:
  assumes "utc_range t"
  defines "n \<equiv> t div 86400"
  shows "valid_ymd (civil n)" "year_range (ymd_year (civil n))"
    and "getYearMonthDay (n + 2440588) = civil n"
    and "getJulianDayNumber (ymd_year (civil n)) (ymd_month (civil n)) (ymd_day (civil n)) = n + 2440588"
    and "day_count (civil n) = n + 2472632"
    and "n + 2440588 - getJulianDayNumber (ymd_year (civil n)) 1 1 = year_day (civil n)"
    and "ymd_year (civil n) < 1400000"
proof -
  note b = utc_range_days [OF assms(1), folded n_def]
  have c: "civil n = getYearMonthDay (n + 2440588)"
    using b civil_ymd [of n] by (simp add: add.commute)
  have j: "- 31738 \<le> n + 2440588" "n + 2440588 \<le> 510000000" using b by simp_all
  note ymd = jdn_ymd [OF j, folded c]
  show "valid_ymd (civil n)" "year_range (ymd_year (civil n))" "ymd_year (civil n) < 1400000"
    by (fact ymd)+
  show "getYearMonthDay (n + 2440588) = civil n" by (simp add: c)
  show jd: "getJulianDayNumber (ymd_year (civil n)) (ymd_month (civil n)) (ymd_day (civil n)) =
      n + 2440588" by (fact ymd)
  show dc: "day_count (civil n) = n + 2472632"
    using jdn_day_count [OF ymd(1,2)] unfolding jd by simp
  have y: "- 4799 \<le> ymd_year (civil n)" using ymd(2) by (simp add: year_range_def)
  have "getJulianDayNumber (ymd_year (civil n)) 1 1 =
      day_count \<lparr>ymd_year = ymd_year (civil n), ymd_month = 1, ymd_day = 1\<rparr> - 32044"
    using jdn_day_count [of "\<lparr>ymd_year = ymd_year (civil n), ymd_month = 1, ymd_day = 1\<rparr>"] ymd(2)
    by (simp add: valid_ymd_def days_in_month_def)
  with day_count_year_day [OF ymd(1) y] dc
  show "n + 2440588 - getJulianDayNumber (ymd_year (civil n)) 1 1 = year_day (civil n)" by simp
qed

lemma year_day_bounds: "valid_ymd t \<Longrightarrow> 0 \<le> year_day t \<and> year_day t \<le> 365"
proof -
  assume v: "valid_ymd t"
  let ?y = "ymd_year t"
  have len: "days_in_month ?y m \<le> 31" "0 \<le> days_in_month ?y m" for m by (auto simp: days_in_month_def)
  have "ymd_month t \<in> set [1..12]" using v by (simp add: valid_ymd_def)
  moreover have "[1..12] = [1, 2, 3, 4, 5, 6, 7, 8, 9, 10, 11, 12 :: int]" by code_simp
  ultimately have "ymd_month t \<in> {1, 2, 3, 4, 5, 6, 7, 8, 9, 10, 11, 12}" by (simp only: list.set)
  then show ?thesis
    using v by (elim insertE emptyE)
      (auto simp: year_day_def days_before_month_def valid_ymd_def days_in_month_def upto_rec1
        split: if_splits)
qed

lemma toUtcTime_eq:
  assumes r: "utc_range t"
  shows "toUtcTime t yday = (if yday then gmtime_r t else (gmtime_r t)\<lparr>tm_yday := 0\<rparr>)"
proof -
  define n s where "n = t div 86400" and "s = t mod 86400"
  note b = utc_range_days [OF r, folded n_def s_def]
  note d = utc_date [OF r, folded n_def]
  have j: "add32 n kJulianDayOf1970_01_01 = n + 2440588"
    using b by (simp add: add32_def kJulianDayOf1970_eq)
  have wd: "weekDay (Date_julian (n + 2440588)) = (4 + n) mod 7"
    unfolding weekDay_def Date_julian_def Date.select_convs week_day_shift [symmetric]
    using b pos_mod_bound [of 7 "n + 2440588 + 1"] by (simp add: add32_def mod32_def)
  have ymd: "yearMonthDay (Date_julian (n + 2440588)) = civil n"
    using d(3) by (simp add: yearMonthDay_def Date_julian_def)
  have v: "1 \<le> ymd_month (civil n)" "ymd_month (civil n) \<le> 12" using d(1) by (simp_all add: valid_ymd_def)
  have y: "sub32 (ymd_year (civil n)) 1900 = ymd_year (civil n) - 1900"
    "sub32 (ymd_month (civil n)) 1 = ymd_month (civil n) - 1"
    using d(2) v by (simp_all add: sub32_def year_range_def)
  have yd: "sub32 (julianDayNumber (Date_julian (n + 2440588)))
      (julianDayNumber (Date_ymd (ymd_year (civil n)) 1 1)) = year_day (civil n)"
    using d(6) year_day_bounds [OF d(1)] by (simp add: sub32_def Date_julian_def Date_ymd_def)
  have fill: "fillHMS (nat s) (zero_tm\<lparr>tm_zone := ''GMT''\<rparr>) =
      \<lparr>tm_sec = s mod 60, tm_min = s div 60 mod 60, tm_hour = s div 3600, tm_mday = 0, tm_mon = 0,
       tm_year = 0, tm_wday = 0, tm_yday = 0, tm_isdst = 0, tm_gmtoff = 0, tm_zone = ''GMT''\<rparr>"
    unfolding fillHMS_def zero_tm_def Let_def tm.update_convs hms_split [OF b(3)] ..
  show ?thesis
    unfolding toUtcTime_def Let_def utc_split [OF r, unfolded Let_def] prod.case
      n_def [symmetric] s_def [symmetric] j ymd wd y yd fill
    unfolding gmtime_r_def Let_def n_def [symmetric] s_def [symmetric] tm.update_convs ..
qed

lemma gmtime_fields:
  assumes r: "utc_range t"
  defines "u \<equiv> gmtime_r t"
  shows "0 \<le> tm_sec u" "tm_sec u \<le> 59" "0 \<le> tm_min u" "tm_min u \<le> 59" "0 \<le> tm_hour u" "tm_hour u \<le> 23"
    and "tm_hour u * 3600 + tm_min u * 60 + tm_sec u = t mod 86400"
    and "tm_year u + 1900 = ymd_year (civil (t div 86400))"
    and "tm_mon u + 1 = ymd_month (civil (t div 86400))"
    and "tm_mday u = ymd_day (civil (t div 86400))"
proof -
  define s where "s = t mod 86400"
  note b = utc_range_days(3,4) [OF r, folded s_def]
  show "0 \<le> tm_sec u" "tm_sec u \<le> 59" "0 \<le> tm_min u" "tm_min u \<le> 59" "0 \<le> tm_hour u"
    using b pos_mod_bound [of 60 s] pos_mod_bound [of 60 "s div 60"]
    by (simp_all add: u_def gmtime_r_def Let_def flip: s_def)
  show "tm_hour u \<le> 23"
    using b div_bounds [of s 86399 3600] by (simp add: u_def gmtime_r_def Let_def flip: s_def)
  have "tm_hour u = s div 3600" "tm_min u = s div 60 mod 60" "tm_sec u = s mod 60"
    by (simp_all add: u_def gmtime_r_def Let_def flip: s_def)
  then show "tm_hour u * 3600 + tm_min u * 60 + tm_sec u = t mod 86400"
    unfolding s_def [symmetric] by (simp only: hms_join)
qed (simp_all add: u_def gmtime_r_def Let_def)

lemma fromUtcTime_gmtime:
  assumes r: "utc_range t" and u: "tm_sec u = tm_sec (gmtime_r t)" "tm_min u = tm_min (gmtime_r t)"
    "tm_hour u = tm_hour (gmtime_r t)" "tm_mday u = tm_mday (gmtime_r t)"
    "tm_mon u = tm_mon (gmtime_r t)" "tm_year u = tm_year (gmtime_r t)"
  shows "fromUtcTime u = t"
proof -
  define n where "n = t div 86400"
  note b = utc_range_days [OF r, folded n_def]
  note d = utc_date [OF r, folded n_def]
  note f = gmtime_fields [OF r, folded n_def]
  have v: "1 \<le> ymd_month (civil n)" "ymd_month (civil n) \<le> 12" using d(1) by (simp_all add: valid_ymd_def)
  have y: "add32 (tm_year u) 1900 = ymd_year (civil n)" "add32 (tm_mon u) 1 = ymd_month (civil n)"
    using d(2) v u f(8,9) by (simp_all add: add32_def year_range_def)
  have days: "sub32 (julianDayNumber (Date_ymd (ymd_year (civil n)) (ymd_month (civil n))
      (ymd_day (civil n)))) kJulianDayOf1970_01_01 = n"
    using b d(4) by (simp add: sub32_def Date_ymd_def kJulianDayOf1970_eq)
  have secs: "add32 (add32 (mul32 (tm_hour u) 3600) (mul32 (tm_min u) 60)) (tm_sec u) = t mod 86400"
    using u f(1-7) by (simp add: add32_def mul32_def)
  have "add64 (mul64 n kSecondsPerDay) (t mod 86400) = n * 86400 + t mod 86400"
    using b by (simp add: add64_def mul64_def kSecondsPerDay_def)
  also have "\<dots> = t" by (simp add: n_def)
  finally show ?thesis
    by (simp only: fromUtcTime_def fromUtcTime_fields_def Let_def y u(4) f(10) days secs)
qed

lemma timegm_gmtime:
  assumes r: "utc_range t" and u: "tm_sec u = tm_sec (gmtime_r t)" "tm_min u = tm_min (gmtime_r t)"
    "tm_hour u = tm_hour (gmtime_r t)" "tm_mday u = tm_mday (gmtime_r t)"
    "tm_mon u = tm_mon (gmtime_r t)" "tm_year u = tm_year (gmtime_r t)"
  shows "timegm u = t"
proof -
  define n where "n = t div 86400"
  note b = utc_range_days [OF r, folded n_def]
  note d = utc_date [OF r, folded n_def]
  note f = gmtime_fields [OF r, folded n_def]
  have "days_since_epoch (ymd_year (civil n)) (ymd_month (civil n)) (ymd_day (civil n)) = n"
    using days_since_epoch_day_count [OF d(1)] d(2,5) by (simp add: year_range_def)
  then have "timegm u = wrap64 (n * 86400 + (tm_hour u * 3600 + tm_min u * 60 + tm_sec u))"
    by (simp add: timegm_def u f(8,9,10) add.assoc)
  also have "\<dots> = wrap64 t" unfolding u f(7) by (simp add: n_def)
  also have "\<dots> = t" using r by (simp add: utc_range_def)
  finally show ?thesis .
qed

section \<open>The search\<close>

text \<open>
  The comparison is a strict weak order either way, so the search finds the last transition that
  is not after the sentry.
\<close>

interpretation transition_order: strict_weak_order "Comp_less c" for c
  by unfold_locales (auto simp: Comp_less_def)

lemma Comp_equal_iff: "Comp_equal c x y \<longleftrightarrow> \<not> Comp_less c x y \<and> \<not> Comp_less c y x"
  by (auto simp: Comp_equal_def Comp_less_def)

definition zone_wf :: "Comp \<Rightarrow> Data \<Rightarrow> bool" where
  "zone_wf c d \<longleftrightarrow>
     sorted_wrt (Comp_less c) (transitions d) \<and> localtimes d \<noteq> [] \<and>
     list_all (\<lambda>t. 0 \<le> tr_localtimeIdx t \<and> tr_localtimeIdx t < int (length (localtimes d)))
       (transitions d)"

definition in_force :: "Data \<Rightarrow> Transition \<Rightarrow> Comp \<Rightarrow> Localtime" where
  "in_force d sentry c =
     (case rev (filter (\<lambda>t. \<not> Comp_less c sentry t) (transitions d)) of
        [] \<Rightarrow> hd (localtimes d)
      | t # _ \<Rightarrow> localtimes d ! nat (tr_localtimeIdx t))"

lemma in_force_nil:
  "filter (\<lambda>t. \<not> Comp_less c sentry t) (transitions d) = [] \<Longrightarrow>
    in_force d sentry c = hd (localtimes d)"
  by (simp add: in_force_def)

lemma in_force_snoc:
  "filter (\<lambda>t. \<not> Comp_less c sentry t) (transitions d) = ts @ [t] \<Longrightarrow>
    in_force d sentry c = localtimes d ! nat (tr_localtimeIdx t)"
  by (simp add: in_force_def)

lemma localtime_at_wf:
  "zone_wf c d \<Longrightarrow> t \<in> set (transitions d) \<Longrightarrow>
    localtime_at d (tr_localtimeIdx t) = Inr (localtimes d ! nat (tr_localtimeIdx t))"
  by (auto simp: zone_wf_def localtime_at_def list_all_iff)

lemma last_take_nth: "0 < p \<Longrightarrow> p \<le> length xs \<Longrightarrow> take p xs = take (p - 1) xs @ [xs ! (p - 1)]"
  using take_Suc_conv_app_nth [of "p - 1" xs] by simp

text \<open>
  On strictly sorted transitions whose indices are in range, \<open>findLocaltime\<close> returns
  the local time of the last transition that is not after the sentry, the first one of the table
  when every transition is after it: the assert in it never fails.
\<close>

theorem findLocaltime_last:
  assumes wf: "zone_wf c d"
  shows "findLocaltime d sentry c = Inr (in_force d sentry c)"
proof -
  let ?xs = "transitions d"
  define p where "p = lower_bound (Comp_less c) ?xs sentry"
  have s: "sorted_wrt (Comp_less c) ?xs" and l: "localtime_at d 0 = Inr (hd (localtimes d))"
    using wf by (simp_all add: zone_wf_def localtime_at_def hd_conv_nth)
  note f = transition_order.not_after_filter [OF s, of sentry, folded p_def]
  have le: "p \<le> length ?xs" by (simp add: p_def lower_bound_le)
  have at_p: "\<not> Comp_less c (?xs ! p) sentry" if "p < length ?xs"
    using that nth_length_takeWhile [of "\<lambda>y. Comp_less c y sentry" ?xs]
    by (simp add: p_def lower_bound_def)
  consider (before) "?xs = [] \<or> Comp_less c sentry (?xs ! 0)"
    | (past_end) "?xs \<noteq> []" "\<not> Comp_less c sentry (?xs ! 0)" "p = length ?xs"
    | (hit) "p < length ?xs" "?xs \<noteq> []" "\<not> Comp_less c sentry (?xs ! 0)" "\<not> Comp_less c sentry (?xs ! p)"
    | (between) "p < length ?xs" "?xs \<noteq> []" "\<not> Comp_less c sentry (?xs ! 0)" "Comp_less c sentry (?xs ! p)"
    using le by linarith
  then show ?thesis
  proof cases
    case before
    then have "p = 0"
      using transition_order.lt_asym [of c sentry "?xs ! 0"]
      by (cases ?xs) (auto simp: p_def lower_bound_def)
    with before f show ?thesis by (cases ?xs) (simp_all add: findLocaltime_def l in_force_nil)
  next
    case past_end
    then have "filter (\<lambda>t. \<not> Comp_less c sentry t) ?xs = butlast ?xs @ [last ?xs]" using f by simp
    note in_force_snoc [OF this]
    with past_end show ?thesis
      by (simp add: findLocaltime_def Let_def localtime_at_wf [OF wf] flip: p_def)
  next
    case hit
    then have "Comp_equal c sentry (?xs ! p)" using at_p by (simp add: Comp_equal_iff)
    with hit f show ?thesis
      by (simp add: findLocaltime_def Let_def in_force_snoc localtime_at_wf [OF wf] flip: p_def)
  next
    case between
    then have "\<not> Comp_equal c sentry (?xs ! p)" by (simp add: Comp_equal_iff)
    moreover from between have "p \<noteq> 0" by (metis)
    moreover from this between f le
    have "filter (\<lambda>t. \<not> Comp_less c sentry t) ?xs = take (p - 1) ?xs @ [?xs ! (p - 1)]"
      using last_take_nth [of p ?xs] by simp
    ultimately show ?thesis using between
      by (simp add: findLocaltime_def Let_def in_force_snoc localtime_at_wf [OF wf] cassert_def
          flip: p_def)
  qed
qed

definition demo_zone :: Data where
  "demo_zone =
     \<lparr>transitions = [Transition_of 1000 8200 1, Transition_of 20000 23600 0],
      localtimes = [Localtime_of 3600 False 0, Localtime_of 7200 True 4], names = [],
      zone_abbreviation = ''CET'' @ [CHR 0x00] @ ''CEST'' @ [CHR 0x00]\<rparr>"

theorem findLocaltime_last_witness:
  "findLocaltime demo_zone (Transition_of 5000 0 0) \<lparr>compareGmt = True\<rparr> = Inr (Localtime_of 7200 True 4)"
  using findLocaltime_last [of "\<lparr>compareGmt = True\<rparr>" demo_zone "Transition_of 5000 0 0"]
  by (simp add: zone_wf_def demo_zone_def Transition_of_def Comp_less_def in_force_def)

section \<open>Round trips\<close>

text \<open>
  C28. \<open>toUtcTime\<close> computes what the C library's \<open>gmtime_r\<close> computes, for every
  instant of some six thousand years before the epoch to the year 1390000, and leaves only
  the day of the year zero when it is not asked for.
\<close>

theorem toUtcTime_is_gmtime:
  assumes "utc_range t"
  shows "toUtcTime t True = gmtime_r t \<and> toUtcTime t False = (gmtime_r t)\<lparr>tm_yday := 0\<rparr>"
  using toUtcTime_eq [OF assms] by simp

theorem toUtcTime_is_gmtime_witness:
  "toUtcTime (- 1) True = gmtime_r (- 1) \<and> toUtcTime (- 1) False = (gmtime_r (- 1))\<lparr>tm_yday := 0\<rparr>"
  using toUtcTime_is_gmtime [of "- 1"] by (simp add: utc_range_def)

text \<open>
  \<open>fromUtcTime\<close> takes the broken-down time of \<open>toUtcTime\<close> back to the instant,
  with no intermediate overflow.
\<close>

theorem utc_roundtrip:
  assumes "utc_range t"
  shows "fromUtcTime (toUtcTime t yday) = t"
  unfolding toUtcTime_eq [OF assms] by (rule fromUtcTime_gmtime [OF assms]) simp_all

theorem utc_roundtrip_witness: "fromUtcTime (toUtcTime 951782400 False) = 951782400"
  using utc_roundtrip [of 951782400 False] by (simp add: utc_range_def)

lemma toLocalTime_fixed:
  "toLocalTime (TimeZone_fixed off name) t =
    Inr ((gmtime_r (add64 t off))\<lparr>tm_isdst := 0, tm_gmtoff := off,
      tm_zone := takeWhile (\<lambda>c. c \<noteq> CHR 0x00) name\<rparr>)"
  by (simp add: toLocalTime_def TimeZone_fixed_def cassert_def findLocaltime_def localtime_at_def
      empty_data_def Localtime_of_def zone_at_def Let_def)

lemma fromLocalTime_fixed:
  "tm_isdst u = 0 \<Longrightarrow> fromLocalTime (TimeZone_fixed off name) u = Inr (sub64 (timegm u) off)"
  by (simp add: fromLocalTime_def TimeZone_fixed_def cassert_def findLocaltime_def localtime_at_def
      empty_data_def Localtime_of_def Let_def)

text \<open>
  In a zone with a fixed offset, the local time of an instant is the UTC time of the
  instant shifted by the offset, labelled with the zone's name, and \<open>fromLocalTime\<close>
  takes it back to the instant.
\<close>

theorem fixed_zone_roundtrip:
  assumes "utc_range t" "utc_range (t + off)"
  shows "\<exists>u. toLocalTime (TimeZone_fixed off name) t = Inr u \<and> tm_gmtoff u = off \<and>
    u\<lparr>tm_gmtoff := 0, tm_zone := ''GMT''\<rparr> = toUtcTime (t + off) True \<and>
    fromLocalTime (TimeZone_fixed off name) u = Inr t"
proof -
  define u where "u = (gmtime_r (t + off))\<lparr>tm_isdst := 0, tm_gmtoff := off,
    tm_zone := takeWhile (\<lambda>c. c \<noteq> CHR 0x00) name\<rparr>"
  have "add64 t off = t + off" using assms(2) by (simp add: add64_def utc_range_def)
  then have "toLocalTime (TimeZone_fixed off name) t = Inr u" by (simp add: toLocalTime_fixed u_def)
  moreover have "u\<lparr>tm_gmtoff := 0, tm_zone := ''GMT''\<rparr> = toUtcTime (t + off) True"
    by (simp add: toUtcTime_eq [OF assms(2)] u_def gmtime_r_def Let_def)
  moreover have "timegm u = t + off" by (rule timegm_gmtime [OF assms(2)]) (simp_all add: u_def)
  then have "fromLocalTime (TimeZone_fixed off name) u = Inr t"
    using assms(1) by (simp add: fromLocalTime_fixed u_def sub64_def utc_range_def)
  ultimately show ?thesis by (intro exI [of _ u]) (simp add: u_def)
qed

theorem fixed_zone_roundtrip_witness:
  "\<exists>u. toLocalTime (TimeZone_fixed 28800 ''CST'') 0 = Inr u \<and> tm_gmtoff u = 28800 \<and>
    u\<lparr>tm_gmtoff := 0, tm_zone := ''GMT''\<rparr> = toUtcTime 28800 True \<and>
    fromLocalTime (TimeZone_fixed 28800 ''CST'') u = Inr 0"
  using fixed_zone_roundtrip [of 0 28800 "''CST''"] by (simp add: utc_range_def)

section \<open>Zone files\<close>

text \<open>A compiled zone file of version 1: header, counts, transition times and indices, types, names.\<close>

definition be32 :: "int \<Rightarrow> string" where
  "be32 x = rev (mem_of_int 4 x)"

definition zone_header :: "int \<Rightarrow> int \<Rightarrow> int \<Rightarrow> string" where
  "zone_header ntimes ntypes nchars =
     ''TZif'' @ replicate 16 CHR 0x00 @ be32 0 @ be32 0 @ be32 0 @ be32 ntimes @ be32 ntypes @ be32 nchars"

definition zone_file :: "Data \<Rightarrow> string" where
  "zone_file d =
     zone_header (int (length (transitions d))) (int (length (localtimes d)))
       (int (length (zone_abbreviation d))) @
     concat (map (be32 \<circ> tr_gmttime) (transitions d)) @
     map (char_of \<circ> tr_localtimeIdx) (transitions d) @
     concat (map (\<lambda>l. be32 (lt_gmtOffset l) @ [char_of (if lt_isDst l then 1 else 0 :: int), char_of (lt_arrbIdx l)])
       (localtimes d)) @
     zone_abbreviation d"

text \<open>The zones a file can hold: its integers have four bytes, its indices one.\<close>

definition storable :: "Data \<Rightarrow> bool" where
  "storable d \<longleftrightarrow>
     length (transitions d) < 2 ^ 31 \<and> length (localtimes d) < 2 ^ 31 \<and>
     length (zone_abbreviation d) < 2 ^ 31 \<and> names d = [] \<and>
     (\<forall>l \<in> set (localtimes d). in32 (lt_gmtOffset l) \<and> 0 \<le> lt_arrbIdx l \<and> lt_arrbIdx l < 256) \<and>
     (\<forall>t \<in> set (transitions d). in32 (tr_gmttime t) \<and> 0 \<le> tr_localtimeIdx t \<and> tr_localtimeIdx t < 256 \<and>
        tr_localtimeIdx t < int (length (localtimes d)) \<and>
        tr_localtime t = tr_gmttime t + lt_gmtOffset (localtimes d ! nat (tr_localtimeIdx t)))"

lemma length_be32 [simp]: "length (be32 x) = 4"
  by (simp add: be32_def)

lemma readInt32be_be32 [simp]: "in32 x \<Longrightarrow> readInt32be (be32 x @ f) = Inr (x, f)"
  using int_of_mem_of_int [of 4 x] by (simp add: readInt32be_def be32_def in32_def)

lemma readUInt8_char [simp]: "0 \<le> x \<Longrightarrow> x < 256 \<Longrightarrow> readUInt8 (char_of x # f) = Inr (x, f)"
  by (simp add: readUInt8_def)

lemma readBytes_append: "length xs = nat n \<Longrightarrow> 0 \<le> n \<Longrightarrow> readBytes n (xs @ f) = Inr (xs, f)"
  by (simp add: readBytes_def)

lemma read_times_append:
  assumes "\<And>x f. x \<in> set xs \<Longrightarrow> r (enc x @ f) = Inr (x, f)"
  shows "read_times r (length xs) (concat (map enc xs) @ f) = Inr (xs, f)"
  using assms by (induction xs) simp_all

lemma read_head_header:
  assumes "in32 ntimes" "in32 ntypes" "in32 nchars"
  shows "read_head (zone_header ntimes ntypes nchars @ f) =
    Inr (\<lparr>isgmtcnt = 0, isstdcnt = 0, leapcnt = 0, timecnt = ntimes, typecnt = ntypes, charcnt = nchars\<rparr>, f)"
proof -
  have z: "in32 0" by (simp add: in32_def)
  have r: "replicate 16 CHR 0x00 = [CHR 0x00] @ replicate 15 CHR 0x00" by (simp add: eval_nat_numeral)
  show ?thesis
    unfolding read_head_def zone_header_def r append_assoc
    by (simp only: readBytes_append bind_r_simps prod.case readInt32be_be32 z assms if_True if_False
        refl not_True_eq_False length_replicate list.size append_assoc)
qed

lemma read_localtimes_file:
  assumes "\<And>l. l \<in> set ls \<Longrightarrow> in32 (lt_gmtOffset l) \<and> 0 \<le> lt_arrbIdx l \<and> lt_arrbIdx l < 256"
  shows "read_localtimes (length ls)
      (concat (map (\<lambda>l. be32 (lt_gmtOffset l) @ [char_of (if lt_isDst l then 1 else 0 :: int), char_of (lt_arrbIdx l)]) ls) @ f) d =
    (d\<lparr>localtimes := localtimes d @ ls\<rparr>, Inr f)"
  using assms
proof (induction ls arbitrary: d)
  case (Cons l ls)
  have "readUInt8 (char_of (if lt_isDst l then 1 else 0 :: int) # g) =
      Inr (if lt_isDst l then 1 else 0, g)" for g
    by (rule readUInt8_char) simp_all
  moreover have "Localtime_of (lt_gmtOffset l) (lt_isDst l) (lt_arrbIdx l) = l"
    by (simp add: Localtime_of_def)
  ultimately show ?case using Cons.prems [of l] Cons.IH Cons.prems by (cases "lt_isDst l") simp_all
qed simp

lemma add_transitions_file:
  assumes "\<And>t. t \<in> set ts \<Longrightarrow> in32 (tr_gmttime t) \<and> 0 \<le> tr_localtimeIdx t \<and>
    tr_localtimeIdx t < int (length (localtimes d)) \<and>
    in32 (lt_gmtOffset (localtimes d ! nat (tr_localtimeIdx t))) \<and>
    tr_localtime t = tr_gmttime t + lt_gmtOffset (localtimes d ! nat (tr_localtimeIdx t))"
  shows "add_transitions (zip (map tr_gmttime ts) (map tr_localtimeIdx ts)) d =
    (d\<lparr>transitions := transitions d @ ts\<rparr>, Inr ())"
  using assms
proof (induction ts arbitrary: d)
  case (Cons t ts)
  note p = Cons.prems [of t, simplified]
  then have "Transition_of (tr_gmttime t)
      (add64 (tr_gmttime t) (lt_gmtOffset (localtimes d ! nat (tr_localtimeIdx t)))) (tr_localtimeIdx t) = t"
    by (simp add: Transition_of_def add64_def in32_def)
  with p Cons.IH [of "d\<lparr>transitions := transitions d @ [t]\<rparr>"] Cons.prems show ?case by simp
qed simp

lemma read_body_file:
  assumes s: "storable d"
  shows "read_body (zone_file d) empty_data = (d, Inr ())"
proof -
  let ?ts = "transitions d" and ?ls = "localtimes d"
  have n: "in32 (int (length ?ts))" "in32 (int (length ?ls))" "in32 (int (length (zone_abbreviation d)))"
    using s by (simp_all add: storable_def in32_def)
  have tt: "read_times readInt32be (length ?ts) (concat (map (be32 \<circ> tr_gmttime) ?ts) @ f) =
      Inr (map tr_gmttime ?ts, f)" for f
    using read_times_append [of "map tr_gmttime ?ts" readInt32be be32 f, simplified] s
    by (fastforce simp: storable_def)
  have ti: "read_times readUInt8 (length ?ts) (map (char_of \<circ> tr_localtimeIdx) ?ts @ f) =
      Inr (map tr_localtimeIdx ?ts, f)" for f
  proof -
    have "read_times readUInt8 (length (map tr_localtimeIdx ?ts))
        (concat (map (\<lambda>i. [char_of i]) (map tr_localtimeIdx ?ts)) @ f) = Inr (map tr_localtimeIdx ?ts, f)"
      by (rule read_times_append) (use s in \<open>auto simp: storable_def\<close>)
    then show ?thesis by (simp add: comp_def)
  qed
  have ll: "read_localtimes (length ?ls)
      (concat (map (\<lambda>l. be32 (lt_gmtOffset l) @ [char_of (if lt_isDst l then 1 else 0 :: int), char_of (lt_arrbIdx l)]) ?ls) @ f)
      empty_data = (empty_data\<lparr>localtimes := ?ls\<rparr>, Inr f)" for f
    using read_localtimes_file [of ?ls f empty_data] s by (simp add: storable_def empty_data_def)
  have tr: "add_transitions (zip (map tr_gmttime ?ts) (map tr_localtimeIdx ?ts))
      (empty_data\<lparr>localtimes := ?ls\<rparr>) = (empty_data\<lparr>localtimes := ?ls, transitions := ?ts\<rparr>, Inr ())"
  proof -
    have "add_transitions (zip (map tr_gmttime ?ts) (map tr_localtimeIdx ?ts))
        (empty_data\<lparr>localtimes := ?ls\<rparr>) =
      (empty_data\<lparr>localtimes := ?ls, transitions := transitions (empty_data\<lparr>localtimes := ?ls\<rparr>) @ ?ts\<rparr>, Inr ())"
      by (rule add_transitions_file) (use s in \<open>auto simp: storable_def nat_less_iff\<close>)
    then show ?thesis by (simp add: empty_data_def)
  qed
  have ch: "readBytes (int (length (zone_abbreviation d))) (zone_abbreviation d) = Inr (zone_abbreviation d, [])"
    using readBytes_append [of "zone_abbreviation d" "int (length (zone_abbreviation d))" "[]"] by simp
  have "read_body (zone_file d) empty_data = (empty_data\<lparr>localtimes := ?ls, transitions := ?ts,
      zone_abbreviation := zone_abbreviation d\<rparr>, Inr ())"
    unfolding read_body_def zone_file_def append_assoc read_head_header [OF n]
    by (simp add: tt ti ll tr ch)
  then show ?thesis using s by (simp add: empty_data_def storable_def)
qed

text \<open>
  C26. A well-formed zone file of version 1 is read back to exactly the zone it was written from:
  transitions with their local times, the table of local times and the abbreviations.
\<close>

theorem zone_file_roundtrip:
  assumes "storable d"
  shows "TimeZone_file (Some (zone_file d)) = Inr (Some d)"
  by (simp add: TimeZone_file_def readTimeZoneFile_def read_body_file [OF assms])

theorem zone_file_roundtrip_witness: "TimeZone_file (Some (zone_file demo_zone)) = Inr (Some demo_zone)"
  using zone_file_roundtrip [of demo_zone]
  by (simp add: storable_def demo_zone_def Transition_of_def Localtime_of_def in32_def)

text \<open>
  A missing file, and a file without the magic bytes, still give a zone that is \<open>valid()\<close>;
  converting any instant with it reads the front of an empty vector.
\<close>

theorem bad_zone_is_valid:
  assumes "file = None \<or> (\<exists>bytes. file = Some bytes \<and> 4 \<le> length bytes \<and> take 4 bytes \<noteq> ''TZif'')"
  shows "\<exists>z. TimeZone_file file = Inr z \<and> TimeZone_valid z \<and> toLocalTime z t = Inl Undefined"
proof -
  have "read_body bytes empty_data = (empty_data, Inl (LogicError ''bad head''))"
    if "4 \<le> length bytes" "take 4 bytes \<noteq> ''TZif''" for bytes
    using that by (simp add: read_body_def read_head_def readBytes_def)
  then have "TimeZone_file file = Inr (Some empty_data)"
    using assms by (auto simp: TimeZone_file_def readTimeZoneFile_def)
  moreover have "toLocalTime (Some empty_data) t = Inl Undefined"
    by (simp add: toLocalTime_def cassert_def findLocaltime_def localtime_at_def empty_data_def Let_def)
  ultimately show ?thesis by (auto simp: TimeZone_valid_def)
qed

theorem bad_zone_is_valid_witness:
  "\<exists>z. TimeZone_file None = Inr z \<and> TimeZone_valid z \<and> toLocalTime z 0 = Inl Undefined"
  using bad_zone_is_valid [of None 0] by simp

lemma readInt32be_if:
  "readInt32be f = (if length f < 4 then Inl (ThrowCString ''bad int32_t data'')
    else Inr (int_of_mem (rev (take 4 f)), drop 4 f))"
  by (simp add: readInt32be_def)

text \<open>
  A file that ends inside the six counts of its header is not reported as corrupt: the
  constructor throws a string literal, which the handler for \<open>logic_error\<close> does not catch.
\<close>

theorem truncated_counts_escape:
  assumes "take 4 bytes = ''TZif''" "20 \<le> length bytes" "length bytes < 44"
  shows "TimeZone_file (Some bytes) = Inl (ThrowCString ''bad int32_t data'')"
proof -
  have "read_head bytes = Inl (ThrowCString ''bad int32_t data'')"
    using assms by (simp add: read_head_def readBytes_def readInt32be_if)
  then show ?thesis by (simp add: TimeZone_file_def readTimeZoneFile_def read_body_def)
qed

theorem truncated_counts_escape_witness:
  "TimeZone_file (Some (take 30 (zone_header 1 1 4))) = Inl (ThrowCString ''bad int32_t data'')"
  using truncated_counts_escape [of "take 30 (zone_header 1 1 4)"]
  by (simp add: zone_header_def)

end
