(* ===== verification/LogStream.thy ===== *)
theory LogStream
  imports Prelude "HOL-Library.Sublist"
begin

text \<open>
  \<open>base::FixedBuffer\<close> and \<open>base::LogStream\<close> (src/base/LogStream.h,
  src/base/LogStream.cc): a buffer of fixed size that drops what does not fit, and the formatted
  insertions into it. The memory of a buffer is the list of its \<open>SIZE\<close> bytes,
  \<open>cur_\<close> an offset into it. The text that \<open>snprintf\<close> makes of a floating point
  value is an argument.
\<close>

section \<open>FixedBuffer\<close>

definition kSmallBuffer :: nat where
  "kSmallBuffer = 4000"

definition kLargeBuffer :: nat where
  "kLargeBuffer = 4000 * 1000"

record FixedBuffer =
  fb_data :: string
  fb_cur :: nat

text \<open>The constructor leaves \<open>data_\<close> as it finds the memory.\<close>

definition FixedBuffer_new :: "string \<Rightarrow> FixedBuffer" where
  "FixedBuffer_new mem = \<lparr>fb_data = mem, fb_cur = 0\<rparr>"

definition fb_length :: "FixedBuffer \<Rightarrow> int" where
  "fb_length b = wrap32 (int (fb_cur b))"

definition fb_avail :: "FixedBuffer \<Rightarrow> int" where
  "fb_avail b = wrap32 (int (length (fb_data b)) - int (fb_cur b))"

definition fb_add :: "nat \<Rightarrow> FixedBuffer \<Rightarrow> FixedBuffer" where
  "fb_add len b = b\<lparr>fb_cur := fb_cur b + len\<rparr>"

definition fb_write :: "string \<Rightarrow> FixedBuffer \<Rightarrow> FixedBuffer res" where
  "fb_write xs b = bind_r (vec_store (fb_cur b) xs (fb_data b)) (\<lambda>d. Inr (b\<lparr>fb_data := d\<rparr>))"

definition fb_append :: "string \<Rightarrow> FixedBuffer \<Rightarrow> FixedBuffer res" where
  "fb_append buf b =
     (if fb_avail b > wrap32 (int (length buf))
      then bind_r (fb_write buf b) (\<lambda>b. Inr (fb_add (length buf) b))
      else Inr b)"

definition fb_reset :: "FixedBuffer \<Rightarrow> FixedBuffer" where
  "fb_reset b = b\<lparr>fb_cur := 0\<rparr>"

definition fb_bzero :: "FixedBuffer \<Rightarrow> FixedBuffer" where
  "fb_bzero b = b\<lparr>fb_data := replicate (length (fb_data b)) (CHR 0x00)\<rparr>"

section \<open>Integers\<close>

definition digits :: string where
  "digits = ''9876543210123456789''"

definition zero_at :: "int \<Rightarrow> char" where
  "zero_at lsd = digits ! nat (9 + lsd)"

lemma abs_sdiv: "nat \<bar>i sdiv 10\<bar> = nat \<bar>i\<bar> div 10" for i :: int
proof -
  have "\<bar>i sdiv 10\<bar> = \<bar>i\<bar> div 10" by (auto simp: signed_divide_int_def sgn_if abs_mult)
  then show ?thesis by (simp add: nat_div_distrib)
qed

text \<open>The loop, least significant digit first; \<open>%\<close> has the sign of the dividend.\<close>

function convert_digits :: "int \<Rightarrow> string" where
  "convert_digits i =
     zero_at (i smod 10) # (if i sdiv 10 \<noteq> 0 then convert_digits (i sdiv 10) else [])"
  by auto
termination
proof (relation "measure (\<lambda>i. nat \<bar>i\<bar>)")
  fix i :: int
  assume "i sdiv 10 \<noteq> 0"
  then have "i \<noteq> 0" by auto
  then show "(i sdiv 10, i) \<in> measure (\<lambda>i. nat \<bar>i\<bar>)" by (simp add: abs_sdiv)
qed simp

declare convert_digits.simps [simp del]

definition convert :: "int \<Rightarrow> string" where
  "convert value = rev (convert_digits value @ (if value < 0 then ''-'' else []))"

section \<open>LogStream\<close>

definition kMaxNumericSize :: nat where
  "kMaxNumericSize = 32"

type_synonym LogStream = FixedBuffer

definition formatInteger :: "int \<Rightarrow> LogStream \<Rightarrow> LogStream res" where
  "formatInteger v b =
     (if fb_avail b \<ge> int kMaxNumericSize
      then bind_r (fb_write (convert v @ [CHR 0x00]) b) (\<lambda>b. Inr (fb_add (length (convert v)) b))
      else Inr b)"

definition shl_bool :: "bool \<Rightarrow> LogStream \<Rightarrow> LogStream res" where
  "shl_bool v b = fb_append (if v then ''1'' else ''0'') b"

definition shl_int :: "int \<Rightarrow> LogStream \<Rightarrow> LogStream res" where
  "shl_int v b = formatInteger v b"

definition shl_uint :: "int \<Rightarrow> LogStream \<Rightarrow> LogStream res" where
  "shl_uint v b = formatInteger v b"

definition shl_short :: "int \<Rightarrow> LogStream \<Rightarrow> LogStream res" where
  "shl_short v b = shl_int v b"

definition shl_ushort :: "int \<Rightarrow> LogStream \<Rightarrow> LogStream res" where
  "shl_ushort v b = shl_uint v b"

definition shl_long :: "int \<Rightarrow> LogStream \<Rightarrow> LogStream res" where
  "shl_long v b = formatInteger v b"

definition shl_ulong :: "int \<Rightarrow> LogStream \<Rightarrow> LogStream res" where
  "shl_ulong v b = formatInteger v b"

definition shl_double :: "('d \<Rightarrow> string) \<Rightarrow> 'd \<Rightarrow> LogStream \<Rightarrow> LogStream res" where
  "shl_double fmt_12g v b =
     (if fb_avail b \<ge> int kMaxNumericSize
      then bind_r (fb_write (snprintf_to kMaxNumericSize (fmt_12g v) @ [CHR 0x00]) b)
             (\<lambda>b. Inr (fb_add (length (fmt_12g v)) b))
      else Inr b)"

definition shl_float :: "('d \<Rightarrow> string) \<Rightarrow> ('f \<Rightarrow> 'd) \<Rightarrow> 'f \<Rightarrow> LogStream \<Rightarrow> LogStream res" where
  "shl_float fmt_12g to_double v b = shl_double fmt_12g (to_double v) b"

definition shl_char :: "char \<Rightarrow> LogStream \<Rightarrow> LogStream res" where
  "shl_char v b = fb_append [v] b"

text \<open>A C string is what comes before its NUL; \<open>None\<close> is the null pointer.\<close>

definition shl_cstr :: "string option \<Rightarrow> LogStream \<Rightarrow> LogStream res" where
  "shl_cstr str b =
     (case str of
        Some s \<Rightarrow> fb_append (takeWhile (\<lambda>c. c \<noteq> CHR 0x00) s) b
      | None \<Rightarrow> fb_append ''(null)'' b)"

definition shl_string :: "string \<Rightarrow> LogStream \<Rightarrow> LogStream res" where
  "shl_string v b = fb_append v b"

definition shl_ucstr :: "string option \<Rightarrow> LogStream \<Rightarrow> LogStream res" where
  "shl_ucstr str b = shl_cstr str b"

definition stream_append :: "string \<Rightarrow> LogStream \<Rightarrow> LogStream res" where
  "stream_append data b = fb_append data b"

definition resetBuffer :: "LogStream \<Rightarrow> LogStream" where
  "resetBuffer b = fb_reset b"

section \<open>The conversion of integers\<close>

lemma zero_at_digit:
  assumes "0 \<le> d" "d < 10"
  shows "zero_at d = char_of (48 + nat d)" "zero_at (- d) = char_of (48 + nat d)"
proof -
  have "d \<in> set [0..9]" using assms by simp
  moreover have "[0..9] = [0, 1, 2, 3, 4, 5, 6, 7, 8, 9 :: int]" by code_simp
  ultimately have "d \<in> {0, 1, 2, 3, 4, 5, 6, 7, 8, 9}" by (simp only: list.set)
  then have "zero_at d = char_of (48 + nat d) \<and> zero_at (- d) = char_of (48 + nat d)"
    by (elim insertE emptyE) (simp_all add: zero_at_def digits_def char_of_def bit_Suc_0_iff)
  then show "zero_at d = char_of (48 + nat d)" "zero_at (- d) = char_of (48 + nat d)" by simp_all
qed

lemma zero_at_smod: "zero_at (i smod 10) = char_of (48 + nat \<bar>i\<bar> mod 10)"
proof -
  have "i smod 10 = (if i < 0 then - (\<bar>i\<bar> mod 10) else \<bar>i\<bar> mod 10)"
    by (auto simp: signed_modulo_int_def sgn_if)
  moreover have "nat (\<bar>i\<bar> mod 10) = nat \<bar>i\<bar> mod 10" by (simp add: nat_mod_distrib)
  ultimately show ?thesis
    using zero_at_digit [of "\<bar>i\<bar> mod 10"] by (simp split: if_splits del: abs_of_neg abs_of_nonneg)
qed

lemma convert_digits_dec: "convert_digits i = rev (dec_nat (nat \<bar>i\<bar>))"
proof (induction i rule: convert_digits.induct)
  case (1 i)
  have z: "i sdiv 10 = 0 \<longleftrightarrow> nat \<bar>i\<bar> < 10"
    using abs_sdiv [of i] by (auto simp: div_eq_0_iff)
  show ?case
  proof (cases "i sdiv 10 = 0")
    case True
    then show ?thesis
      using z by (subst convert_digits.simps, subst dec_nat.simps) (simp add: zero_at_smod)
  next
    case False
    with 1 z show ?thesis
      by (subst convert_digits.simps, subst dec_nat.simps) (simp add: zero_at_smod abs_sdiv)
  qed
qed

lemma convert_dec: "convert v = dec_int v"
  by (auto simp: convert_def convert_digits_dec dec_int_def)

section \<open>What fits\<close>

definition fb_text :: "FixedBuffer \<Rightarrow> string" where
  "fb_text b = take (fb_cur b) (fb_data b)"

text \<open>The sizes of the two instances fit an \<open>int\<close>.\<close>

definition fb_wf :: "FixedBuffer \<Rightarrow> bool" where
  "fb_wf b \<longleftrightarrow> fb_cur b \<le> length (fb_data b) \<and> length (fb_data b) < 2 ^ 31"

definition fb_room :: "FixedBuffer \<Rightarrow> nat" where
  "fb_room b = length (fb_data b) - fb_cur b"

lemma fb_avail_room: "fb_wf b \<Longrightarrow> fb_avail b = int (fb_room b)"
  by (simp add: fb_wf_def fb_avail_def fb_room_def of_nat_diff)

lemma fb_write_ok:
  assumes "fb_wf b" "length xs \<le> fb_room b" "n \<le> length xs"
  shows "\<exists>b'. bind_r (fb_write xs b) (\<lambda>b. Inr (fb_add n b)) = Inr b' \<and> fb_wf b' \<and>
    length (fb_data b') = length (fb_data b) \<and>
    fb_room b' + n = fb_room b \<and> fb_text b' = fb_text b @ take n xs"
  using assms by (auto simp: fb_wf_def fb_room_def fb_write_def fb_add_def fb_text_def)

text \<open>
  The contract of a log sink: an entry goes in whole or not at all, and it goes in when there is
  more room than it takes plus a slack. The clients' view of a sequence of entries follows.
\<close>

locale log_sink =
  fixes put :: "'i \<Rightarrow> 'b \<Rightarrow> 'b res"
    and wf :: "'b \<Rightarrow> bool"
    and held :: "'b \<Rightarrow> string"
    and room :: "'b \<Rightarrow> nat"
    and item_text :: "'i \<Rightarrow> string"
    and item_ok :: "'i \<Rightarrow> bool"
    and slack :: nat
  assumes put_atomic: "wf b \<Longrightarrow> item_ok i \<Longrightarrow> \<exists>b'. put i b = Inr b' \<and> wf b' \<and>
      (held b' = held b \<and> room b' = room b \<or>
       held b' = held b @ item_text i \<and> room b = room b' + length (item_text i))"
    and put_fits: "wf b \<Longrightarrow> item_ok i \<Longrightarrow> length (item_text i) + slack \<le> room b \<Longrightarrow>
      put i b = Inr b' \<Longrightarrow> held b' = held b @ item_text i \<and> room b = room b' + length (item_text i)"
begin

fun puts :: "'i list \<Rightarrow> 'b \<Rightarrow> 'b res" where
  "puts [] b = Inr b"
| "puts (i # is) b = bind_r (put i b) (puts is)"

lemma puts_append: "puts (xs @ ys) b = bind_r (puts xs b) (puts ys)"
  by (induction xs arbitrary: b) (simp_all add: bind_r_def split: sum.split)

text \<open>Any sequence of entries ends with a subsequence of them in the sink, in order.\<close>

lemma puts_subseq:
  assumes "wf b" "list_all item_ok is"
  shows "\<exists>b' kept. puts is b = Inr b' \<and> wf b' \<and> subseq kept is \<and>
    held b' = held b @ concat (map item_text kept)"
  using assms
proof (induction "is" arbitrary: b)
  case Nil
  then show ?case by (auto intro: exI [of _ "[]"])
next
  case (Cons i "is")
  then obtain b1 where b1: "put i b = Inr b1" "wf b1"
    "held b1 = held b \<or> held b1 = held b @ item_text i"
    using put_atomic [of b i] by auto
  from Cons.IH [OF b1(2)] Cons.prems obtain b' kept where
    k: "puts is b1 = Inr b'" "wf b'" "subseq kept is" "held b' = held b1 @ concat (map item_text kept)"
    by auto
  show ?case
  proof (cases "held b1 = held b")
    case True
    with b1 k show ?thesis by (auto intro!: exI [of _ kept])
  next
    case False
    with b1 k show ?thesis by (auto intro!: exI [of _ "i # kept"])
  qed
qed

text \<open>Entries that fit altogether, slack included, all go in.\<close>

lemma puts_fit:
  assumes "wf b" "list_all item_ok is" "length (concat (map item_text is)) + slack \<le> room b"
    and "puts is b = Inr b'"
  shows "held b' = held b @ concat (map item_text is)"
  using assms
proof (induction "is" arbitrary: b)
  case (Cons i "is")
  then obtain b1 where b1: "put i b = Inr b1" "wf b1" using put_atomic [of b i] by auto
  moreover from Cons.prems b1 have "held b1 = held b @ item_text i" "room b = room b1 + length (item_text i)"
    using put_fits [of b i b1] by auto
  ultimately show ?case using Cons.IH [of b1] Cons.prems by simp
qed simp

end

lemma fb_append_atomic:
  assumes "fb_wf b" "length buf < 2 ^ 31"
  shows "\<exists>b'. fb_append buf b = Inr b' \<and> fb_wf b' \<and>
    (if length buf < fb_room b then fb_text b' = fb_text b @ buf \<and> fb_room b = fb_room b' + length buf
     else b' = b)"
proof -
  have "wrap32 (int (length buf)) = int (length buf)" using assms(2) by simp
  then show ?thesis
    using assms(1) fb_write_ok [of b buf "length buf"] by (auto simp: fb_append_def fb_avail_room)
qed

text \<open>The insertion operators, as entries.\<close>

datatype log_item = Bool_item bool | Short_item int | UShort_item int | Int_item int | UInt_item int
  | Long_item int | ULong_item int | Char_item char | CStr_item "string option" | UCStr_item "string option"
  | Str_item string

fun shl_item :: "log_item \<Rightarrow> LogStream \<Rightarrow> LogStream res" where
  "shl_item (Bool_item v) b = shl_bool v b"
| "shl_item (Short_item v) b = shl_short v b"
| "shl_item (UShort_item v) b = shl_ushort v b"
| "shl_item (Int_item v) b = shl_int v b"
| "shl_item (UInt_item v) b = shl_uint v b"
| "shl_item (Long_item v) b = shl_long v b"
| "shl_item (ULong_item v) b = shl_ulong v b"
| "shl_item (Char_item c) b = shl_char c b"
| "shl_item (CStr_item s) b = shl_cstr s b"
| "shl_item (UCStr_item s) b = shl_ucstr s b"
| "shl_item (Str_item s) b = shl_string s b"

fun item_text :: "log_item \<Rightarrow> string" where
  "item_text (Bool_item v) = (if v then ''1'' else ''0'')"
| "item_text (Short_item v) = dec_int v"
| "item_text (UShort_item v) = dec_int v"
| "item_text (Int_item v) = dec_int v"
| "item_text (UInt_item v) = dec_int v"
| "item_text (Long_item v) = dec_int v"
| "item_text (ULong_item v) = dec_int v"
| "item_text (Char_item c) = [c]"
| "item_text (CStr_item s) = (case s of Some t \<Rightarrow> takeWhile (\<lambda>c. c \<noteq> CHR 0x00) t | None \<Rightarrow> ''(null)'')"
| "item_text (UCStr_item s) = (case s of Some t \<Rightarrow> takeWhile (\<lambda>c. c \<noteq> CHR 0x00) t | None \<Rightarrow> ''(null)'')"
| "item_text (Str_item s) = s"

fun item_ok :: "log_item \<Rightarrow> bool" where
  "item_ok (Short_item v) \<longleftrightarrow> - (2 ^ 15) \<le> v \<and> v < 2 ^ 15"
| "item_ok (UShort_item v) \<longleftrightarrow> 0 \<le> v \<and> v < 2 ^ 16"
| "item_ok (Int_item v) \<longleftrightarrow> - (2 ^ 31) \<le> v \<and> v < 2 ^ 31"
| "item_ok (UInt_item v) \<longleftrightarrow> 0 \<le> v \<and> v < 2 ^ 32"
| "item_ok (Long_item v) \<longleftrightarrow> - (2 ^ 63) \<le> v \<and> v < 2 ^ 63"
| "item_ok (ULong_item v) \<longleftrightarrow> 0 \<le> v \<and> v < 2 ^ 64"
| "item_ok (CStr_item (Some s)) \<longleftrightarrow> length s < 2 ^ 31"
| "item_ok (UCStr_item (Some s)) \<longleftrightarrow> length s < 2 ^ 31"
| "item_ok (Str_item s) \<longleftrightarrow> length s < 2 ^ 31"
| "item_ok _ \<longleftrightarrow> True"

lemma convert_length:
  assumes "- (2 ^ 63) \<le> v" "v < 2 ^ 64"
  shows "length (convert v) \<le> 20"
proof (cases "v < 0")
  case True
  then have "nat (- v) < 10 ^ 19" using assms by simp
  with True show ?thesis
    using length_dec_nat_le [of "nat (- v)" 19] by (simp add: convert_dec dec_int_def)
next
  case False
  then have "nat v < 10 ^ 20" using assms by simp
  with False show ?thesis
    using length_dec_nat_le [of "nat v" 20] by (simp add: convert_dec dec_int_def)
qed

lemma formatInteger_atomic:
  assumes "fb_wf b" "- (2 ^ 63) \<le> v" "v < 2 ^ 64"
  shows "\<exists>b'. formatInteger v b = Inr b' \<and> fb_wf b' \<and>
    (if 32 \<le> fb_room b then fb_text b' = fb_text b @ dec_int v \<and> fb_room b = fb_room b' + length (dec_int v)
     else b' = b)"
  using assms convert_length [OF assms(2,3)] fb_write_ok [of b "convert v @ [CHR 0x00]" "length (convert v)"]
  by (auto simp: formatInteger_def fb_avail_room kMaxNumericSize_def simp flip: convert_dec)

lemmas shl_defs = shl_bool_def shl_short_def shl_ushort_def shl_int_def shl_uint_def shl_long_def
  shl_ulong_def shl_char_def shl_ucstr_def shl_cstr_def shl_string_def

lemma shl_item_atomic:
  assumes "fb_wf b" "item_ok i"
  shows "\<exists>b'. shl_item i b = Inr b' \<and> fb_wf b' \<and>
    (b' = b \<and> fb_room b < length (item_text i) + 32 \<or>
     fb_text b' = fb_text b @ item_text i \<and> fb_room b = fb_room b' + length (item_text i))"
proof -
  consider (int) v where "shl_item i b = formatInteger v b" "item_text i = dec_int v" "- (2 ^ 63) \<le> v" "v < 2 ^ 64"
    | (str) s where "shl_item i b = fb_append s b" "item_text i = s" "length s < 2 ^ 31"
    using assms(2)
    by (cases i rule: item_ok.cases)
      (auto simp: shl_defs split: option.splits intro: le_less_trans [OF length_takeWhile_le])
  then show ?thesis
  proof cases
    case int
    with formatInteger_atomic [OF assms(1) int(3,4)] show ?thesis by (auto split: if_splits)
  next
    case str
    with fb_append_atomic [OF assms(1) str(3)] show ?thesis by (auto split: if_splits)
  qed
qed

interpretation stream: log_sink shl_item fb_wf fb_text fb_room item_text item_ok 32
proof
  show "fb_wf b \<Longrightarrow> item_ok i \<Longrightarrow> \<exists>b'. shl_item i b = Inr b' \<and> fb_wf b' \<and>
      (fb_text b' = fb_text b \<and> fb_room b' = fb_room b \<or>
       fb_text b' = fb_text b @ item_text i \<and> fb_room b = fb_room b' + length (item_text i))" for b i
    using shl_item_atomic [of b i] by blast
  show "fb_text b' = fb_text b @ item_text i \<and> fb_room b = fb_room b' + length (item_text i)"
    if "fb_wf b" "item_ok i" "length (item_text i) + 32 \<le> fb_room b" "shl_item i b = Inr b'" for b i b'
    using shl_item_atomic [of b i] that by auto
qed

lemma stream_size:
  "stream.puts entries b = Inr b' \<Longrightarrow> fb_wf b \<Longrightarrow> list_all item_ok entries \<Longrightarrow>
    length (fb_text b') \<le> length (fb_text b) + fb_room b"
proof (induction entries arbitrary: b)
  case (Cons i entries)
  then obtain b1 where b1: "shl_item i b = Inr b1" "fb_wf b1" "stream.puts entries b1 = Inr b'"
    "length (fb_text b1) + fb_room b1 = length (fb_text b) + fb_room b"
    using shl_item_atomic [of b i] by auto
  with Cons.IH [OF b1(3,2)] Cons.prems show ?case by simp
qed simp

section \<open>Properties\<close>

text \<open>
  C33. \<open>convert\<close>, with its table read at negative indices for negative remainders,
  produces the decimal text of every 64-bit value, signed or unsigned, the smallest included;
  with its NUL it takes less than the room \<open>formatInteger\<close> asks for.
\<close>

theorem convert_is_decimal:
  assumes "- (2 ^ 63) \<le> v" "v < 2 ^ 64"
  shows "convert v = dec_int v \<and> length (convert v @ [CHR 0x00]) < kMaxNumericSize"
  using convert_length [OF assms] by (simp add: convert_dec kMaxNumericSize_def)

theorem convert_is_decimal_witness:
  "convert (- 9223372036854775808) = dec_int (- 9223372036854775808) \<and>
    length (convert (- 9223372036854775808) @ [CHR 0x00]) < kMaxNumericSize"
  by (rule convert_is_decimal) simp_all



text \<open>
  The size of a string is compared after a cast to \<open>int\<close>: from 2 GB on it is
  negative, so \<open>append\<close> writes past the end of any buffer.
\<close>

theorem huge_append_overflows:
  assumes "fb_wf b" "2 ^ 31 \<le> length s" "length s < 2 ^ 32"
  shows "shl_string s b = Inl Undefined"
proof -
  have "wrap32 (int (length s)) = int (length s) - 4294967296"
    using wrap32_shift [of "int (length s)" "- 1"] assms(2,3) by simp
  then have "wrap32 (int (length s)) < fb_avail b"
    using assms fb_avail_room [OF assms(1)] by simp
  moreover have "\<not> fb_cur b + length s \<le> length (fb_data b)" using assms by (simp add: fb_wf_def)
  ultimately show ?thesis by (simp add: shl_string_def fb_append_def fb_write_def vec_store_def)
qed

theorem huge_append_overflows_witness:
  "shl_string (replicate (2 ^ 31) (CHR ''a'')) (FixedBuffer_new (replicate 4000 CHR 0x00)) = Inl Undefined"
  by (rule huge_append_overflows) (simp_all add: fb_wf_def FixedBuffer_new_def)

end
