(* ===== verification/Channel.thy ===== *)
theory Channel
  imports Prelude "HOL-Library.Word"
begin

text \<open>
  \<open>net::Channel\<close> and \<open>net::Epoller\<close> (src/net/Channel.h, Channel.cc, Epoller.h,
  Epoller.cc): the events a descriptor waits for, their dispatch, and what is asked of the
  kernel. A channel is polymorphic in its callbacks. What the code asks of the kernel is a value
  (\<open>ctl\<close>), what the kernel does with it an argument of the lemmas.
\<close>

unbundle bit_operations_syntax

section \<open>Channel\<close>

text \<open>The bits of <sys/epoll.h>.\<close>

definition kReadEvent :: "32 word" where
  "kReadEvent = 0x001"

definition kWriteEvent :: "32 word" where
  "kWriteEvent = 0x004"

text \<open>An empty \<open>std::function\<close> is \<open>None\<close>; calling it throws \<open>bad_function_call\<close>.\<close>

record 'cb Channel =
  ch_fd :: int
  ch_events :: "32 word"
  ch_revents :: "32 word"
  ch_readCallback :: "'cb option"
  ch_writeCallback :: "'cb option"

definition Channel_new :: "int \<Rightarrow> 'cb Channel" where
  "Channel_new fd =
     \<lparr>ch_fd = fd, ch_events = 0, ch_revents = 0, ch_readCallback = None, ch_writeCallback = None\<rparr>"

definition setReadCallback :: "'cb \<Rightarrow> 'cb Channel \<Rightarrow> 'cb Channel" where
  "setReadCallback cb c = c\<lparr>ch_readCallback := Some cb\<rparr>"

definition setWriteCallback :: "'cb \<Rightarrow> 'cb Channel \<Rightarrow> 'cb Channel" where
  "setWriteCallback cb c = c\<lparr>ch_writeCallback := Some cb\<rparr>"

definition set_revents :: "32 word \<Rightarrow> 'cb Channel \<Rightarrow> 'cb Channel" where
  "set_revents ev c = c\<lparr>ch_revents := ev\<rparr>"

definition isReading :: "'cb Channel \<Rightarrow> bool" where
  "isReading c \<longleftrightarrow> ch_events c AND kReadEvent \<noteq> 0"

definition isWriting :: "'cb Channel \<Rightarrow> bool" where
  "isWriting c \<longleftrightarrow> ch_events c AND kWriteEvent \<noteq> 0"

text \<open>
  The dispatch of an event. A callback works on the whole state; the channel is looked up in it
  again after the first call, as the code reads its members again.
\<close>

definition invoke :: "('cb \<Rightarrow> 's \<Rightarrow> 's res) \<Rightarrow> 'cb option \<Rightarrow> 's \<Rightarrow> 's res" where
  "invoke run cb s = (case cb of None \<Rightarrow> Inl BadFunctionCall | Some f \<Rightarrow> run f s)"

definition handleEvent :: "('cb \<Rightarrow> 's \<Rightarrow> 's res) \<Rightarrow> ('s \<Rightarrow> 'cb Channel) \<Rightarrow> 's \<Rightarrow> 's res" where
  "handleEvent run self s =
     bind_r (if ch_revents (self s) AND kReadEvent \<noteq> 0
             then invoke run (ch_readCallback (self s)) s else Inr s) (\<lambda>s.
     if ch_revents (self s) AND kWriteEvent \<noteq> 0
     then invoke run (ch_writeCallback (self s)) s else Inr s)"

section \<open>Epoller\<close>

text \<open>A call of \<open>epoll_ctl\<close>: the operation, the descriptor, the events and the channel's address.\<close>

datatype ctl_op = EPOLL_CTL_ADD | EPOLL_CTL_MOD | EPOLL_CTL_DEL

record ctl =
  ctl_op :: ctl_op
  ctl_fd :: int
  ctl_events :: "32 word"
  ctl_ptr :: nat

definition MAXEVENTS :: nat where
  "MAXEVENTS = 1024"

text \<open>The result of \<open>epoll_create1\<close> is an argument.\<close>

definition Epoller_new :: "int \<Rightarrow> int res" where
  "Epoller_new epfd = cassert (epfd \<noteq> - 1) (Inr epfd)"

definition Epoller_update :: "nat \<Rightarrow> 'cb Channel \<Rightarrow> ctl" where
  "Epoller_update addr channel =
     \<lparr>ctl_op = EPOLL_CTL_ADD, ctl_fd = ch_fd channel, ctl_events = ch_events channel, ctl_ptr = addr\<rparr>"

text \<open>
  What \<open>epoll_wait\<close> reports is the list of the events and addresses it filled in, empty
  when it fails. A store maps addresses to the channels that live there.
\<close>

fun Epoller_poll ::
  "(32 word \<times> nat) list \<Rightarrow> (nat \<Rightarrow> 'cb Channel option) \<Rightarrow> nat list \<Rightarrow>
     ((nat \<Rightarrow> 'cb Channel option) \<times> nat list) res" where
  "Epoller_poll [] store channels = Inr (store, channels)"
| "Epoller_poll ((ev, addr) # ready) store channels =
     (case store addr of
        None \<Rightarrow> Inl Undefined
      | Some ch \<Rightarrow>
          Epoller_poll ready (store(addr \<mapsto> set_revents ev ch)) (channels @ [addr]))"

section \<open>Enabling\<close>

text \<open>
  \<open>Channel::update\<close> goes through \<open>EventLoop::update\<close> to the poller: each call
  yields the changed channel and the request made of the kernel.
\<close>

definition Channel_update :: "nat \<Rightarrow> 'cb Channel \<Rightarrow> 'cb Channel \<times> ctl" where
  "Channel_update addr c = (c, Epoller_update addr c)"

definition enableReading :: "bool \<Rightarrow> nat \<Rightarrow> 'cb Channel \<Rightarrow> 'cb Channel \<times> ctl" where
  "enableReading enable addr c =
     Channel_update addr
       (c\<lparr>ch_events := (if enable then ch_events c OR kReadEvent else ch_events c AND NOT kReadEvent)\<rparr>)"

definition enableWriting :: "bool \<Rightarrow> nat \<Rightarrow> 'cb Channel \<Rightarrow> 'cb Channel \<times> ctl" where
  "enableWriting enable addr c =
     Channel_update addr
       (c\<lparr>ch_events := (if enable then ch_events c OR kWriteEvent else ch_events c AND NOT kWriteEvent)\<rparr>)"

section \<open>The two bits\<close>

lemma event_bits_nonzero [simp]: "kReadEvent \<noteq> 0" "kWriteEvent \<noteq> 0"
  by (simp_all add: kReadEvent_def kWriteEvent_def)

lemma bits_simps:
  "(w OR kReadEvent) AND kReadEvent \<noteq> 0" "(w OR kWriteEvent) AND kWriteEvent \<noteq> 0"
  "(w AND NOT kReadEvent) AND kReadEvent = 0" "(w AND NOT kWriteEvent) AND kWriteEvent = 0"
  "(w OR kReadEvent) AND kWriteEvent = w AND kWriteEvent"
  "(w OR kWriteEvent) AND kReadEvent = w AND kReadEvent"
  "(w AND NOT kReadEvent) AND kWriteEvent = w AND kWriteEvent"
  "(w AND NOT kWriteEvent) AND kReadEvent = w AND kReadEvent" for w :: "32 word"
proof -
  have rw: "kReadEvent AND kWriteEvent = 0" "kWriteEvent AND kReadEvent = 0"
    "NOT kReadEvent AND kWriteEvent = kWriteEvent" "NOT kWriteEvent AND kReadEvent = kReadEvent"
    by (simp_all add: kReadEvent_def kWriteEvent_def)
  have absorb: "(w OR e) AND e = e" for w e :: "32 word" by (rule bit_eqI) (auto simp: bit_simps)
  show "(w OR kReadEvent) AND kReadEvent \<noteq> 0" "(w OR kWriteEvent) AND kWriteEvent \<noteq> 0"
    by (simp_all add: absorb)
  show "(w AND NOT kReadEvent) AND kReadEvent = 0" "(w AND NOT kWriteEvent) AND kWriteEvent = 0"
    by (simp_all add: and.assoc)
  show "(w OR kReadEvent) AND kWriteEvent = w AND kWriteEvent"
    "(w OR kWriteEvent) AND kReadEvent = w AND kReadEvent"
    by (simp_all add: bit.conj_disj_distrib2 rw)
  show "(w AND NOT kReadEvent) AND kWriteEvent = w AND kWriteEvent"
    "(w AND NOT kWriteEvent) AND kReadEvent = w AND kReadEvent"
    by (simp_all add: and.assoc rw)
qed

lemma enable_flags [simp]:
  "isReading (fst (enableReading e a c)) = e" "isWriting (fst (enableReading e a c)) = isWriting c"
  "isReading (fst (enableWriting e a c)) = isReading c" "isWriting (fst (enableWriting e a c)) = e"
  by (simp_all add: enableReading_def enableWriting_def Channel_update_def isReading_def isWriting_def
      bits_simps)

section \<open>Polling\<close>

text \<open>Every reported channel is returned, in order, with its \<open>revents_\<close>; no other is touched.\<close>

lemma Epoller_poll_result:
  assumes "distinct (map snd ready)" "\<forall>a \<in> snd ` set ready. store a \<noteq> None"
  shows "\<exists>store'. Epoller_poll ready store chans = Inr (store', chans @ map snd ready) \<and>
    (\<forall>a. a \<notin> snd ` set ready \<longrightarrow> store' a = store a) \<and>
    (\<forall>(ev, a) \<in> set ready. store' a = map_option (set_revents ev) (store a))"
  using assms
proof (induction ready arbitrary: store chans)
  case (Cons r ready)
  obtain ev addr where r: "r = (ev, addr)" by (cases r)
  with Cons.prems obtain ch where ch: "store addr = Some ch" by auto
  have new: "addr \<notin> snd ` set ready" using Cons.prems r by simp
  let ?store = "store(addr \<mapsto> set_revents ev ch)"
  have "distinct (map snd ready)" "\<forall>a \<in> snd ` set ready. ?store a \<noteq> None"
    using Cons.prems by auto
  from Cons.IH [OF this, of "chans @ [addr]"] obtain store' where
    s: "Epoller_poll ready ?store (chans @ [addr]) = Inr (store', (chans @ [addr]) @ map snd ready)"
      "\<forall>a. a \<notin> snd ` set ready \<longrightarrow> store' a = ?store a"
      "\<forall>(ev, a) \<in> set ready. store' a = map_option (set_revents ev) (?store a)"
    by blast
  moreover have "store' addr = Some (set_revents ev ch)" using s(2) new by simp
  moreover have "a \<noteq> addr" if "(e, a) \<in> set ready" for e a using that new by force
  ultimately show ?case using r ch by (intro exI [of _ store']) auto
qed simp

section \<open>What the kernel is told\<close>

datatype interest_call = Call_reading bool | Call_writing bool

fun channel_call :: "interest_call \<Rightarrow> nat \<Rightarrow> 'cb Channel \<Rightarrow> 'cb Channel \<times> ctl" where
  "channel_call (Call_reading e) = enableReading e"
| "channel_call (Call_writing e) = enableWriting e"

fun channel_calls :: "interest_call list \<Rightarrow> nat \<Rightarrow> 'cb Channel \<Rightarrow> 'cb Channel \<times> ctl list" where
  "channel_calls [] addr c = (c, [])"
| "channel_calls (x # xs) addr c =
     (let (c1, r) = channel_call x addr c; (c2, rs) = channel_calls xs addr c1 in (c2, r # rs))"

text \<open>
  The documented behaviour of \<open>EPOLL_CTL_ADD\<close>: it registers the descriptor, and fails with
  EEXIST without effect when the descriptor is registered already.
\<close>

definition epoll_add_doc :: "(ctl \<Rightarrow> 'k \<Rightarrow> 'k) \<Rightarrow> ('k \<Rightarrow> int \<Rightarrow> 32 word option) \<Rightarrow> bool" where
  "epoll_add_doc epoll_ctl interest \<longleftrightarrow>
     (\<forall>r k. ctl_op r = EPOLL_CTL_ADD \<longrightarrow>
        interest (epoll_ctl r k) =
          (if interest k (ctl_fd r) = None then (interest k)(ctl_fd r \<mapsto> ctl_events r) else interest k))"

lemma channel_call_request:
  "ctl_op (snd (channel_call x addr c)) = EPOLL_CTL_ADD"
  "ctl_fd (snd (channel_call x addr c)) = ch_fd c"
  "ctl_events (snd (channel_call x addr c)) = ch_events (fst (channel_call x addr c))"
  "ch_fd (fst (channel_call x addr c)) = ch_fd c"
  by (cases x; simp add: enableReading_def enableWriting_def Channel_update_def Epoller_update_def)+

lemma channel_calls_registered:
  assumes "epoll_add_doc epoll_ctl interest" "interest k (ch_fd c) = Some ev"
  shows "interest (fold epoll_ctl (snd (channel_calls xs addr c)) k) (ch_fd c) = Some ev"
  using assms(2)
proof (induction xs arbitrary: c k)
  case (Cons x xs)
  let ?r = "snd (channel_call x addr c)"
  have "interest (epoll_ctl ?r k) = interest k"
    using assms(1) Cons.prems channel_call_request [of x addr c] by (simp add: epoll_add_doc_def)
  with Cons.IH [of "epoll_ctl ?r k" "fst (channel_call x addr c)"] Cons.prems show ?case
    by (simp add: case_prod_beta Let_def channel_call_request)
qed simp

text \<open>
  The kernel keeps the events of a channel's first \<open>update\<close>: since every update is an
  \<open>EPOLL_CTL_ADD\<close>, whatever is enabled or disabled afterwards changes \<open>events_\<close> and
  nothing in the kernel.
\<close>

theorem interest_is_frozen:
  assumes "epoll_add_doc epoll_ctl interest" "interest k (ch_fd c) = None"
  shows "interest (fold epoll_ctl (snd (channel_calls (x # xs) addr c)) k) (ch_fd c) =
    Some (ch_events (fst (channel_call x addr c)))"
proof -
  let ?c = "fst (channel_call x addr c)" and ?r = "snd (channel_call x addr c)"
  have "interest (epoll_ctl ?r k) (ch_fd c) = Some (ch_events ?c)"
    using assms channel_call_request [of x addr c] by (simp add: epoll_add_doc_def)
  with channel_calls_registered [OF assms(1), of "epoll_ctl ?r k" ?c "ch_events ?c" xs addr] show ?thesis
    by (simp add: case_prod_beta Let_def channel_call_request)
qed

definition demo_epoll_ctl :: "ctl \<Rightarrow> (int \<Rightarrow> 32 word option) \<Rightarrow> (int \<Rightarrow> 32 word option)" where
  "demo_epoll_ctl r k =
     (case ctl_op r of
        EPOLL_CTL_ADD \<Rightarrow> if k (ctl_fd r) = None then k(ctl_fd r \<mapsto> ctl_events r) else k
      | EPOLL_CTL_MOD \<Rightarrow> if k (ctl_fd r) = None then k else k(ctl_fd r \<mapsto> ctl_events r)
      | EPOLL_CTL_DEL \<Rightarrow> k(ctl_fd r := None))"

lemma demo_epoll_ctl_doc: "epoll_add_doc demo_epoll_ctl id"
  by (auto simp: epoll_add_doc_def demo_epoll_ctl_def)

theorem interest_is_frozen_witness:
  "fold demo_epoll_ctl (snd (channel_calls [Call_reading True, Call_writing True, Call_reading False] 64
      (Channel_new 5 :: unit Channel))) Map.empty 5 = Some 1 \<and>
    ch_events (fst (channel_calls [Call_reading True, Call_writing True, Call_reading False] 64
      (Channel_new 5 :: unit Channel))) = 4"
  using interest_is_frozen [OF demo_epoll_ctl_doc, of Map.empty "Channel_new 5 :: unit Channel"
      "Call_reading True" "[Call_writing True, Call_reading False]" 64]
  by (simp add: Channel_new_def enableReading_def enableWriting_def Channel_update_def kReadEvent_def
      kWriteEvent_def)

end
