(* ===== verification/TimerQueue.thy ===== *)
theory TimerQueue
  imports Timestamp Channel
begin

text \<open>
  \<open>net::Timer\<close> and \<open>net::TimerQueue\<close> (src/net/Timer.h, Timer.cc, TimerQueue.h,
  TimerQueue.cc): timers on the heap, ordered by their expiration, and the one kernel timer that
  is armed for the earliest. The readings of the clock are a function of how many were made; the
  kernel timer is what it was last set to, \<open>None\<close> when it has expired since.
\<close>

section \<open>Timer\<close>

definition int_of_double :: "double \<Rightarrow> int res" where
  "int_of_double x =
     (let i = (if 0 \<le> x then \<lfloor>x\<rfloor> else \<lceil>x\<rceil>) in if in32 i then Inr i else Inl Undefined)"

record 'cb Timer =
  ti_callback :: "'cb option"
  ti_expiration :: Timestamp
  ti_interval :: double
  ti_repeat :: bool
  ti_sequence :: int

definition Timer_new :: "'cb option \<Rightarrow> Timestamp \<Rightarrow> double \<Rightarrow> 'cb Timer" where
  "Timer_new cb when interval =
     \<lparr>ti_callback = cb, ti_expiration = when, ti_interval = interval, ti_repeat = (interval > 0),
      ti_sequence = microSecondsSinceEpoch when\<rparr>"

definition Timer_run :: "('cb \<Rightarrow> 's \<Rightarrow> 's res) \<Rightarrow> 'cb Timer \<Rightarrow> 's \<Rightarrow> 's res" where
  "Timer_run run t = invoke run (ti_callback t)"

definition Timer_restart :: "Timestamp \<Rightarrow> 'cb Timer \<Rightarrow> 'cb Timer res" where
  "Timer_restart now t =
     (if ti_repeat t
      then bind_r (int_of_double (ti_interval t)) (\<lambda>i. Inr (t\<lparr>ti_expiration := addTime now i\<rparr>))
      else Inr (t\<lparr>ti_expiration := Timestamp_invalid\<rparr>))"

section \<open>TimerQueue\<close>

type_synonym Entry = "Timestamp \<times> nat"

text \<open>\<open>operator<\<close> of \<open>std::pair\<close>; \<open>std::set<Entry>\<close> is the list of its elements in order.\<close>

definition Entry_less :: "Entry \<Rightarrow> Entry \<Rightarrow> bool" where
  "Entry_less a b \<longleftrightarrow>
     Timestamp_less (fst a) (fst b) \<or> (\<not> Timestamp_less (fst b) (fst a) \<and> snd a < snd b)"

text \<open>The heap holds the timers; the clock has been read \<open>tq_ticks\<close> times.\<close>

record 'cb TimerQueue =
  tq_timers :: "Entry list"
  tq_heap :: "nat \<Rightarrow> 'cb Timer option"
  tq_armed :: "(Timestamp \<times> timespec) option"
  tq_ticks :: nat

definition TimerQueue_new :: "'cb TimerQueue" where
  "TimerQueue_new = \<lparr>tq_timers = [], tq_heap = Map.empty, tq_armed = None, tq_ticks = 0\<rparr>"

definition read_clock :: "(nat \<Rightarrow> Timestamp) \<Rightarrow> 'cb TimerQueue \<Rightarrow> Timestamp \<times> 'cb TimerQueue" where
  "read_clock clock q = (clock (tq_ticks q), q\<lparr>tq_ticks := Suc (tq_ticks q)\<rparr>)"

definition howMuchTimeFromNow :: "Timestamp \<Rightarrow> Timestamp \<Rightarrow> timespec" where
  "howMuchTimeFromNow now when =
     (let microseconds = sub64 (microSecondsSinceEpoch when) (microSecondsSinceEpoch now);
          microseconds = (if microseconds < 100 then 100 else microseconds)
      in \<lparr>tv_sec = div64 microseconds kMicroSecondsPerSecond,
          tv_nsec = mul64 (mod64 microseconds kMicroSecondsPerSecond) 1000\<rparr>)"

text \<open>Reading the descriptor returns eight bytes when the timer has expired; the timer is then idle.\<close>

definition readTimerfd :: "int \<Rightarrow> 'cb TimerQueue \<Rightarrow> 'cb TimerQueue" where
  "readTimerfd n q = (if n = 8 then q\<lparr>tq_armed := None\<rparr> else q)"

definition resetTimerfd :: "(nat \<Rightarrow> Timestamp) \<Rightarrow> Timestamp \<Rightarrow> 'cb TimerQueue \<Rightarrow> 'cb TimerQueue" where
  "resetTimerfd clock when q =
     (let (t, q) = read_clock clock q in q\<lparr>tq_armed := Some (t, howMuchTimeFromNow t when)\<rparr>)"

definition deref :: "nat \<Rightarrow> 'cb TimerQueue \<Rightarrow> 'cb Timer res" where
  "deref p q = (case tq_heap q p of None \<Rightarrow> Inl Undefined | Some t \<Rightarrow> Inr t)"

definition tq_insert :: "nat \<Rightarrow> 'cb TimerQueue \<Rightarrow> (bool \<times> 'cb TimerQueue) res" where
  "tq_insert timer q =
     bind_r (deref timer q) (\<lambda>t.
       let when = ti_expiration t;
           earliestChanged = (tq_timers q = [] \<or> Timestamp_less when (fst (hd (tq_timers q))));
           result = set_insert Entry_less (when, timer) (tq_timers q)
       in Inr (earliestChanged, q\<lparr>tq_timers := fst result\<rparr>))"

definition addTimerInLoop :: "(nat \<Rightarrow> Timestamp) \<Rightarrow> nat \<Rightarrow> 'cb TimerQueue \<Rightarrow> 'cb TimerQueue res" where
  "addTimerInLoop clock timer q =
     bind_r (tq_insert timer q) (\<lambda>(earliestChanged, q).
       if earliestChanged
       then bind_r (deref timer q) (\<lambda>t. Inr (resetTimerfd clock (ti_expiration t) q))
       else Inr q)"

text \<open>
  \<open>addTimer\<close> puts the timer at the address \<open>new\<close> returned; the caller queues
  \<open>addTimerInLoop\<close> on it. The result is always -1.
\<close>

definition addTimer :: "'cb option \<Rightarrow> Timestamp \<Rightarrow> int \<Rightarrow> nat \<Rightarrow> 'cb TimerQueue \<Rightarrow> int \<times> 'cb TimerQueue" where
  "addTimer cb when interval p q =
     (- 1, q\<lparr>tq_heap := (tq_heap q)(p \<mapsto> Timer_new cb when (of_int interval))\<rparr>)"

definition getExpired :: "Timestamp \<Rightarrow> 'cb TimerQueue \<Rightarrow> Entry list \<times> 'cb TimerQueue" where
  "getExpired now q =
     (let sentry = (now, UINTPTR_MAX);
          end = lower_bound Entry_less (tq_timers q) sentry
      in (take end (tq_timers q), q\<lparr>tq_timers := drop end (tq_timers q)\<rparr>))"

fun reset_repeating :: "(nat \<Rightarrow> Timestamp) \<Rightarrow> Entry list \<Rightarrow> 'cb TimerQueue \<Rightarrow> 'cb TimerQueue res" where
  "reset_repeating clock [] q = Inr q"
| "reset_repeating clock ((w, p) # expired) q =
     bind_r (deref p q) (\<lambda>t.
       if ti_repeat t
       then let (time, q) = read_clock clock q in
            bind_r (Timer_restart time t) (\<lambda>t.
            bind_r (tq_insert p (q\<lparr>tq_heap := (tq_heap q)(p \<mapsto> t)\<rparr>)) (\<lambda>(_, q).
              reset_repeating clock expired q))
       else reset_repeating clock expired q)"

definition tq_reset :: "(nat \<Rightarrow> Timestamp) \<Rightarrow> Entry list \<Rightarrow> 'cb TimerQueue \<Rightarrow> 'cb TimerQueue res" where
  "tq_reset clock expired q =
     bind_r (reset_repeating clock expired q) (\<lambda>q.
       if tq_timers q \<noteq> []
       then bind_r (deref (snd (hd (tq_timers q))) q) (\<lambda>t.
              let next_timestamp = ti_expiration t
              in Inr (if Timestamp_valid next_timestamp then resetTimerfd clock next_timestamp q else q))
       else Inr q)"

text \<open>The callbacks run on the queue and whatever else there is (\<open>'e\<close>).\<close>

fun run_expired ::
  "('cb \<Rightarrow> 'cb TimerQueue \<times> 'e \<Rightarrow> ('cb TimerQueue \<times> 'e) res) \<Rightarrow> Entry list \<Rightarrow>
     'cb TimerQueue \<times> 'e \<Rightarrow> ('cb TimerQueue \<times> 'e) res" where
  "run_expired run [] s = Inr s"
| "run_expired run ((w, p) # expired) s =
     bind_r (deref p (fst s)) (\<lambda>t. bind_r (Timer_run run t s) (run_expired run expired))"

definition TimerQueue_handleRead ::
  "('cb \<Rightarrow> 'cb TimerQueue \<times> 'e \<Rightarrow> ('cb TimerQueue \<times> 'e) res) \<Rightarrow> (nat \<Rightarrow> Timestamp) \<Rightarrow> int \<Rightarrow>
     'cb TimerQueue \<times> 'e \<Rightarrow> ('cb TimerQueue \<times> 'e) res" where
  "TimerQueue_handleRead run clock n s =
     (let q = readTimerfd n (fst s);
          (time, q) = read_clock clock q;
          (expired, q) = getExpired time q
      in bind_r (run_expired run expired (q, snd s)) (\<lambda>(q, e).
         bind_r (tq_reset clock expired q) (\<lambda>q. Inr (q, e))))"

section \<open>The set\<close>

interpretation entry_order: strict_weak_order Entry_less
  by unfold_locales (auto simp: Entry_less_def Timestamp_less_def)

lemma Entry_equiv: "\<not> Entry_less a b \<Longrightarrow> \<not> Entry_less b a \<Longrightarrow> a = b"
  by (cases a; cases b) (auto simp: Entry_less_def Timestamp_less_def)

definition heap_ok :: "'cb TimerQueue \<Rightarrow> bool" where
  "heap_ok q \<longleftrightarrow>
     (\<forall>p t. tq_heap q p = Some t \<longrightarrow>
        p < UINTPTR_MAX \<and> ti_repeat t = (ti_interval t > 0) \<and>
        (\<exists>i. ti_interval t = of_int i \<and> in32 i))"

text \<open>Times for which no difference overflows.\<close>

definition time_ok :: "Timestamp \<Rightarrow> bool" where
  "time_ok w \<longleftrightarrow> \<bar>microSecondsSinceEpoch w\<bar> < 2 ^ 62"

definition entry_ok :: "'cb TimerQueue \<Rightarrow> Entry \<Rightarrow> bool" where
  "entry_ok q = (\<lambda>(w, p). time_ok w \<and> (\<exists>t. tq_heap q p = Some t \<and> ti_expiration t = w))"

definition tq_wf :: "'cb TimerQueue \<Rightarrow> bool" where
  "tq_wf q \<longleftrightarrow> sorted_wrt Entry_less (tq_timers q) \<and> heap_ok q \<and> list_all (entry_ok q) (tq_timers q)"

definition armed_for :: "Timestamp \<Rightarrow> 'cb TimerQueue \<Rightarrow> bool" where
  "armed_for w q \<longleftrightarrow>
     (\<exists>s0 ts. tq_armed q = Some (s0, ts) \<and>
        microSecondsSinceEpoch s0 * 1000 + (tv_sec ts * 1000000000 + tv_nsec ts) =
        max (microSecondsSinceEpoch w) (microSecondsSinceEpoch s0 + 100) * 1000)"

text \<open>The kernel timer will go off for the earliest entry, at its time or 100 microseconds after it was set.\<close>

definition armed_ok :: "'cb TimerQueue \<Rightarrow> bool" where
  "armed_ok q \<longleftrightarrow> (case tq_timers q of [] \<Rightarrow> True | (w, _) # _ \<Rightarrow> armed_for w q)"

text \<open>Readings for which a restart, even one whose interval wraps, gives a valid time.\<close>

definition clock_ok :: "(nat \<Rightarrow> Timestamp) \<Rightarrow> bool" where
  "clock_ok clock \<longleftrightarrow>
     (\<forall>n. 2147483648 < microSecondsSinceEpoch (clock n) \<and> microSecondsSinceEpoch (clock n) < 2 ^ 61)"

lemma entry_ok_pointer: "heap_ok q \<Longrightarrow> entry_ok q e \<Longrightarrow> snd e < UINTPTR_MAX"
  by (auto simp: heap_ok_def entry_ok_def)

lemma entry_same_time: "entry_ok q (w, p) \<Longrightarrow> entry_ok q (w', p) \<Longrightarrow> w = w'"
  by (auto simp: entry_ok_def)

lemma tq_wf_distinct: "tq_wf q \<Longrightarrow> distinct (map snd (tq_timers q))"
proof -
  assume wf: "tq_wf q"
  have "inj_on snd (set (tq_timers q))"
  proof (rule inj_onI)
    fix a b assume ab: "a \<in> set (tq_timers q)" "b \<in> set (tq_timers q)" and e: "snd a = snd b"
    have "entry_ok q (fst a, snd a)" "entry_ok q (fst b, snd b)"
      using wf ab by (simp_all add: tq_wf_def list_all_iff)
    with e show "a = b" using entry_same_time [of q "fst a" "snd a" "fst b"] by (simp add: prod_eq_iff)
  qed
  with wf show ?thesis by (simp add: tq_wf_def distinct_map entry_order.sorted_distinct)
qed

lemma getExpired_eq:
  assumes "tq_wf q"
  shows "getExpired time q =
    (filter (\<lambda>e. \<not> Timestamp_less time (fst e)) (tq_timers q),
     q\<lparr>tq_timers := filter (\<lambda>e. Timestamp_less time (fst e)) (tq_timers q)\<rparr>)"
proof -
  have s: "sorted_wrt Entry_less (tq_timers q)" using assms by (simp add: tq_wf_def)
  have lt: "Entry_less e (time, UINTPTR_MAX) = (\<not> Timestamp_less time (fst e))"
    if "e \<in> set (tq_timers q)" for e
    using that assms entry_ok_pointer [of q e]
    by (auto simp: tq_wf_def list_all_iff Entry_less_def Timestamp_less_def)
  show ?thesis
    unfolding getExpired_def Let_def entry_order.lower_bound_filter [OF s]
    by (simp add: lt cong: filter_cong)
qed

lemma howMuchTimeFromNow_total:
  assumes "time_ok w" "time_ok s0"
  shows "microSecondsSinceEpoch s0 * 1000 +
      (tv_sec (howMuchTimeFromNow s0 w) * 1000000000 + tv_nsec (howMuchTimeFromNow s0 w)) =
    max (microSecondsSinceEpoch w) (microSecondsSinceEpoch s0 + 100) * 1000"
proof -
  define d where "d = max (microSecondsSinceEpoch w - microSecondsSinceEpoch s0) 100"
  have d: "100 \<le> d" "d < 2 ^ 63" using assms by (auto simp: d_def time_ok_def)
  have "sub64 (microSecondsSinceEpoch w) (microSecondsSinceEpoch s0) =
      microSecondsSinceEpoch w - microSecondsSinceEpoch s0"
    using assms by (simp add: sub64_def time_ok_def)
  then have h: "howMuchTimeFromNow s0 w =
      \<lparr>tv_sec = div64 d kMicroSecondsPerSecond, tv_nsec = mul64 (mod64 d kMicroSecondsPerSecond) 1000\<rparr>"
    by (simp add: howMuchTimeFromNow_def d_def Let_def max_def)
  have q: "div64 d kMicroSecondsPerSecond = d div 1000000" "mod64 d kMicroSecondsPerSecond = d mod 1000000"
    using d div_bounds [of d "2 ^ 63 - 1" 1000000] pos_mod_bound [of 1000000 d]
    by (simp_all add: div64_def mod64_def kMicroSecondsPerSecond_def)
  have m: "mul64 (d mod 1000000) 1000 = d mod 1000000 * 1000"
    using pos_mod_bound [of 1000000 d] pos_mod_sign [of 1000000 d] by (simp add: mul64_def)
  have "d div 1000000 * 1000000000 + d mod 1000000 * 1000 = d * 1000"
    using mult_div_mod_eq [of 1000000 d] by linarith
  then show ?thesis unfolding h q m timespec.select_convs by (auto simp: d_def max_def)
qed

lemma resetTimerfd_fields [simp]:
  "tq_timers (resetTimerfd clock w q) = tq_timers q" "tq_heap (resetTimerfd clock w q) = tq_heap q"
  by (simp_all add: resetTimerfd_def read_clock_def)

lemma clock_time_ok: "clock_ok clock \<Longrightarrow> time_ok (clock n)"
  unfolding clock_ok_def time_ok_def by (drule spec [of _ n]) simp

lemma resetTimerfd_armed:
  "clock_ok clock \<Longrightarrow> time_ok w \<Longrightarrow> armed_for w (resetTimerfd clock w q)"
  using howMuchTimeFromNow_total [of w "clock (tq_ticks q)"] clock_time_ok [of clock "tq_ticks q"]
  by (simp add: armed_for_def resetTimerfd_def read_clock_def)

lemma tq_wf_cong:
  "tq_wf q \<Longrightarrow> tq_timers q' = tq_timers q \<Longrightarrow> tq_heap q' = tq_heap q \<Longrightarrow> tq_wf q'"
  by (simp add: tq_wf_def heap_ok_def entry_ok_def [abs_def])

section \<open>Insertion and restart\<close>

lemma tq_insert_ok:
  assumes wf: "tq_wf q" and t: "tq_heap q p = Some t" "time_ok (ti_expiration t)"
    and new: "p \<notin> snd ` set (tq_timers q)"
  shows "\<exists>ec q'. tq_insert p q = Inr (ec, q') \<and> tq_wf q' \<and>
    set (tq_timers q') = insert (ti_expiration t, p) (set (tq_timers q)) \<and>
    q' = q\<lparr>tq_timers := tq_timers q'\<rparr> \<and>
    (ec \<longrightarrow> fst (hd (tq_timers q')) = ti_expiration t) \<and>
    (\<not> ec \<longrightarrow> tq_timers q \<noteq> [] \<and> fst (hd (tq_timers q')) = fst (hd (tq_timers q)))"
proof -
  let ?e = "(ti_expiration t, p)" and ?xs = "tq_timers q"
  let ?r = "set_insert Entry_less ?e ?xs"
  have s: "sorted_wrt Entry_less ?xs" using wf by (simp add: tq_wf_def)
  have inserted: "snd ?r"
    using entry_order.set_insert_refused(2) [of ?e ?xs] Entry_equiv new by force
  note r = entry_order.set_insert_done [OF inserted s]
  let ?q = "q\<lparr>tq_timers := fst ?r\<rparr>"
  have "tq_wf ?q"
    using wf t r(2,3) by (simp add: tq_wf_def heap_ok_def entry_ok_def [abs_def] list_all_iff)
  moreover have "fst (hd (fst ?r)) = ti_expiration t"
    if "?xs = [] \<or> Timestamp_less (ti_expiration t) (fst (hd ?xs))"
  proof (cases ?xs)
    case (Cons x xs)
    with that s have "\<not> Entry_less y ?e" if "y \<in> set ?xs" for y
      using that by (auto simp: Entry_less_def Timestamp_less_def)
    then have "filter (\<lambda>y. Entry_less y ?e) ?xs = []" by (simp add: filter_empty_conv)
    then show ?thesis using r(1) by simp
  qed (use r(1) in simp)
  moreover have "fst (hd (fst ?r)) = fst (hd ?xs)"
    if "?xs \<noteq> []" "\<not> Timestamp_less (ti_expiration t) (fst (hd ?xs))"
  proof (cases ?xs)
    case (Cons x xs)
    show ?thesis
    proof (cases "Entry_less x ?e")
      case True
      with Cons r(1) show ?thesis by simp
    next
      case False
      with Cons s have "\<not> Entry_less y ?e" if "y \<in> set ?xs" for y
        using that entry_order.lt_trans [of x y ?e] by auto
      then have "filter (\<lambda>y. Entry_less y ?e) ?xs = []" by (simp add: filter_empty_conv)
      moreover have "ti_expiration t = fst x"
        using False that Cons by (auto simp: Entry_less_def Timestamp_less_def)
      ultimately show ?thesis using r(1) Cons by simp
    qed
  qed (use that in simp)
  ultimately show ?thesis
    using t(1) r(3) by (auto simp: tq_insert_def deref_def Let_def)
qed

lemma addTime_bounds:
  assumes "2147483648 < microSecondsSinceEpoch w" "microSecondsSinceEpoch w < 2 ^ 61"
  shows "Timestamp_valid (addTime w i)" "time_ok (addTime w i)"
proof -
  define d where "d = mul32 i kMicroSecondsPerSecond"
  have d: "- 2147483648 \<le> d" "d \<le> 2147483647"
    using wrap32_range [of "i * kMicroSecondsPerSecond"] by (simp_all add: d_def mul32_def in32_def)
  have "add64 (microSecondsSinceEpoch w) d = microSecondsSinceEpoch w + d"
    using assms d by (simp add: add64_def)
  then show "Timestamp_valid (addTime w i)" "time_ok (addTime w i)"
    using assms d by (simp_all add: addTime_def Let_def Timestamp_of_def Timestamp_valid_def time_ok_def
        flip: d_def)
qed

definition restarted :: "(nat \<Rightarrow> Timestamp) \<Rightarrow> 'cb Timer \<Rightarrow> Timestamp \<Rightarrow> bool" where
  "restarted clock t w \<longleftrightarrow> (\<exists>n i. ti_interval t = of_int i \<and> w = addTime (clock n) i)"

lemma Timer_restart_ok:
  assumes "heap_ok q" "tq_heap q p = Some t" "ti_repeat t"
  shows "\<exists>i. ti_interval t = of_int i \<and> Timer_restart w t = Inr (t\<lparr>ti_expiration := addTime w i\<rparr>)"
  using assms by (fastforce simp: heap_ok_def Timer_restart_def int_of_double_def Let_def)

lemma tq_wf_restart:
  assumes "tq_wf q" "tq_heap q p = Some t" "p \<notin> snd ` set (tq_timers q)"
  shows "tq_wf (q\<lparr>tq_ticks := n, tq_heap := (tq_heap q)(p \<mapsto> t\<lparr>ti_expiration := w\<rparr>)\<rparr>)"
    (is "tq_wf ?q")
proof -
  have "entry_ok ?q e" if "e \<in> set (tq_timers q)" for e
  proof -
    have "snd e \<noteq> p" "entry_ok q e" using that assms by (auto simp: tq_wf_def list_all_iff)
    then show ?thesis by (cases e) (simp add: entry_ok_def)
  qed
  moreover have "heap_ok ?q" using assms(1,2) by (auto simp: tq_wf_def heap_ok_def)
  ultimately show ?thesis using assms(1) by (simp add: tq_wf_def list_all_iff)
qed

lemma reset_repeating_ok:
  assumes "tq_wf q" "clock_ok clock" "distinct (map snd expired)"
    and "snd ` set expired \<inter> snd ` set (tq_timers q) = {}"
    and "\<forall>(w, p) \<in> set expired. tq_heap q p \<noteq> None"
  shows "\<exists>q'. reset_repeating clock expired q = Inr q' \<and> tq_wf q' \<and>
    tq_armed q' = tq_armed q \<and>
    set (tq_timers q) \<subseteq> set (tq_timers q') \<and>
    snd ` set (tq_timers q') =
      snd ` set (tq_timers q) \<union> {p. \<exists>w t. (w, p) \<in> set expired \<and> tq_heap q p = Some t \<and> ti_repeat t} \<and>
    (\<forall>(w, p) \<in> set (tq_timers q') - set (tq_timers q). \<exists>t. tq_heap q p = Some t \<and> restarted clock t w) \<and>
    (\<forall>p. p \<notin> snd ` set expired \<longrightarrow> tq_heap q' p = tq_heap q p)"
  using assms
proof (induction expired arbitrary: q)
  case Nil
  then show ?case by auto
next
  case (Cons e expired)
  obtain w p where e: "e = (w, p)" by (cases e)
  obtain t where t: "tq_heap q p = Some t" using Cons.prems(5) e by auto
  have np: "p \<notin> snd ` set (tq_timers q)" "p \<notin> snd ` set expired" using Cons.prems(3,4) e by auto
  show ?case
  proof (cases "ti_repeat t")
    case False
    have "snd ` set expired \<inter> snd ` set (tq_timers q) = {}" "\<forall>(w, p) \<in> set expired. tq_heap q p \<noteq> None"
      using Cons.prems by auto
    with Cons.IH [OF Cons.prems(1,2)] Cons.prems(3) obtain q' where
      q': "reset_repeating clock expired q = Inr q'" "tq_wf q'" "tq_armed q' = tq_armed q"
        "set (tq_timers q) \<subseteq> set (tq_timers q')"
        "snd ` set (tq_timers q') = snd ` set (tq_timers q) \<union>
           {p. \<exists>w t. (w, p) \<in> set expired \<and> tq_heap q p = Some t \<and> ti_repeat t}"
        "\<forall>(w, p) \<in> set (tq_timers q') - set (tq_timers q). \<exists>t. tq_heap q p = Some t \<and> restarted clock t w"
        "\<forall>p. p \<notin> snd ` set expired \<longrightarrow> tq_heap q' p = tq_heap q p"
      by auto
    moreover have "{p. \<exists>w t. (w, p) \<in> set (e # expired) \<and> tq_heap q p = Some t \<and> ti_repeat t} =
        {p. \<exists>w t. (w, p) \<in> set expired \<and> tq_heap q p = Some t \<and> ti_repeat t}"
      using e t False by auto
    ultimately show ?thesis using e t False by (simp add: deref_def)
  next
    case True
    let ?c = "clock (tq_ticks q)"
    from Cons.prems(1) have "heap_ok q" by (simp add: tq_wf_def)
    from Timer_restart_ok [OF this t True] obtain i where
      i: "ti_interval t = of_int i" "Timer_restart ?c t = Inr (t\<lparr>ti_expiration := addTime ?c i\<rparr>)" by auto
    let ?t = "t\<lparr>ti_expiration := addTime ?c i\<rparr>"
    let ?q = "q\<lparr>tq_ticks := Suc (tq_ticks q), tq_heap := (tq_heap q)(p \<mapsto> ?t)\<rparr>"
    have w: "tq_wf ?q" by (rule tq_wf_restart [OF Cons.prems(1) t np(1)])
    have tm: "time_ok (ti_expiration ?t)"
      using Cons.prems(2) addTime_bounds(2) [of ?c i] by (simp add: clock_ok_def)
    have "p \<notin> snd ` set (tq_timers ?q)" "tq_heap ?q p = Some ?t" using np(1) by simp_all
    from tq_insert_ok [OF w this(2) tm this(1)] obtain ec q1 where
      q1: "tq_insert p ?q = Inr (ec, q1)" "tq_wf q1"
        "set (tq_timers q1) = insert (addTime ?c i, p) (set (tq_timers q))"
        "q1 = ?q\<lparr>tq_timers := tq_timers q1\<rparr>"
      by auto
    have h1: "tq_heap q1 = (tq_heap q)(p \<mapsto> ?t)" "tq_armed q1 = tq_armed q"
      using q1(4) by (metis TimerQueue.select_convs(2,3) TimerQueue.surjective TimerQueue.update_convs(1,2,4))+
    have "snd ` set expired \<inter> snd ` set (tq_timers q1) = {}" "\<forall>(w, p) \<in> set expired. tq_heap q1 p \<noteq> None"
      using Cons.prems(4,5) np e by (auto simp: q1(3) h1)
    with Cons.IH [OF q1(2) Cons.prems(2)] Cons.prems(3) obtain q' where
      q': "reset_repeating clock expired q1 = Inr q'" "tq_wf q'" "tq_armed q' = tq_armed q1"
        "set (tq_timers q1) \<subseteq> set (tq_timers q')"
        "snd ` set (tq_timers q') = snd ` set (tq_timers q1) \<union>
           {p. \<exists>w t. (w, p) \<in> set expired \<and> tq_heap q1 p = Some t \<and> ti_repeat t}"
        "\<forall>(w, p) \<in> set (tq_timers q') - set (tq_timers q1). \<exists>t. tq_heap q1 p = Some t \<and> restarted clock t w"
        "\<forall>p. p \<notin> snd ` set expired \<longrightarrow> tq_heap q' p = tq_heap q1 p"
      by auto
    have "{p. \<exists>w t. (w, p) \<in> set expired \<and> tq_heap q1 p = Some t \<and> ti_repeat t} =
        {p. \<exists>w t. (w, p) \<in> set expired \<and> tq_heap q p = Some t \<and> ti_repeat t}"
      using np(2) by (force simp: h1)
    then have "snd ` set (tq_timers q') = snd ` set (tq_timers q) \<union>
        {p. \<exists>w t. (w, p) \<in> set (e # expired) \<and> tq_heap q p = Some t \<and> ti_repeat t}"
      using q'(5) e t True by (auto simp: q1(3))
    moreover have "\<exists>t. tq_heap q p' = Some t \<and> restarted clock t w'"
      if "(w', p') \<in> set (tq_timers q') - set (tq_timers q)" for w' p'
    proof (cases "(w', p') \<in> set (tq_timers q1)")
      case True
      with that t i(1) show ?thesis by (auto simp: q1(3) restarted_def)
    next
      case False
      with that q'(6) obtain t' where "tq_heap q1 p' = Some t'" "restarted clock t' w'" by blast
      then show ?thesis using t by (auto simp: h1 restarted_def split: if_splits)
    qed
    moreover have "tq_heap q' p' = tq_heap q p'" if "p' \<notin> snd ` set (e # expired)" for p'
      using that q'(7) e by (simp add: h1)
    ultimately show ?thesis
      using e t True i(2) q1(1,3) q'(1-4) h1(2) by (auto simp: deref_def read_clock_def)
  qed
qed

section \<open>The expiry of the kernel timer\<close>

text \<open>
  What timer callbacks may do to the queue: they have it make timers and read the clock; the set
  and the kernel timer are changed by functors that run later.
\<close>

definition heap_le :: "'cb TimerQueue \<Rightarrow> 'cb TimerQueue \<Rightarrow> bool" where
  "heap_le q q' \<longleftrightarrow> (\<forall>p t. tq_heap q p = Some t \<longrightarrow> tq_heap q' p = Some t)"

text \<open>The entries due at the reading \<open>handleRead\<close> makes, and the queue its callbacks start on.\<close>

definition due_entries :: "(nat \<Rightarrow> Timestamp) \<Rightarrow> 'cb TimerQueue \<Rightarrow> Entry list" where
  "due_entries clock q = filter (\<lambda>e. \<not> Timestamp_less (clock (tq_ticks q)) (fst e)) (tq_timers q)"

definition at_callbacks :: "(nat \<Rightarrow> Timestamp) \<Rightarrow> int \<Rightarrow> 'cb TimerQueue \<Rightarrow> 'cb TimerQueue" where
  "at_callbacks clock n q = (readTimerfd n q)\<lparr>tq_ticks := Suc (tq_ticks q),
     tq_timers := filter (\<lambda>e. Timestamp_less (clock (tq_ticks q)) (fst e)) (tq_timers q)\<rparr>"

lemma at_callbacks_fields [simp]:
  "tq_heap (at_callbacks clock n q) = tq_heap q"
  "tq_timers (at_callbacks clock n q) = filter (\<lambda>e. Timestamp_less (clock (tq_ticks q)) (fst e)) (tq_timers q)"
  by (simp_all add: at_callbacks_def readTimerfd_def)

lemma handleRead_eq:
  assumes "tq_wf q"
  shows "TimerQueue_handleRead run clock n (q, e) =
    bind_r (run_expired run (due_entries clock q) (at_callbacks clock n q, e)) (\<lambda>(q1, e1).
      bind_r (tq_reset clock (due_entries clock q) q1) (\<lambda>q. Inr (q, e1)))"
proof -
  have rd: "tq_ticks (readTimerfd n q) = tq_ticks q" "tq_timers (readTimerfd n q) = tq_timers q"
    by (simp_all add: readTimerfd_def)
  have "tq_wf ((readTimerfd n q)\<lparr>tq_ticks := Suc (tq_ticks q)\<rparr>)"
    using assms by (rule tq_wf_cong) (simp_all add: readTimerfd_def)
  from getExpired_eq [OF this, of "clock (tq_ticks q)"]
  have "getExpired (clock (tq_ticks q)) ((readTimerfd n q)\<lparr>tq_ticks := Suc (tq_ticks q)\<rparr>) =
      (due_entries clock q, at_callbacks clock n q)"
    by (simp add: due_entries_def at_callbacks_def rd)
  then show ?thesis by (simp add: TimerQueue_handleRead_def read_clock_def rd Let_def)
qed

locale queueing_callbacks =
  fixes run :: "'cb \<Rightarrow> 'cb TimerQueue \<times> 'e \<Rightarrow> ('cb TimerQueue \<times> 'e) res"
  assumes run_timers: "run f (q, e) = Inr (q', e') \<Longrightarrow> tq_timers q' = tq_timers q \<and> tq_armed q' = tq_armed q"
    and run_heap: "run f (q, e) = Inr (q', e') \<Longrightarrow> heap_le q q' \<and> (heap_ok q \<longrightarrow> heap_ok q')"
begin

lemma run_expired_keeps:
  "run_expired run es (q, e) = Inr (q', e') \<Longrightarrow>
    tq_timers q' = tq_timers q \<and> tq_armed q' = tq_armed q \<and> heap_le q q' \<and> (heap_ok q \<longrightarrow> heap_ok q')"
proof (induction es arbitrary: q e)
  case Nil
  then show ?case by (simp add: heap_le_def)
next
  case (Cons x es)
  obtain w p where x: "x = (w, p)" by (cases x)
  from Cons.prems x obtain f q1 e1 where
    f: "run f (q, e) = Inr (q1, e1)" "run_expired run es (q1, e1) = Inr (q', e')"
    by (auto simp: bind_r_eq_Inr Timer_run_def invoke_def split: option.splits)
  from Cons.IH [OF f(2)] run_timers [OF f(1)] run_heap [OF f(1)] show ?case
    by (auto simp: heap_le_def)
qed

text \<open>
  \<open>handleRead\<close> once its callbacks have returned: it returns, what was not due stays, every due timer
  that repeats is back with a new time, the others are gone, and the kernel timer is armed for the
  earliest.
\<close>

lemma handleRead_complete:
  fixes q :: "'cb TimerQueue" and e :: 'e
  assumes wf: "tq_wf q" and clock: "clock_ok clock"
    and run: "run_expired run (due_entries clock q) (at_callbacks clock n q, e) = Inr (q1, e1)"
  shows "\<exists>q'. TimerQueue_handleRead run clock n (q, e) = Inr (q', e1) \<and> tq_wf q' \<and> armed_ok q' \<and>
    set (tq_timers q') \<supseteq> set (tq_timers q) - set (due_entries clock q) \<and>
    snd ` set (tq_timers q') = snd ` (set (tq_timers q) - set (due_entries clock q)) \<union>
      {p. \<exists>w t. (w, p) \<in> set (due_entries clock q) \<and> tq_heap q p = Some t \<and> ti_repeat t} \<and>
    (\<forall>(w, p) \<in> set (tq_timers q') - set (tq_timers q). \<exists>t. tq_heap q p = Some t \<and> restarted clock t w) \<and>
    (\<forall>p. p \<notin> snd ` set (tq_timers q) \<longrightarrow> tq_heap q' p = tq_heap q1 p)"
proof -
  define time where "time = clock (tq_ticks q)"
  define due where "due = due_entries clock q"
  note due_def = due_def [unfolded due_entries_def, folded time_def]
  define q0 where "q0 = at_callbacks clock n q"
  have q0: "tq_timers q0 = filter (\<lambda>e. Timestamp_less time (fst e)) (tq_timers q)" "tq_heap q0 = tq_heap q"
    by (simp_all add: q0_def time_def)
  note run = run [folded q0_def, folded \<open>due = due_entries clock q\<close>]
  note k = run_expired_keeps [OF run]
  have "heap_ok q0" using wf by (simp add: tq_wf_def heap_ok_def q0)
  then have wf1: "tq_wf q1"
    using wf k by (auto simp: tq_wf_def q0 sorted_wrt_filter list_all_iff entry_ok_def heap_le_def)
  have dist: "distinct (map snd (tq_timers q))" using wf by (rule tq_wf_distinct)
  have "distinct (map snd due)" using dist unfolding due_def by (rule distinct_map_filter)
  moreover have disj: "snd ` set due \<inter> snd ` set (tq_timers q1) = {}"
    using dist k by (auto simp: due_def q0 distinct_map inj_on_def)
  moreover have due_heap: "\<exists>t. tq_heap q p = Some t \<and> tq_heap q1 p = Some t" if "(w, p) \<in> set due" for w p
    using that wf k by (fastforce simp: due_def tq_wf_def list_all_iff entry_ok_def heap_le_def q0)
  then have "\<forall>(w, p) \<in> set due. tq_heap q1 p \<noteq> None" by fastforce
  ultimately obtain q2 where q2: "reset_repeating clock due q1 = Inr q2" "tq_wf q2"
      "set (tq_timers q1) \<subseteq> set (tq_timers q2)"
      "snd ` set (tq_timers q2) = snd ` set (tq_timers q1) \<union>
        {p. \<exists>w t. (w, p) \<in> set due \<and> tq_heap q1 p = Some t \<and> ti_repeat t}"
      "\<forall>(w, p) \<in> set (tq_timers q2) - set (tq_timers q1). \<exists>t. tq_heap q1 p = Some t \<and> restarted clock t w"
      "\<forall>p. p \<notin> snd ` set due \<longrightarrow> tq_heap q2 p = tq_heap q1 p"
    using reset_repeating_ok [OF wf1 clock, of due] by auto
  have part: "set (tq_timers q1) = set (tq_timers q) - set due" using k by (auto simp: q0 due_def)
  have same: "{p. \<exists>w t. (w, p) \<in> set due \<and> tq_heap q1 p = Some t \<and> ti_repeat t} =
      {p. \<exists>w t. (w, p) \<in> set due \<and> tq_heap q p = Some t \<and> ti_repeat t}"
    using due_heap by fastforce
  have renewed: "\<exists>t. tq_heap q p = Some t \<and> restarted clock t w"
    if "(w, p) \<in> set (tq_timers q2) - set (tq_timers q)" for w p
  proof -
    from that part q2(3) have new: "(w, p) \<in> set (tq_timers q2) - set (tq_timers q1)" by auto
    with q2(5) obtain t where t: "tq_heap q1 p = Some t" "restarted clock t w" by blast
    have "p \<notin> snd ` set (tq_timers q1)"
    proof
      assume "p \<in> snd ` set (tq_timers q1)"
      then obtain w' where w': "(w', p) \<in> set (tq_timers q1)" by auto
      have "entry_ok q2 (w', p)" "entry_ok q2 (w, p)"
        using w' new q2(2,3) by (auto simp: tq_wf_def list_all_iff)
      then have "w' = w" by (rule entry_same_time)
      with w' new show False by simp
    qed
    then have "p \<in> snd ` set due" using new q2(4) by force
    with due_heap t show ?thesis by force
  qed
  obtain q' where q': "tq_reset clock due q1 = Inr q'" "tq_wf q'" "armed_ok q'"
    "tq_timers q' = tq_timers q2" "tq_heap q' = tq_heap q2"
  proof (cases "tq_timers q2")
    case Nil
    with q2 that [of q2] show ?thesis by (simp add: tq_reset_def armed_ok_def)
  next
    case (Cons x xs)
    obtain w p where x: "x = (w, p)" by (cases x)
    with Cons q2(2) obtain t where t: "tq_heap q2 p = Some t" "ti_expiration t = w" "time_ok w"
      by (auto simp: tq_wf_def entry_ok_def)
    have "Timestamp_valid w"
    proof (cases "(w, p) \<in> set (tq_timers q1)")
      case True
      with k have "Timestamp_less time w" by (simp add: q0)
      with clock show ?thesis
        by (auto simp: clock_ok_def time_def Timestamp_valid_def Timestamp_less_def
            dest: spec [of _ "tq_ticks q"])
    next
      case False
      with Cons x have "(w, p) \<in> set (tq_timers q2) - set (tq_timers q1)" by simp
      with q2(5) obtain t :: "'cb Timer" where "restarted clock t w" by blast
      with clock show ?thesis using addTime_bounds(1) by (auto simp: restarted_def clock_ok_def)
    qed
    then have "tq_reset clock due q1 = Inr (resetTimerfd clock w q2)"
      using q2(1) Cons x t by (simp add: tq_reset_def deref_def Let_def)
    moreover have "tq_wf (resetTimerfd clock w q2)" using q2(2) by (rule tq_wf_cong) simp_all
    moreover have "armed_ok (resetTimerfd clock w q2)"
      using resetTimerfd_armed [OF clock t(3)] Cons x by (simp add: armed_ok_def)
    ultimately show ?thesis using that by simp
  qed
  moreover have "TimerQueue_handleRead run clock n (q, e) = Inr (q', e1)"
    using q'(1) run by (simp add: handleRead_eq [OF wf] flip: q0_def \<open>due = due_entries clock q\<close>)
  moreover have "snd ` set (tq_timers q2) = snd ` (set (tq_timers q) - set due) \<union>
      {p. \<exists>w t. (w, p) \<in> set due \<and> tq_heap q p = Some t \<and> ti_repeat t}"
    using q2(4) by (simp only: part same)
  moreover have "tq_heap q2 p = tq_heap q1 p" if "p \<notin> snd ` set (tq_timers q)" for p
    using that q2(6) by (force simp: due_def)
  ultimately show ?thesis using q2(3) part renewed
    unfolding \<open>due = due_entries clock q\<close> [symmetric] by auto
qed

lemma handleRead_returned:
  assumes "tq_wf q" "TimerQueue_handleRead run clock n (q, e) = Inr (q', e')"
  shows "\<exists>q1. run_expired run (due_entries clock q) (at_callbacks clock n q, e) = Inr (q1, e')"
  using assms(2) by (auto simp: handleRead_eq [OF assms(1)] bind_r_eq_Inr)

end

section \<open>Adding a timer\<close>

lemma addTimerInLoop_ok:
  assumes "tq_wf q" "armed_ok q" "clock_ok clock" "tq_heap q p = Some t" "time_ok (ti_expiration t)"
    and "p \<notin> snd ` set (tq_timers q)"
  shows "\<exists>q'. addTimerInLoop clock p q = Inr q' \<and> tq_wf q' \<and> armed_ok q' \<and> tq_heap q' = tq_heap q \<and>
    set (tq_timers q') = insert (ti_expiration t, p) (set (tq_timers q))"
proof -
  from tq_insert_ok [OF assms(1,4,5,6)] obtain ec q1 where
    q1: "tq_insert p q = Inr (ec, q1)" "tq_wf q1"
      "set (tq_timers q1) = insert (ti_expiration t, p) (set (tq_timers q))"
      "q1 = q\<lparr>tq_timers := tq_timers q1\<rparr>"
      "ec \<longrightarrow> fst (hd (tq_timers q1)) = ti_expiration t"
      "\<not> ec \<longrightarrow> tq_timers q \<noteq> [] \<and> fst (hd (tq_timers q1)) = fst (hd (tq_timers q))"
    by auto
  have h: "tq_heap q1 = tq_heap q" "tq_armed q1 = tq_armed q" by (subst q1(4), simp)+
  obtain x xs where x: "tq_timers q1 = x # xs" using q1(3) by (cases "tq_timers q1") auto
  show ?thesis
  proof (cases ec)
    case True
    have "tq_wf (resetTimerfd clock (ti_expiration t) q1)" using q1(2) by (rule tq_wf_cong) simp_all
    moreover have "armed_ok (resetTimerfd clock (ti_expiration t) q1)"
      using resetTimerfd_armed [OF assms(3,5)] True q1(5) x
      by (auto simp: armed_ok_def split: prod.splits)
    ultimately show ?thesis
      using True q1 h assms(4) by (simp add: addTimerInLoop_def deref_def)
  next
    case False
    then have "armed_ok q1" using q1(6) assms(2) x
      by (cases "tq_timers q") (auto simp: armed_ok_def armed_for_def h split: prod.splits)
    with False q1 h show ?thesis by (simp add: addTimerInLoop_def)
  qed
qed

lemma addTimer_fields:
  "tq_timers (snd (addTimer cb when i p q)) = tq_timers q"
  "tq_armed (snd (addTimer cb when i p q)) = tq_armed q"
  "tq_heap (snd (addTimer cb when i p q)) = (tq_heap q)(p \<mapsto> Timer_new cb when (of_int i))"
  by (simp_all add: addTimer_def)

lemma addTimer_heap:
  assumes "tq_heap q p = None" "p < UINTPTR_MAX" "in32 i"
  shows "heap_le q (snd (addTimer cb when i p q))"
    and "heap_ok q \<Longrightarrow> heap_ok (snd (addTimer cb when i p q))"
  using assms by (auto simp: heap_le_def heap_ok_def addTimer_fields Timer_new_def)

section \<open>What is due\<close>

text \<open>
  C24. \<open>getExpired\<close> returns exactly the entries whose time is not after the given one, in
  order, and leaves exactly the others: the greatest address in the sentry includes those whose
  time is the given one.
\<close>

theorem getExpired_exact:
  assumes "tq_wf q" "getExpired time q = (expired, q')"
  shows "expired @ tq_timers q' = tq_timers q \<and>
    (\<forall>e \<in> set expired. microSecondsSinceEpoch (fst e) \<le> microSecondsSinceEpoch time) \<and>
    (\<forall>e \<in> set (tq_timers q'). microSecondsSinceEpoch time < microSecondsSinceEpoch (fst e)) \<and>
    tq_wf q'"
proof -
  let ?p = "lower_bound Entry_less (tq_timers q) (time, UINTPTR_MAX)"
  have e: "expired = take ?p (tq_timers q)" "q' = q\<lparr>tq_timers := drop ?p (tq_timers q)\<rparr>"
    using assms(2) by (simp_all add: getExpired_def Let_def)
  from getExpired_eq [OF assms(1), of time] assms(2) have
    f: "expired = filter (\<lambda>e. \<not> Timestamp_less time (fst e)) (tq_timers q)"
      "q' = q\<lparr>tq_timers := filter (\<lambda>e. Timestamp_less time (fst e)) (tq_timers q)\<rparr>"
    by simp_all
  have "expired @ tq_timers q' = tq_timers q" using e by simp
  moreover have "tq_wf q'"
    using assms(1) by (simp add: f tq_wf_def sorted_wrt_filter heap_ok_def entry_ok_def [abs_def] list_all_iff)
  ultimately show ?thesis unfolding f by (simp add: Timestamp_less_def)
qed

definition demo_tq :: "nat TimerQueue" where
  "demo_tq =
     \<lparr>tq_timers = [(Timestamp_of 100, 72), (Timestamp_of 200, 64), (Timestamp_of 300, 80)],
      tq_heap = [64 \<mapsto> Timer_new None (Timestamp_of 200) 0, 72 \<mapsto> Timer_new None (Timestamp_of 100) 0,
        80 \<mapsto> Timer_new None (Timestamp_of 300) 5],
      tq_armed = None, tq_ticks = 0\<rparr>"

lemma demo_tq_wf: "tq_wf demo_tq"
proof -
  have "(0 :: rat) = of_int 0 \<and> in32 0" "(5 :: rat) = of_int 5 \<and> in32 5" by (simp_all add: in32_def)
  then show ?thesis
    unfolding tq_wf_def heap_ok_def demo_tq_def
    by (auto simp: Timer_new_def Timestamp_of_def Entry_less_def Timestamp_less_def entry_ok_def
        time_ok_def UINTPTR_MAX_def split: if_splits)
qed

theorem getExpired_exact_witness:
  "fst (getExpired (Timestamp_of 200) demo_tq) @ tq_timers (snd (getExpired (Timestamp_of 200) demo_tq)) =
     tq_timers demo_tq \<and>
   fst (getExpired (Timestamp_of 200) demo_tq) = [(Timestamp_of 100, 72), (Timestamp_of 200, 64)]"
  using getExpired_exact [OF demo_tq_wf, of "Timestamp_of 200", OF surjective_pairing]
  by (simp add: getExpired_def demo_tq_def lower_bound_def Entry_less_def Timestamp_less_def Timestamp_of_def
      UINTPTR_MAX_def Let_def)

end
