(* ===== verification/EventLoop.thy ===== *)
theory EventLoop
  imports TimerQueue
begin

text \<open>
  \<open>net::EventLoop\<close> (src/net/EventLoop.h, EventLoop.cc) with its poller, wake-up descriptor
  and timer queue. The user's callbacks are names; what the body of a callback does to the loop is a
  parameter: the list of calls it makes of the loop's interface. Functors and channel callbacks
  are the values \<open>std::bind\<close> makes of the library's own functions, or a user's callback.
\<close>

section \<open>State\<close>

datatype 'u api_call =
    Api_queueInLoop "'u option"
  | Api_runAt Timestamp "'u option"
  | Api_runAfter double "'u option"
  | Api_runEvery double "'u option"

text \<open>The surroundings: the clock, the allocator, the user's callbacks.\<close>

record 'u env =
  env_clock :: "nat \<Rightarrow> Timestamp"
  env_new :: allocator
  env_script :: "'u \<Rightarrow> 'u api_call list"

datatype 'u Functor = AddTimerInLoop nat | Call "'u option"

datatype 'u handler = Wakeup_handleRead | TimerQueue_handleRead_cb | Client 'u

text \<open>
  \<open>el_wakeups\<close> is the eventfd's counter; \<open>el_ran\<close> is the history of the user callbacks
  that were started.
\<close>

record 'u EventLoop =
  el_quit :: bool
  el_channels :: "nat \<Rightarrow> 'u handler Channel option"
  el_requests :: "ctl list"
  el_wakeups :: nat
  el_pending :: "'u Functor list"
  el_ran :: "'u list"

type_synonym 'u World = "'u TimerQueue \<times> 'u EventLoop"

section \<open>Construction\<close>

definition EventLoop_update :: "nat \<Rightarrow> 'u handler Channel \<Rightarrow> 'u EventLoop \<Rightarrow> 'u EventLoop" where
  "EventLoop_update addr c l =
     l\<lparr>el_channels := (el_channels l)(addr \<mapsto> c), el_requests := el_requests l @ [Epoller_update addr c]\<rparr>"

text \<open>
  The timer queue is a member constructed before the body of the constructor runs. The descriptors
  are what the kernel returned, \<open>-1\<close> on failure.
\<close>

definition createEventFd :: "int \<Rightarrow> int res" where
  "createEventFd fd = cassert (fd \<noteq> - 1) (Inr fd)"

definition createTimerfd :: "int \<Rightarrow> int res" where
  "createTimerfd timerfd = cassert (timerfd \<noteq> - 1) (Inr timerfd)"

definition TimerQueue_init :: "nat \<Rightarrow> int \<Rightarrow> 'u EventLoop \<Rightarrow> 'u World res" where
  "TimerQueue_init addr fd l =
     bind_r (createTimerfd fd) (\<lambda>timerfd.
       let channel = setReadCallback TimerQueue_handleRead_cb (Channel_new timerfd);
           (channel, request) = enableReading True addr channel
       in Inr (TimerQueue_new, EventLoop_update addr channel l))"

definition EventLoop_new :: "int \<Rightarrow> int \<Rightarrow> int \<Rightarrow> nat \<Rightarrow> nat \<Rightarrow> 'u World res" where
  "EventLoop_new epfd fd timerfd addr timer_addr =
     bind_r (Epoller_new epfd) (\<lambda>poller.
     bind_r (createEventFd fd) (\<lambda>eventfd.
     bind_r (TimerQueue_init timer_addr timerfd
               \<lparr>el_quit = False, el_channels = Map.empty, el_requests = [], el_wakeups = 0,
                el_pending = [], el_ran = []\<rparr>) (\<lambda>(q, l).
       let channel = setReadCallback Wakeup_handleRead (Channel_new eventfd);
           (channel, request) = enableReading True addr channel
       in Inr (q, EventLoop_update addr channel l))))"

section \<open>Queueing and timers\<close>

definition wakeup :: "'u EventLoop \<Rightarrow> 'u EventLoop" where
  "wakeup l = l\<lparr>el_wakeups := el_wakeups l + 1\<rparr>"

definition queueInLoop :: "'u Functor \<Rightarrow> 'u EventLoop \<Rightarrow> 'u EventLoop" where
  "queueInLoop cb l = wakeup (l\<lparr>el_pending := el_pending l @ [cb]\<rparr>)"

definition EventLoop_handleRead :: "'u EventLoop \<Rightarrow> 'u EventLoop" where
  "EventLoop_handleRead l = l\<lparr>el_wakeups := 0\<rparr>"

text \<open>\<open>TimerQueue::addTimer\<close>: \<open>new Timer\<close>, then \<open>queueInLoop\<close>.\<close>

definition loop_addTimer ::
  "'u env \<Rightarrow> 'u option \<Rightarrow> Timestamp \<Rightarrow> int \<Rightarrow> 'u World \<Rightarrow> (int \<times> 'u World) res" where
  "loop_addTimer env cb when interval = (\<lambda>(q, l).
     case operator_new (env_new env) (dom (tq_heap q)) of
       None \<Rightarrow> Inl BadAlloc
     | Some p \<Rightarrow>
         let (r, q) = addTimer cb when interval p q in Inr (r, (q, queueInLoop (AddTimerInLoop p) l)))"

definition runAt :: "'u env \<Rightarrow> Timestamp \<Rightarrow> 'u option \<Rightarrow> 'u World \<Rightarrow> (int \<times> 'u World) res" where
  "runAt env when cb w = bind_r (int_of_double 0) (\<lambda>i. loop_addTimer env cb when i w)"

definition runAfter :: "'u env \<Rightarrow> double \<Rightarrow> 'u option \<Rightarrow> 'u World \<Rightarrow> (int \<times> 'u World) res" where
  "runAfter env delay cb = (\<lambda>(q, l).
     let (now, q) = read_clock (env_clock env) q in
     bind_r (int_of_double delay) (\<lambda>d.
     bind_r (int_of_double 0) (\<lambda>i. loop_addTimer env cb (addTime now d) i (q, l))))"

definition runEvery :: "'u env \<Rightarrow> double \<Rightarrow> 'u option \<Rightarrow> 'u World \<Rightarrow> (int \<times> 'u World) res" where
  "runEvery env interval cb = (\<lambda>(q, l).
     let (now, q) = read_clock (env_clock env) q in
     bind_r (int_of_double interval) (\<lambda>d.
     bind_r (int_of_double interval) (\<lambda>i. loop_addTimer env cb (addTime now d) i (q, l))))"

fun api :: "'u env \<Rightarrow> 'u api_call \<Rightarrow> 'u World \<Rightarrow> 'u World res" where
  "api env (Api_queueInLoop cb) w = Inr (fst w, queueInLoop (Call cb) (snd w))"
| "api env (Api_runAt when cb) w = bind_r (runAt env when cb w) (\<lambda>(_, w). Inr w)"
| "api env (Api_runAfter delay cb) w = bind_r (runAfter env delay cb w) (\<lambda>(_, w). Inr w)"
| "api env (Api_runEvery interval cb) w = bind_r (runEvery env interval cb w) (\<lambda>(_, w). Inr w)"

fun api_calls :: "'u env \<Rightarrow> 'u api_call list \<Rightarrow> 'u World \<Rightarrow> 'u World res" where
  "api_calls env [] w = Inr w"
| "api_calls env (c # cs) w = bind_r (api env c w) (api_calls env cs)"

definition run_user :: "'u env \<Rightarrow> 'u \<Rightarrow> 'u World \<Rightarrow> 'u World res" where
  "run_user env u w = api_calls env (env_script env u) (fst w, (snd w)\<lparr>el_ran := el_ran (snd w) @ [u]\<rparr>)"

section \<open>The loop\<close>

fun run_functor :: "'u env \<Rightarrow> 'u Functor \<Rightarrow> 'u World \<Rightarrow> 'u World res" where
  "run_functor env (AddTimerInLoop p) w =
     bind_r (addTimerInLoop (env_clock env) p (fst w)) (\<lambda>q. Inr (q, snd w))"
| "run_functor env (Call cb) w = invoke (run_user env) cb w"

fun run_functors :: "'u env \<Rightarrow> 'u Functor list \<Rightarrow> 'u World \<Rightarrow> 'u World res" where
  "run_functors env [] w = Inr w"
| "run_functors env (f # fs) w = bind_r (run_functor env f w) (run_functors env fs)"

definition doPendingFunctors :: "'u env \<Rightarrow> 'u World \<Rightarrow> 'u World res" where
  "doPendingFunctors env = (\<lambda>(q, l).
     let functors = el_pending l; l = l\<lparr>el_pending := []\<rparr> in run_functors env functors (q, l))"

fun run_handler :: "'u env \<Rightarrow> int \<Rightarrow> 'u handler \<Rightarrow> 'u World \<Rightarrow> 'u World res" where
  "run_handler env n Wakeup_handleRead w = Inr (fst w, EventLoop_handleRead (snd w))"
| "run_handler env n TimerQueue_handleRead_cb w =
     TimerQueue_handleRead (run_user env) (env_clock env) n w"
| "run_handler env n (Client u) w = run_user env u w"

fun handle_events :: "'u env \<Rightarrow> int \<Rightarrow> nat list \<Rightarrow> 'u World \<Rightarrow> 'u World res" where
  "handle_events env n [] w = Inr w"
| "handle_events env n (addr # channels) w =
     (case el_channels (snd w) addr of
        None \<Rightarrow> Inl Undefined
      | Some _ \<Rightarrow>
          bind_r (handleEvent (run_handler env n) (\<lambda>w. the (el_channels (snd w) addr)) w)
            (handle_events env n channels))"

text \<open>
  One round: what \<open>epoll_wait\<close> reported and what a read of the timer descriptor returns are
  the kernel's.
\<close>

type_synonym poll_result = "(32 word \<times> nat) list \<times> int"

definition loop_round :: "'u env \<Rightarrow> poll_result \<Rightarrow> 'u World \<Rightarrow> 'u World res" where
  "loop_round env = (\<lambda>(ready, n) w.
     bind_r (Epoller_poll ready (el_channels (snd w)) []) (\<lambda>(store, channels).
     bind_r (handle_events env n channels (fst w, (snd w)\<lparr>el_channels := store\<rparr>)) (doPendingFunctors env)))"

partial_function (option) loop ::
  "'u env \<Rightarrow> (nat \<Rightarrow> poll_result) \<Rightarrow> 'u World \<Rightarrow> 'u World res option" where
  "loop env polls w =
     (if \<not> el_quit (snd w)
      then (case loop_round env (polls 0) w of
              Inl e \<Rightarrow> Some (Inl e)
            | Inr w' \<Rightarrow> loop env (\<lambda>i. polls (Suc i)) w')
      else Some (Inr w))"

section \<open>What a call of the interface does\<close>

text \<open>Every call appends one functor and one wake-up, and leaves the set and the kernel timer alone.\<close>

definition api_time_ok :: "'u api_call \<Rightarrow> bool" where
  "api_time_ok c \<longleftrightarrow> (case c of Api_runAt w _ \<Rightarrow> time_ok w | _ \<Rightarrow> True)"

lemma addTime_ok: "clock_ok clock \<Longrightarrow> time_ok (addTime (clock n) i)"
  by (rule addTime_bounds(2)) (simp_all add: clock_ok_def)

lemma int_of_double_range: "int_of_double x = Inr i \<Longrightarrow> in32 i"
  by (simp add: int_of_double_def Let_def split: if_splits)

definition queued_one :: "'u World \<Rightarrow> 'u World \<Rightarrow> 'u Functor \<Rightarrow> bool" where
  "queued_one w w' f \<longleftrightarrow>
     tq_timers (fst w') = tq_timers (fst w) \<and> tq_armed (fst w') = tq_armed (fst w) \<and>
     snd w' = queueInLoop f (snd w) \<and>
     (case f of
        Call _ \<Rightarrow> tq_heap (fst w') = tq_heap (fst w)
      | AddTimerInLoop p \<Rightarrow> \<exists>t i. p \<notin> dom (tq_heap (fst w)) \<and> p < UINTPTR_MAX \<and>
          tq_heap (fst w') = (tq_heap (fst w))(p \<mapsto> t) \<and> ti_interval t = of_int i \<and> in32 i \<and>
          ti_repeat t = (ti_interval t > 0))"

lemma loop_addTimer_queued:
  assumes "loop_addTimer env cb when i w = Inr (r, w')" "in32 i"
  shows "\<exists>p. queued_one w w' (AddTimerInLoop p) \<and>
    tq_heap (fst w') p = Some (Timer_new cb when (of_int i))"
proof -
  obtain q l where w: "w = (q, l)" by (cases w)
  from assms(1) obtain p where p: "operator_new (env_new env) (dom (tq_heap q)) = Some p"
    "w' = (snd (addTimer cb when i p q), queueInLoop (AddTimerInLoop p) l)"
    by (auto simp: loop_addTimer_def w case_prod_beta split: option.splits)
  then have "queued_one w w' (AddTimerInLoop p)"
    using operator_new [OF p(1)] assms(2)
    by (auto simp: queued_one_def w addTimer_fields Timer_new_def)
  then show ?thesis using p(2) by (auto simp: addTimer_fields)
qed

lemma queued_one_ticks: "queued_one (q\<lparr>tq_ticks := n\<rparr>, l) w' f \<Longrightarrow> queued_one (q, l) w' f"
  by (cases f) (simp_all add: queued_one_def)

lemma api_queued:
  assumes "api env c w = Inr w'"
  shows "\<exists>f. queued_one w w' f \<and> (\<forall>cb. f = Call cb \<longleftrightarrow> c = Api_queueInLoop cb) \<and>
    (\<forall>p. f = AddTimerInLoop p \<longrightarrow> api_time_ok c \<longrightarrow> clock_ok (env_clock env) \<longrightarrow>
       time_ok (ti_expiration (the (tq_heap (fst w') p))))"
proof -
  obtain q l where w: "w = (q, l)" by (cases w)
  have timer: ?thesis
    if "loop_addTimer env cb w0 i (q\<lparr>tq_ticks := n\<rparr>, l) = Inr (r, w')" "in32 i" "\<forall>cb. c \<noteq> Api_queueInLoop cb"
      "api_time_ok c \<Longrightarrow> clock_ok (env_clock env) \<Longrightarrow> time_ok w0" for cb w0 i n r
    using loop_addTimer_queued [OF that(1,2)] that(3,4) queued_one_ticks [where q = q and n = n and l = l and w' = w']
    by (fastforce simp: w Timer_new_def)
  show ?thesis
  proof (cases c)
    case (Api_queueInLoop cb)
    with assms show ?thesis by (intro exI [of _ "Call cb"]) (auto simp: queued_one_def)
  next
    case (Api_runAt w0 cb)
    with assms w obtain i r where "int_of_double 0 = Inr i" "loop_addTimer env cb w0 i (q, l) = Inr (r, w')"
      by (auto simp: runAt_def bind_r_eq_Inr)
    then show ?thesis
      using timer [of cb w0 i "tq_ticks q" r] Api_runAt int_of_double_range by (simp add: api_time_ok_def)
  next
    case (Api_runAfter d cb)
    with assms w obtain i j r where "int_of_double 0 = Inr i" "int_of_double d = Inr j"
      "loop_addTimer env cb (addTime (env_clock env (tq_ticks q)) j) i (q\<lparr>tq_ticks := Suc (tq_ticks q)\<rparr>, l) = Inr (r, w')"
      by (auto simp: runAfter_def read_clock_def bind_r_eq_Inr)
    then show ?thesis
      using timer [of cb _ i "Suc (tq_ticks q)" r] Api_runAfter int_of_double_range addTime_ok by simp
  next
    case (Api_runEvery d cb)
    with assms w obtain i r where "int_of_double d = Inr i"
      "loop_addTimer env cb (addTime (env_clock env (tq_ticks q)) i) i (q\<lparr>tq_ticks := Suc (tq_ticks q)\<rparr>, l) = Inr (r, w')"
      by (auto simp: runEvery_def read_clock_def bind_r_eq_Inr)
    then show ?thesis
      using timer [of cb _ i "Suc (tq_ticks q)" r] Api_runEvery int_of_double_range addTime_ok by simp
  qed
qed

lemma queueInLoop_fields [simp]:
  "el_pending (queueInLoop f l) = el_pending l @ [f]" "el_wakeups (queueInLoop f l) = Suc (el_wakeups l)"
  "el_ran (queueInLoop f l) = el_ran l" "el_quit (queueInLoop f l) = el_quit l"
  "el_channels (queueInLoop f l) = el_channels l" "el_requests (queueInLoop f l) = el_requests l"
  by (simp_all add: queueInLoop_def wakeup_def)

lemma queued_one_heap:
  "queued_one w w' f \<Longrightarrow> heap_le (fst w) (fst w') \<and> (heap_ok (fst w) \<longrightarrow> heap_ok (fst w'))"
proof (cases f)
  case (AddTimerInLoop p)
  moreover assume "queued_one w w' f"
  ultimately have "\<exists>t i. p \<notin> dom (tq_heap (fst w)) \<and> p < UINTPTR_MAX \<and>
      tq_heap (fst w') = (tq_heap (fst w))(p \<mapsto> t) \<and> ti_interval t = of_int i \<and> in32 i \<and>
      ti_repeat t = (ti_interval t > 0)"
    by (simp add: queued_one_def)
  then show ?thesis unfolding heap_le_def heap_ok_def by (elim exE conjE) (simp add: domIff; fastforce)
qed (auto simp: queued_one_def heap_le_def heap_ok_def)

lemma api_calls_keeps:
  "api_calls env cs w = Inr w' \<Longrightarrow>
    tq_timers (fst w') = tq_timers (fst w) \<and> tq_armed (fst w') = tq_armed (fst w) \<and>
    heap_le (fst w) (fst w') \<and> (heap_ok (fst w) \<longrightarrow> heap_ok (fst w'))"
proof (induction cs arbitrary: w)
  case Nil
  then show ?case by (simp add: heap_le_def)
next
  case (Cons c cs)
  then obtain w1 where w1: "api env c w = Inr w1" "api_calls env cs w1 = Inr w'"
    by (auto simp: bind_r_eq_Inr)
  from api_queued [OF w1(1)] obtain f where f: "queued_one w w1 f" by auto
  from f queued_one_heap [OF f] Cons.IH [OF w1(2)] show ?case
    by (auto simp: queued_one_def heap_le_def)
qed

interpretation user: queueing_callbacks "run_user env" for env :: "'u env"
proof
  fix u q q' and e e' :: "'u EventLoop"
  assume r: "run_user env u (q, e) = Inr (q', e')"
  show "tq_timers q' = tq_timers q \<and> tq_armed q' = tq_armed q"
    "heap_le q q' \<and> (heap_ok q \<longrightarrow> heap_ok q')"
    using api_calls_keeps [OF r [unfolded run_user_def]] by simp_all
qed

section \<open>The invariant of the loop\<close>

definition timers_of :: "'u Functor list \<Rightarrow> nat list" where
  "timers_of fs = concat (map (\<lambda>f. case f of AddTimerInLoop p \<Rightarrow> [p] | Call _ \<Rightarrow> []) fs)"

lemma timers_of_simps [simp]:
  "timers_of [] = []" "timers_of (Call cb # fs) = timers_of fs"
  "timers_of (AddTimerInLoop p # fs) = p # timers_of fs" "timers_of (fs @ gs) = timers_of fs @ timers_of gs"
  by (simp_all add: timers_of_def)

text \<open>The timers still to be inserted: live, each queued once, none of them in \<open>X\<close>.\<close>

definition pend_ok :: "nat set \<Rightarrow> 'u Functor list \<Rightarrow> 'u TimerQueue \<Rightarrow> bool" where
  "pend_ok X fs q \<longleftrightarrow>
     heap_ok q \<and> X \<subseteq> dom (tq_heap q) \<and> distinct (timers_of fs) \<and>
     (\<forall>p \<in> set (timers_of fs). p \<notin> X \<and> (\<exists>t. tq_heap q p = Some t \<and> time_ok (ti_expiration t)))"

definition loop_inv :: "'u Functor list \<Rightarrow> 'u World \<Rightarrow> bool" where
  "loop_inv fs w \<longleftrightarrow>
     tq_wf (fst w) \<and> armed_ok (fst w) \<and>
     pend_ok (snd ` set (tq_timers (fst w))) (fs @ el_pending (snd w)) (fst w)"

definition env_ok :: "'u env \<Rightarrow> bool" where
  "env_ok env \<longleftrightarrow> clock_ok (env_clock env) \<and> (\<forall>u. list_all api_time_ok (env_script env u))"

lemma pend_ok_grow:
  assumes "pend_ok X (fs @ el_pending (snd w)) (fst w)" "queued_one w w' f"
    and "\<forall>p. f = AddTimerInLoop p \<longrightarrow> time_ok (ti_expiration (the (tq_heap (fst w') p)))"
  shows "pend_ok X (fs @ el_pending (snd w')) (fst w')"
proof (cases f)
  case (Call cb)
  with assms(1,2) show ?thesis by (simp add: pend_ok_def queued_one_def heap_ok_def)
next
  case (AddTimerInLoop p)
  with assms(2) obtain t where t: "p \<notin> dom (tq_heap (fst w))" "tq_heap (fst w') = (tq_heap (fst w))(p \<mapsto> t)"
    "snd w' = queueInLoop f (snd w)"
    by (auto simp: queued_one_def)
  moreover have "heap_ok (fst w')" using queued_one_heap [OF assms(2)] assms(1) by (simp add: pend_ok_def)
  moreover have "time_ok (ti_expiration t)" using assms(3) AddTimerInLoop t(2) by simp
  ultimately show ?thesis using assms(1) AddTimerInLoop by (auto simp: pend_ok_def)
qed

lemma api_pend_ok:
  assumes "api env c w = Inr w'" "api_time_ok c" "clock_ok (env_clock env)"
    and "pend_ok X (fs @ el_pending (snd w)) (fst w)"
  shows "pend_ok X (fs @ el_pending (snd w')) (fst w')"
  using api_queued [OF assms(1)] pend_ok_grow [OF assms(4)] assms(2,3) by blast

lemma api_calls_pend_ok:
  "api_calls env cs w = Inr w' \<Longrightarrow> list_all api_time_ok cs \<Longrightarrow> clock_ok (env_clock env) \<Longrightarrow>
    pend_ok X (fs @ el_pending (snd w)) (fst w) \<Longrightarrow> pend_ok X (fs @ el_pending (snd w')) (fst w')"
proof (induction cs arbitrary: w)
  case (Cons c cs)
  then obtain w1 where "api env c w = Inr w1" "api_calls env cs w1 = Inr w'" by (auto simp: bind_r_eq_Inr)
  with Cons show ?case using api_pend_ok [of env c w w1 X fs] by simp
qed simp

lemma run_user_pend_ok:
  assumes "run_user env u w = Inr w'" "env_ok env" "pend_ok X (fs @ el_pending (snd w)) (fst w)"
  shows "pend_ok X (fs @ el_pending (snd w')) (fst w')"
  using api_calls_pend_ok [OF assms(1) [unfolded run_user_def], of X fs] assms(2,3) by (simp add: env_ok_def)

lemma run_expired_pend_ok:
  "run_expired (run_user env) es w = Inr w' \<Longrightarrow> env_ok env \<Longrightarrow>
    pend_ok X (fs @ el_pending (snd w)) (fst w) \<Longrightarrow> pend_ok X (fs @ el_pending (snd w')) (fst w')"
proof (induction es arbitrary: w)
  case (Cons x es)
  obtain t p where x: "x = (t, p)" by (cases x)
  from Cons.prems x obtain u w1 where "run_user env u w = Inr w1" "run_expired (run_user env) es w1 = Inr w'"
    by (auto simp: bind_r_eq_Inr Timer_run_def invoke_def split: option.splits)
  with Cons show ?case using run_user_pend_ok [of env u w w1 X fs] by simp
qed simp

lemma tq_wf_heap_le:
  "tq_wf q \<Longrightarrow> heap_le q q' \<Longrightarrow> heap_ok q' \<Longrightarrow> tq_timers q' = tq_timers q \<Longrightarrow> tq_wf q'"
  by (auto simp: tq_wf_def list_all_iff entry_ok_def heap_le_def)

lemma armed_ok_cong:
  "armed_ok q \<Longrightarrow> tq_timers q' = tq_timers q \<Longrightarrow> tq_armed q' = tq_armed q \<Longrightarrow> armed_ok q'"
  by (auto simp: armed_ok_def armed_for_def split: list.splits)

lemma run_user_inv:
  assumes "run_user env u w = Inr w'" "env_ok env" "loop_inv fs w"
  shows "loop_inv fs w'"
proof -
  obtain q l q' l' where w: "w = (q, l)" "w' = (q', l')" by (cases w, cases w')
  note r = assms(1) [unfolded w]
  note t = user.run_timers [OF r] user.run_heap [OF r]
  have "tq_wf q'" using assms(3) t tq_wf_heap_le [of q q'] by (auto simp: loop_inv_def w tq_wf_def)
  moreover have "armed_ok q'" using assms(3) t armed_ok_cong [of q q'] by (simp add: loop_inv_def w)
  moreover have "pend_ok (snd ` set (tq_timers q)) (fs @ el_pending l') q'"
    using run_user_pend_ok [OF assms(1,2)] assms(3) by (simp add: loop_inv_def w)
  ultimately show ?thesis using t by (simp add: loop_inv_def w)
qed

lemma run_functor_inv:
  assumes "run_functor env f w = Inr w'" "env_ok env" "loop_inv (f # fs) w"
  shows "loop_inv fs w'"
proof (cases f)
  case (Call cb)
  with assms(1) obtain u where "run_user env u w = Inr w'" by (cases cb) (simp_all add: invoke_def)
  moreover have "loop_inv fs w" using assms(3) Call by (simp add: loop_inv_def pend_ok_def)
  ultimately show ?thesis by (rule run_user_inv [OF _ assms(2)])
next
  case (AddTimerInLoop p)
  let ?q = "fst w"
  from assms(3) AddTimerInLoop obtain t where t: "tq_heap ?q p = Some t" "time_ok (ti_expiration t)"
    "p \<notin> snd ` set (tq_timers ?q)"
    by (auto simp: loop_inv_def pend_ok_def)
  have "tq_wf ?q" "armed_ok ?q" "clock_ok (env_clock env)"
    using assms(2,3) by (simp_all add: loop_inv_def env_ok_def)
  from addTimerInLoop_ok [OF this t] obtain q' where
    q': "addTimerInLoop (env_clock env) p ?q = Inr q'" "tq_wf q'" "armed_ok q'" "tq_heap q' = tq_heap ?q"
      "set (tq_timers q') = insert (ti_expiration t, p) (set (tq_timers ?q))"
    by blast
  then have w': "w' = (q', snd w)" using assms(1) AddTimerInLoop by simp
  have "pend_ok (insert p (snd ` set (tq_timers ?q))) (fs @ el_pending (snd w)) q'"
    using assms(3) AddTimerInLoop t(1) q'(4) by (auto simp: loop_inv_def pend_ok_def heap_ok_def)
  then show ?thesis using q' by (simp add: loop_inv_def w')
qed

lemma run_functors_inv:
  "run_functors env fs w = Inr w' \<Longrightarrow> env_ok env \<Longrightarrow> loop_inv fs w \<Longrightarrow> loop_inv [] w'"
proof (induction fs arbitrary: w)
  case (Cons f fs)
  then obtain w1 where w1: "run_functor env f w = Inr w1" "run_functors env fs w1 = Inr w'"
    by (auto simp: bind_r_eq_Inr)
  from Cons.IH [OF w1(2)] run_functor_inv [OF w1(1)] Cons.prems show ?case by blast
qed simp

lemma doPendingFunctors_inv:
  assumes "doPendingFunctors env w = Inr w'" "env_ok env" "loop_inv [] w"
  shows "loop_inv [] w'"
  using run_functors_inv [of env "el_pending (snd w)" "(fst w, (snd w)\<lparr>el_pending := []\<rparr>)" w'] assms
  by (cases w) (simp add: doPendingFunctors_def loop_inv_def)

lemma run_handler_inv:
  assumes "run_handler env n h w = Inr w'" "env_ok env" "loop_inv [] w"
  shows "loop_inv [] w'"
proof (cases h)
  case Wakeup_handleRead
  with assms(1,3) show ?thesis by (auto simp: EventLoop_handleRead_def loop_inv_def)
next
  case (Client u)
  with assms show ?thesis using run_user_inv by simp
next
  case TimerQueue_handleRead_cb
  obtain q l q' l1 where w: "w = (q, l)" and w': "w' = (q', l1)" by (cases w, cases w')
  have wf: "tq_wf q" and clock: "clock_ok (env_clock env)"
    using assms(2,3) by (simp_all add: loop_inv_def w env_ok_def)
  define due q0 where "due = due_entries (env_clock env) q" and "q0 = at_callbacks (env_clock env) n q"
  have h: "TimerQueue_handleRead (run_user env) (env_clock env) n (q, l) = Inr (q', l1)"
    using assms(1) by (simp add: TimerQueue_handleRead_cb w w')
  from user.handleRead_returned [OF wf h] obtain q1 where
    r: "run_expired (run_user env) due (q0, l) = Inr (q1, l1)"
    by (auto simp: due_def q0_def)
  from user.handleRead_complete [OF wf clock r [unfolded due_def q0_def]] h have
    q': "tq_wf q'" "armed_ok q'"
      "snd ` set (tq_timers q') = snd ` (set (tq_timers q) - set due) \<union>
        {p. \<exists>w t. (w, p) \<in> set due \<and> tq_heap q p = Some t \<and> ti_repeat t}"
      "\<forall>p. p \<notin> snd ` set (tq_timers q) \<longrightarrow> tq_heap q' p = tq_heap q1 p"
    by (simp_all add: due_def)
  have "pend_ok (snd ` set (tq_timers q)) (el_pending l) q0"
    using assms(3) by (simp add: loop_inv_def w pend_ok_def heap_ok_def q0_def)
  then have p1: "pend_ok (snd ` set (tq_timers q)) (el_pending l1) q1"
    using run_expired_pend_ok [OF r assms(2), of _ "[]"] by simp
  have sub: "snd ` set (tq_timers q') \<subseteq> snd ` set (tq_timers q)"
  proof
    fix p assume "p \<in> snd ` set (tq_timers q')"
    then consider "p \<in> snd ` (set (tq_timers q) - set due)" | w where "(w, p) \<in> set due"
      unfolding q'(3) by blast
    then show "p \<in> snd ` set (tq_timers q)"
    proof cases
      case 2
      then have "(w, p) \<in> set (tq_timers q)" by (simp add: due_def due_entries_def)
      then show ?thesis by force
    qed blast
  qed
  have "pend_ok (snd ` set (tq_timers q')) (el_pending l1) q'"
    unfolding pend_ok_def
  proof (intro conjI ballI)
    show "heap_ok q'" using q'(1) by (simp add: tq_wf_def)
    show "snd ` set (tq_timers q') \<subseteq> dom (tq_heap q')"
      using q'(1) by (auto simp: tq_wf_def list_all_iff entry_ok_def)
    show "distinct (timers_of (el_pending l1))" using p1 by (simp add: pend_ok_def)
    fix p assume p: "p \<in> set (timers_of (el_pending l1))"
    with p1 show "p \<notin> snd ` set (tq_timers q')" using sub by (auto simp: pend_ok_def)
    show "\<exists>t. tq_heap q' p = Some t \<and> time_ok (ti_expiration t)"
      using p p1 q'(4) by (auto simp: pend_ok_def)
  qed
  with q' show ?thesis by (simp add: loop_inv_def w')
qed

lemma handleEvent_inv:
  assumes "\<And>cb s s'. run cb s = Inr s' \<Longrightarrow> P s \<Longrightarrow> P s'" "handleEvent run self s = Inr s'" "P s"
  shows "P s'"
proof -
  have i: "P b" if "invoke run cb a = Inr b" "P a" for cb a b
    using that assms(1) by (cases cb) (auto simp: invoke_def)
  from assms(2) obtain s1 where
    "(if ch_revents (self s) AND kReadEvent \<noteq> 0 then invoke run (ch_readCallback (self s)) s else Inr s) = Inr s1"
    "(if ch_revents (self s1) AND kWriteEvent \<noteq> 0 then invoke run (ch_writeCallback (self s1)) s1 else Inr s1) = Inr s'"
    by (auto simp: handleEvent_def bind_r_eq_Inr)
  with i assms(3) show ?thesis by (auto split: if_splits)
qed

lemma handle_events_inv:
  "handle_events env n chans w = Inr w' \<Longrightarrow> env_ok env \<Longrightarrow> loop_inv [] w \<Longrightarrow> loop_inv [] w'"
proof (induction chans arbitrary: w)
  case (Cons a chans)
  from Cons.prems(1) obtain w1 where
    w1: "handleEvent (run_handler env n) (\<lambda>w. the (el_channels (snd w) a)) w = Inr w1"
      "handle_events env n chans w1 = Inr w'"
    by (auto simp: bind_r_eq_Inr split: option.splits)
  have "loop_inv [] w1"
    by (rule handleEvent_inv [where P = "loop_inv []", OF _ w1(1) Cons.prems(3)]) (rule run_handler_inv [OF _ Cons.prems(2)])
  with Cons.IH [OF w1(2)] Cons.prems(2) show ?case by simp
qed simp

lemma loop_round_inv:
  assumes "loop_round env pr w = Inr w'" "env_ok env" "loop_inv [] w"
  shows "loop_inv [] w'"
proof -
  from assms(1) obtain ready n store chans w1 where r: "pr = (ready, n)"
    "handle_events env n chans (fst w, (snd w)\<lparr>el_channels := store\<rparr>) = Inr w1"
    "doPendingFunctors env w1 = Inr w'"
    by (cases pr) (auto simp: loop_round_def bind_r_eq_Inr)
  have "loop_inv [] (fst w, (snd w)\<lparr>el_channels := store\<rparr>)" using assms(3) by (simp add: loop_inv_def)
  from handle_events_inv [OF r(2) assms(2) this] doPendingFunctors_inv [OF r(3) assms(2)]
  show ?thesis by simp
qed

text \<open>
  The worlds a program can be in between two rounds: after construction, after a call of the
  interface by the thread of the loop, after a round.
\<close>

inductive reach :: "'u env \<Rightarrow> 'u World \<Rightarrow> bool" for env where
  reach_new: "EventLoop_new epfd fd timerfd addr timer_addr = Inr w \<Longrightarrow> reach env w"
| reach_api: "reach env w \<Longrightarrow> api_time_ok c \<Longrightarrow> api env c w = Inr w' \<Longrightarrow> reach env w'"
| reach_round: "reach env w \<Longrightarrow> loop_round env pr w = Inr w' \<Longrightarrow> reach env w'"

lemma EventLoop_new_eq:
  "EventLoop_new epfd fd timerfd addr timer_addr = Inr w \<Longrightarrow>
    fst w = TimerQueue_new \<and> el_pending (snd w) = [] \<and> el_wakeups (snd w) = 0 \<and> \<not> el_quit (snd w)"
  by (auto simp: EventLoop_new_def TimerQueue_init_def EventLoop_update_def Epoller_new_def createEventFd_def
      createTimerfd_def bind_r_eq_Inr cassert_eq_Inr case_prod_beta Let_def)

lemma reach_inv: "reach env w \<Longrightarrow> env_ok env \<Longrightarrow> loop_inv [] w"
proof (induction rule: reach.induct)
  case (reach_new epfd fd timerfd addr timer_addr w)
  with EventLoop_new_eq show ?case
    by (fastforce simp: loop_inv_def TimerQueue_new_def tq_wf_def heap_ok_def armed_ok_def pend_ok_def)
next
  case (reach_api w c w')
  from api_queued [OF reach_api.hyps(3)] obtain f where f: "queued_one w w' f" by auto
  have h: "heap_le (fst w) (fst w') \<and> (heap_ok (fst w) \<longrightarrow> heap_ok (fst w'))" by (rule queued_one_heap [OF f])
  have i: "loop_inv [] w" using reach_api by blast
  have "tq_wf (fst w')"
    by (rule tq_wf_heap_le [of "fst w"]) (use i h f in \<open>simp_all add: loop_inv_def tq_wf_def queued_one_def\<close>)
  moreover have "armed_ok (fst w')"
    by (rule armed_ok_cong [of "fst w"]) (use i f in \<open>simp_all add: loop_inv_def queued_one_def\<close>)
  moreover have "pend_ok (snd ` set (tq_timers (fst w))) (el_pending (snd w')) (fst w')"
    using api_pend_ok [OF reach_api.hyps(3,2), of _ "[]"] i reach_api.prems by (simp add: loop_inv_def env_ok_def)
  ultimately show ?case using f by (simp add: loop_inv_def queued_one_def)
next
  case (reach_round w pr w')
  then show ?case using loop_round_inv by blast
qed

section \<open>Wake-ups and order\<close>

definition wake_ok :: "'u World \<Rightarrow> bool" where
  "wake_ok w \<longleftrightarrow> (el_pending (snd w) \<noteq> [] \<longrightarrow> 0 < el_wakeups (snd w))"

definition users_of :: "'u Functor list \<Rightarrow> 'u list" where
  "users_of fs = concat (map (\<lambda>f. case f of Call (Some u) \<Rightarrow> [u] | _ \<Rightarrow> []) fs)"

definition posts :: "'u api_call list \<Rightarrow> 'u Functor list" where
  "posts cs = concat (map (\<lambda>c. case c of Api_queueInLoop cb \<Rightarrow> [Call cb] | _ \<Rightarrow> []) cs)"

definition calls :: "'u Functor list \<Rightarrow> 'u Functor list" where
  "calls fs = filter (\<lambda>f. case f of Call _ \<Rightarrow> True | _ \<Rightarrow> False) fs"

lemma api_calls_queue:
  "api_calls env cs w = Inr w' \<Longrightarrow> wake_ok w \<Longrightarrow>
    wake_ok w' \<and> el_ran (snd w') = el_ran (snd w) \<and> el_quit (snd w') = el_quit (snd w) \<and>
    length (el_pending (snd w')) = length (el_pending (snd w)) + length cs \<and>
    calls (el_pending (snd w')) = calls (el_pending (snd w)) @ posts cs"
proof (induction cs arbitrary: w)
  case (Cons c cs)
  then obtain w1 where w1: "api env c w = Inr w1" "api_calls env cs w1 = Inr w'" by (auto simp: bind_r_eq_Inr)
  from api_queued [OF w1(1)] obtain f where
    f: "queued_one w w1 f" "\<forall>cb. f = Call cb \<longleftrightarrow> c = Api_queueInLoop cb" by auto
  from f(1) have q: "snd w1 = queueInLoop f (snd w)" by (simp add: queued_one_def)
  have "calls [f] = posts [c]"
  proof (cases f)
    case (Call cb)
    then have "c = Api_queueInLoop cb" using f(2) [rule_format, of cb] by simp
    with Call show ?thesis by (simp add: calls_def posts_def)
  next
    case (AddTimerInLoop p)
    show ?thesis
    proof (cases c)
      case (Api_queueInLoop cb)
      then have "f = Call cb" using f(2) [rule_format, of cb] by simp
      with AddTimerInLoop show ?thesis by simp
    qed (use AddTimerInLoop in \<open>simp_all add: calls_def posts_def\<close>)
  qed
  moreover have "calls (fs @ gs) = calls fs @ calls gs" for fs gs :: "'a Functor list" by (simp add: calls_def)
  moreover have "posts (c # cs) = posts [c] @ posts cs" by (simp add: posts_def)
  moreover have "wake_ok w1" by (simp add: wake_ok_def q)
  ultimately show ?case using Cons.IH [OF w1(2)] q by simp
qed (simp add: posts_def)

lemma run_functor_queue:
  assumes "run_functor env f w = Inr w'" "wake_ok w"
  shows "wake_ok w' \<and> el_quit (snd w') = el_quit (snd w) \<and>
    el_ran (snd w') = el_ran (snd w) @ users_of [f] \<and>
    length (el_pending (snd w')) =
      length (el_pending (snd w)) + sum_list (map (length \<circ> env_script env) (users_of [f])) \<and>
    calls (el_pending (snd w')) =
      calls (el_pending (snd w)) @ concat (map (posts \<circ> env_script env) (users_of [f]))"
proof (cases f)
  case (AddTimerInLoop p)
  with assms show ?thesis by (auto simp: bind_r_eq_Inr users_of_def wake_ok_def)
next
  case (Call cb)
  with assms(1) obtain u where u: "cb = Some u" "run_user env u w = Inr w'"
    by (cases cb) (simp_all add: invoke_def)
  let ?w = "(fst w, (snd w)\<lparr>el_ran := el_ran (snd w) @ [u]\<rparr>)"
  have "wake_ok ?w" using assms(2) by (simp add: wake_ok_def)
  from api_calls_queue [OF u(2) [unfolded run_user_def] this] show ?thesis
    using Call u(1) by (simp add: users_of_def)
qed

lemma run_functors_queue:
  "run_functors env fs w = Inr w' \<Longrightarrow> wake_ok w \<Longrightarrow>
    wake_ok w' \<and> el_quit (snd w') = el_quit (snd w) \<and>
    el_ran (snd w') = el_ran (snd w) @ users_of fs \<and>
    length (el_pending (snd w')) =
      length (el_pending (snd w)) + sum_list (map (length \<circ> env_script env) (users_of fs)) \<and>
    calls (el_pending (snd w')) =
      calls (el_pending (snd w)) @ concat (map (posts \<circ> env_script env) (users_of fs))"
proof (induction fs arbitrary: w)
  case Nil
  then show ?case by (simp add: users_of_def)
next
  case (Cons f fs)
  then obtain w1 where w1: "run_functor env f w = Inr w1" "run_functors env fs w1 = Inr w'"
    by (auto simp: bind_r_eq_Inr)
  have "users_of (f # fs) = users_of [f] @ users_of fs" by (simp add: users_of_def)
  with run_functor_queue [OF w1(1) Cons.prems(2)] Cons.IH [OF w1(2)] show ?case by (simp add: comp_def)
qed

lemma doPendingFunctors_queue:
  assumes "doPendingFunctors env w = Inr w'"
  shows "wake_ok w' \<and> el_quit (snd w') = el_quit (snd w) \<and>
    el_ran (snd w') = el_ran (snd w) @ users_of (el_pending (snd w)) \<and>
    length (el_pending (snd w')) = sum_list (map (length \<circ> env_script env) (users_of (el_pending (snd w)))) \<and>
    calls (el_pending (snd w')) = concat (map (posts \<circ> env_script env) (users_of (el_pending (snd w))))"
proof -
  let ?w = "(fst w, (snd w)\<lparr>el_pending := []\<rparr>)"
  have "run_functors env (el_pending (snd w)) ?w = Inr w'"
    using assms by (cases w) (simp add: doPendingFunctors_def)
  moreover have "wake_ok ?w" by (simp add: wake_ok_def)
  ultimately show ?thesis using run_functors_queue [of env _ ?w w'] by (simp add: calls_def)
qed

lemma run_user_quit: "run_user env u w = Inr w' \<Longrightarrow> el_quit (snd w') = el_quit (snd w)"
proof -
  have "api_calls env cs w = Inr w' \<Longrightarrow> el_quit (snd w') = el_quit (snd w)" for cs and w w' :: "'a World"
  proof (induction cs arbitrary: w)
    case (Cons c cs)
    then obtain w1 where w1: "api env c w = Inr w1" "api_calls env cs w1 = Inr w'" by (auto simp: bind_r_eq_Inr)
    from api_queued [OF w1(1)] obtain f where "queued_one w w1 f" by auto
    with Cons.IH [OF w1(2)] show ?case by (simp add: queued_one_def)
  qed simp
  then show "run_user env u w = Inr w' \<Longrightarrow> el_quit (snd w') = el_quit (snd w)"
    by (fastforce simp: run_user_def)
qed

lemma run_expired_quit:
  "run_expired (run_user env) es w = Inr w' \<Longrightarrow> el_quit (snd w') = el_quit (snd w)"
proof (induction es arbitrary: w)
  case (Cons x es)
  obtain t p where x: "x = (t, p)" by (cases x)
  from Cons.prems x obtain u w1 where "run_user env u w = Inr w1" "run_expired (run_user env) es w1 = Inr w'"
    by (auto simp: bind_r_eq_Inr Timer_run_def invoke_def split: option.splits)
  with Cons.IH show ?case by (simp add: run_user_quit)
qed simp

lemma run_handler_quit: "run_handler env n h w = Inr w' \<Longrightarrow> el_quit (snd w') = el_quit (snd w)"
proof (cases h)
  case TimerQueue_handleRead_cb
  moreover assume "run_handler env n h w = Inr w'"
  ultimately obtain es q q' where "run_expired (run_user env) es (q, snd w) = Inr (q', snd w')"
    by (auto simp: TimerQueue_handleRead_def bind_r_eq_Inr case_prod_beta Let_def)
  from run_expired_quit [OF this] show ?thesis by simp
qed (auto simp: EventLoop_handleRead_def run_user_quit)

lemma handle_events_quit:
  "handle_events env n chans w = Inr w' \<Longrightarrow> el_quit (snd w') = el_quit (snd w)"
proof (induction chans arbitrary: w)
  case (Cons a chans)
  from Cons.prems(1) obtain w1 where
    w1: "handleEvent (run_handler env n) (\<lambda>w. the (el_channels (snd w) a)) w = Inr w1"
      "handle_events env n chans w1 = Inr w'"
    by (auto simp: bind_r_eq_Inr split: option.splits)
  have "el_quit (snd w1) = el_quit (snd w)"
    by (rule handleEvent_inv [where P = "\<lambda>s. el_quit (snd s) = el_quit (snd w)", OF _ w1(1)])
      (simp_all add: run_handler_quit)
  with Cons.IH [OF w1(2)] show ?case by simp
qed simp

lemma loop_round_quit:
  assumes "loop_round env pr w = Inr w'"
  shows "el_quit (snd w') = el_quit (snd w) \<and> wake_ok w'"
proof -
  from assms(1) obtain n store chans w1 where r:
    "handle_events env n chans (fst w, (snd w)\<lparr>el_channels := store\<rparr>) = Inr w1"
    "doPendingFunctors env w1 = Inr w'"
    by (cases pr) (auto simp: loop_round_def bind_r_eq_Inr)
  from handle_events_quit [OF r(1)] doPendingFunctors_queue [OF r(2)] show ?thesis by simp
qed

lemma loop_returned:
  assumes "loop env polls w = Some r"
  shows "\<not> el_quit (snd w) \<longrightarrow> isl r"
proof (rule loop.raw_induct [where P = "\<lambda>env polls w r. \<not> el_quit (snd w) \<longrightarrow> isl r", OF _ assms], intro impI)
  fix lp :: "'a env \<Rightarrow> (nat \<Rightarrow> poll_result) \<Rightarrow> 'a World \<Rightarrow> 'a World res option" and env polls w r
  assume ih: "\<And>env polls w r. lp env polls w = Some r \<Longrightarrow> \<not> el_quit (snd w) \<longrightarrow> isl r"
    and r: "(if \<not> el_quit (snd w)
       then case loop_round env (polls 0) w of Inl e \<Rightarrow> Some (Inl e) | Inr w' \<Rightarrow> lp env (\<lambda>i. polls (Suc i)) w'
       else Some (Inr w)) = Some r" and q: "\<not> el_quit (snd w)"
  show "isl r"
  proof (cases "loop_round env (polls 0) w")
    case (Inl e)
    with r q have "r = Inl e" by simp
    then show ?thesis by simp
  next
    case (Inr w1)
    with r q have "lp env (\<lambda>i. polls (Suc i)) w1 = Some r" by simp
    from ih [OF this] loop_round_quit [OF Inr] q show ?thesis by simp
  qed
qed

section \<open>Properties\<close>


text \<open>A program for the examples: one address, callback 0 posts callbacks 1 and 2, and 1 posts 2.\<close>

lift_definition demo_new :: allocator is "\<lambda>A. if 64 \<notin> A then Some 64 else None"
  by (auto simp: UINTPTR_MAX_def split: if_splits)

lemma operator_new_demo: "operator_new demo_new A = (if 64 \<notin> A then Some 64 else None)"
  by transfer simp

definition demo_env :: "nat env" where
  "demo_env = \<lparr>env_clock = (\<lambda>n. Timestamp_of (1700000000000000 + 10000000 * int (min n 9))), env_new = demo_new,
     env_script = (\<lambda>u. if u = 0 then [Api_queueInLoop (Some 1), Api_queueInLoop (Some 2)]
       else if u = 1 then [Api_queueInLoop (Some 2)] else [])\<rparr>"

lemma demo_env_ok: "env_ok demo_env"
proof -
  have "int (min n 9) \<le> 9" for n by simp
  then have "10000000 * int (min n 9) \<le> 90000000" for n by simp
  then have "clock_ok (env_clock demo_env)"
    by (auto simp: demo_env_def clock_ok_def Timestamp_of_def intro: le_less_trans [OF add_left_mono])
  then show ?thesis by (auto simp: env_ok_def demo_env_def api_time_ok_def)
qed

definition demo_start :: "nat World" where
  "demo_start = (case EventLoop_new 3 4 5 100 200 of Inr w \<Rightarrow> w | Inl _ \<Rightarrow> undefined)"

lemma demo_start_eq:
  "EventLoop_new 3 4 5 100 200 = Inr demo_start" "fst demo_start = TimerQueue_new"
  "el_pending (snd demo_start) = []" "el_wakeups (snd demo_start) = 0"
  by (simp_all add: demo_start_def EventLoop_new_def TimerQueue_init_def EventLoop_update_def Epoller_new_def
      createEventFd_def createTimerfd_def cassert_def case_prod_beta Let_def)

lemma demo_reach: "reach demo_env demo_start"
  by (rule reach_new [OF demo_start_eq(1)])

lemma demo_reach_queue: "reach demo_env (fst demo_start, queueInLoop (Call (Some 0)) (snd demo_start))"
  by (rule reach_api [OF demo_reach, of "Api_queueInLoop (Some 0)"]) (simp_all add: api_time_ok_def)


text \<open>
  \<open>doPendingFunctors\<close> starts every waiting user functor exactly once, in the order of the
  queueing, and nothing else; what they queue waits for the next round, in order.
\<close>

theorem functors_in_order:
  assumes "doPendingFunctors env w = Inr w'"
  shows "el_ran (snd w') = el_ran (snd w) @ users_of (el_pending (snd w)) \<and>
    length (el_pending (snd w')) = sum_list (map (length \<circ> env_script env) (users_of (el_pending (snd w)))) \<and>
    calls (el_pending (snd w')) = concat (map (posts \<circ> env_script env) (users_of (el_pending (snd w))))"
  using doPendingFunctors_queue [OF assms] by simp

definition demo_loop :: "nat EventLoop" where
  "demo_loop = \<lparr>el_quit = False, el_channels = Map.empty, el_requests = [], el_wakeups = 2,
     el_pending = [Call (Some 0), Call (Some 1)], el_ran = []\<rparr>"

theorem functors_in_order_witness:
  "\<exists>w'. doPendingFunctors demo_env (TimerQueue_new, demo_loop) = Inr w' \<and> el_ran (snd w') = [0, 1] \<and>
    el_pending (snd w') = [Call (Some 1), Call (Some 2), Call (Some 2)]"
proof -
  obtain w' where w': "doPendingFunctors demo_env (TimerQueue_new, demo_loop) = Inr w'"
    "el_pending (snd w') = [Call (Some 1), Call (Some 2), Call (Some 2)]"
    by (simp add: doPendingFunctors_def demo_loop_def invoke_def run_user_def demo_env_def Let_def)
  with functors_in_order [OF w'(1)] show ?thesis by (simp add: demo_loop_def users_of_def)
qed

text \<open>
  C2. As long as the set is not empty, the kernel timer is armed for its earliest entry, or 100
  microseconds after it was set when that is later: no timer is forgotten, across insertions,
  expiries and restarts, even of intervals whose sum wraps.
\<close>

theorem timer_always_armed:
  assumes "env_ok env" "reach env w" "tq_timers (fst w) = (when, p) # rest"
  shows "armed_for when (fst w)"
  using reach_inv [OF assms(2,1)] assms(3) by (simp add: loop_inv_def armed_ok_def)

definition demo_queue :: "nat TimerQueue" where
  "demo_queue =
     \<lparr>tq_timers = [(Timestamp_of 1700000005000000, 64)],
      tq_heap = [64 \<mapsto> Timer_new (Some 1) (Timestamp_of 1700000005000000) 5],
      tq_armed = Some (Timestamp_of 1700000010000000, \<lparr>tv_sec = 0, tv_nsec = 100000\<rparr>), tq_ticks = 2\<rparr>"

lemma int_of_double_int: "in32 i \<Longrightarrow> int_of_double (of_int i) = Inr i"
  by (simp add: int_of_double_def)

lemma demo_reach_timer: "\<exists>l. reach demo_env (demo_queue, l)"
proof -
  obtain l where l: "demo_start = (TimerQueue_new, l)" "el_pending l = []"
    using demo_start_eq(2,3) by (metis prod.collapse)
  let ?w = "Timestamp_of 1700000005000000"
  let ?q = "\<lparr>tq_timers = [], tq_heap = [64 \<mapsto> Timer_new (Some 1) ?w (5 :: rat)], tq_armed = None, tq_ticks = 1\<rparr>"
  have five: "int_of_double 5 = Inr 5" using int_of_double_int [of 5] by (simp add: in32_def)
  have "api demo_env (Api_runEvery 5 (Some 1)) demo_start = Inr (?q, queueInLoop (AddTimerInLoop 64) l)"
    by (simp add: l runEvery_def read_clock_def five loop_addTimer_def TimerQueue_new_def demo_env_def
        operator_new_demo addTimer_def addTime_def mul32_def add64_def kMicroSecondsPerSecond_def
        Timestamp_of_def)
  from reach_api [OF demo_reach _ this] have "reach demo_env (?q, queueInLoop (AddTimerInLoop 64) l)"
    by (simp add: api_time_ok_def)
  moreover have "\<exists>l'. loop_round demo_env ([], 0) (?q, queueInLoop (AddTimerInLoop 64) l) = Inr (demo_queue, l')"
    by (simp add: loop_round_def doPendingFunctors_def l Let_def addTimerInLoop_def tq_insert_def deref_def
        set_insert_def lower_bound_def resetTimerfd_def read_clock_def demo_env_def demo_queue_def
        howMuchTimeFromNow_def Timer_new_def Timestamp_of_def sub64_def div64_def mod64_def mul64_def
        kMicroSecondsPerSecond_def)
  ultimately show ?thesis using reach_round by blast
qed

theorem timer_always_armed_witness: "armed_for (Timestamp_of 1700000005000000) demo_queue"
proof -
  obtain l where "reach demo_env (demo_queue, l)" using demo_reach_timer by auto
  from timer_always_armed [OF demo_env_ok this] show ?thesis by (simp add: demo_queue_def)
qed

text \<open>
  C23. When the kernel timer has expired and the callbacks have returned, every timer that was not
  due is still there unchanged, and a timer that was due is there again exactly when it
  repeats.
\<close>

theorem repeating_timers_survive:
  assumes "env_ok env" "reach env (q, l)"
    and "TimerQueue_handleRead (run_user env) (env_clock env) n (q, l) = Inr (q', l')"
    and "(when, p) \<in> set (tq_timers q)"
  shows "if Timestamp_less (env_clock env (tq_ticks q)) when then (when, p) \<in> set (tq_timers q')
    else p \<in> snd ` set (tq_timers q') \<longleftrightarrow> ti_repeat (the (tq_heap q p))"
proof -
  have wf: "tq_wf q" and clock: "clock_ok (env_clock env)"
    using reach_inv [OF assms(2,1)] assms(1) by (simp_all add: loop_inv_def env_ok_def)
  define due where "due = due_entries (env_clock env) q"
  from user.handleRead_returned [OF wf assms(3)] obtain q1 where
    r: "run_expired (run_user env) due (at_callbacks (env_clock env) n q, l) = Inr (q1, l')"
    by (auto simp: due_def)
  from user.handleRead_complete [OF wf clock r [unfolded due_def]] assms(3) have
    q': "set (tq_timers q) - set due \<subseteq> set (tq_timers q')"
      "snd ` set (tq_timers q') = snd ` (set (tq_timers q) - set due) \<union>
        {p. \<exists>w t. (w, p) \<in> set due \<and> tq_heap q p = Some t \<and> ti_repeat t}"
    by (simp_all add: due_def)
  have due: "e \<in> set due \<longleftrightarrow> e \<in> set (tq_timers q) \<and> \<not> Timestamp_less (env_clock env (tq_ticks q)) (fst e)" for e
    by (auto simp: due_def due_entries_def)
  show ?thesis
  proof (cases "Timestamp_less (env_clock env (tq_ticks q)) when")
    case True
    with q'(1) assms(4) due show ?thesis by auto
  next
    case False
    with assms(4) have d: "(when, p) \<in> set due" by (simp add: due)
    from tq_wf_distinct [OF wf] have "inj_on snd (set (tq_timers q))" by (simp add: distinct_map)
    then have "p \<notin> snd ` (set (tq_timers q) - set due)"
      using d due inj_onD [of snd "set (tq_timers q)" _ "(when, p)"] by auto
    moreover obtain t where "tq_heap q p = Some t"
      using wf assms(4) by (auto simp: tq_wf_def list_all_iff entry_ok_def)
    ultimately show ?thesis using False d by (auto simp: q'(2))
  qed
qed

lemma demo_expiry:
  "\<exists>q' l'. TimerQueue_handleRead (run_user demo_env) (env_clock demo_env) 8 (demo_queue, l) = Inr (q', l')"
  by (simp add: TimerQueue_handleRead_def readTimerfd_def read_clock_def getExpired_def lower_bound_def
      Entry_less_def demo_queue_def Let_def deref_def Timer_run_def invoke_def Timer_new_def run_user_def
      demo_env_def Timestamp_less_def Timestamp_of_def tq_reset_def Timer_restart_def tq_insert_def
      int_of_double_def in32_def set_insert_def)

theorem repeating_timers_survive_witness:
  "\<exists>l q' l'. TimerQueue_handleRead (run_user demo_env) (env_clock demo_env) 8 (demo_queue, l) = Inr (q', l') \<and>
    64 \<in> snd ` set (tq_timers q')"
proof -
  obtain l where r: "reach demo_env (demo_queue, l)" using demo_reach_timer by auto
  obtain q' l' where h: "TimerQueue_handleRead (run_user demo_env) (env_clock demo_env) 8 (demo_queue, l) = Inr (q', l')"
    using demo_expiry by blast
  have "(Timestamp_of 1700000005000000, 64) \<in> set (tq_timers demo_queue)" by (simp add: demo_queue_def)
  from repeating_timers_survive [OF demo_env_ok r h this] have "64 \<in> snd ` set (tq_timers q')"
    by (simp add: demo_queue_def demo_env_def Timer_new_def Timestamp_less_def Timestamp_of_def)
  with h show ?thesis by blast
qed

text \<open>
  \<open>loop\<close> never returns normally: \<open>quit_\<close> is false from the constructor on and
  nothing sets it. It runs for ever or a callback's fault ends it.
\<close>

theorem loop_never_returns:
  assumes "\<not> el_quit (snd w)"
  shows "loop env polls w \<noteq> Some (Inr w')"
  using loop_returned [of env polls w "Inr w'"] assms by auto

theorem loop_never_returns_witness: "loop demo_env (\<lambda>_. ([], 0)) demo_start \<noteq> Some (Inr demo_start)"
  using loop_never_returns [of demo_start] EventLoop_new_eq [OF demo_start_eq(1)] by blast

text \<open>
  \<open>runEvery\<close> and \<open>runAfter\<close> take seconds as a \<open>double\<close> and lose the fraction:
  a period below one second makes a timer that is due at once and never repeats.
\<close>

theorem fractional_period_never_repeats:
  assumes "0 < interval" "interval < 1"
    and "runEvery env interval cb (q, l) = Inr (r, (q', l'))"
  shows "\<exists>p t. el_pending l' = el_pending l @ [AddTimerInLoop p] \<and> tq_heap q' p = Some t \<and>
    \<not> ti_repeat t \<and>
    (in64 (microSecondsSinceEpoch (env_clock env (tq_ticks q))) \<longrightarrow>
       ti_expiration t = env_clock env (tq_ticks q))"
proof -
  have "\<lfloor>interval\<rfloor> = 0" using assms(1,2) by (simp add: floor_eq_iff)
  then have i: "int_of_double interval = Inr 0"
    using assms(1) by (simp add: int_of_double_def in32_def)
  let ?w = "addTime (env_clock env (tq_ticks q)) 0"
  have "loop_addTimer env cb ?w 0 (q\<lparr>tq_ticks := Suc (tq_ticks q)\<rparr>, l) = Inr (r, (q', l'))"
    using assms(3) by (simp add: runEvery_def read_clock_def i)
  from loop_addTimer_queued [OF this] obtain p where
    p: "queued_one (q\<lparr>tq_ticks := Suc (tq_ticks q)\<rparr>, l) (q', l') (AddTimerInLoop p)"
      "tq_heap q' p = Some (Timer_new cb ?w 0)"
    by (auto simp: in32_def)
  moreover have "?w = env_clock env (tq_ticks q)" if "in64 (microSecondsSinceEpoch (env_clock env (tq_ticks q)))"
    using that by (simp add: addTime_def mul32_def add64_def Timestamp_of_def in64_def)
  ultimately show ?thesis by (auto simp: queued_one_def Timer_new_def)
qed

theorem fractional_period_never_repeats_witness:
  "\<exists>q' l'. runEvery demo_env (1 / 2) (Some 1) (TimerQueue_new, demo_loop) = Inr (- 1, (q', l')) \<and>
    (\<exists>t. tq_heap q' 64 = Some t \<and> \<not> ti_repeat t)"
proof -
  obtain q' l' where r: "runEvery demo_env (1 / 2) (Some 1) (TimerQueue_new, demo_loop) = Inr (- 1, (q', l'))"
    "dom (tq_heap q') = {64}"
    by (simp add: runEvery_def read_clock_def int_of_double_def in32_def loop_addTimer_def addTimer_def
        TimerQueue_new_def demo_env_def operator_new_demo)
  have "0 < (1 / 2 :: rat)" "(1 / 2 :: rat) < 1" by simp_all
  from fractional_period_never_repeats [OF this r(1)] r show ?thesis
    by (metis domI singletonD)
qed

end
