(* ===== verification/TcpConnection.thy ===== *)
theory TcpConnection
  imports Buffer EventLoop
begin

text \<open>
  \<open>net::TcpConnection\<close> (src/net/TcpConnection.h, TcpConnection.cc): a socket with an input
  and an output buffer on a loop. The channel is an object of the loop's store, at the address of
  the member \<open>channel_\<close>. What \<open>read\<close> and \<open>write\<close> return is an argument; what the kernel
  has accepted for sending is kept as a history. The callbacks of the user that get the connection
  are run by a parameter.
\<close>

section \<open>State\<close>

record 'u TcpConnection =
  tc_fd :: int
  tc_addr :: nat
  tc_inputBuf :: buffer
  tc_outputBuf :: buffer
  tc_connectionCallback :: "'u option"
  tc_closeCallback :: "'u option"
  tc_writeCompleteCallback :: "'u option"
  tc_messageCallback :: "'u option"
  tc_written :: string
  tc_closed :: bool

type_synonym 'u Conn = "'u TcpConnection \<times> 'u EventLoop"

text \<open>The names of the two bound member functions are those the channel's callbacks get.\<close>

definition TcpConnection_new ::
  "int \<Rightarrow> nat \<Rightarrow> 'u \<Rightarrow> 'u \<Rightarrow> 'u EventLoop \<Rightarrow> 'u Conn res" where
  "TcpConnection_new fd addr bound_handleRead bound_handleWrite l =
     bind_r (new_buffer kInitialSize) (\<lambda>inputBuf. bind_r (new_buffer kInitialSize) (\<lambda>outputBuf.
       let channel = setWriteCallback (Client bound_handleWrite)
                       (setReadCallback (Client bound_handleRead) (Channel_new fd))
       in Inr (\<lparr>tc_fd = fd, tc_addr = addr, tc_inputBuf = inputBuf, tc_outputBuf = outputBuf,
                tc_connectionCallback = None, tc_closeCallback = None, tc_writeCompleteCallback = None,
                tc_messageCallback = None, tc_written = [], tc_closed = False\<rparr>,
               l\<lparr>el_channels := (el_channels l)(addr \<mapsto> channel)\<rparr>)))"

definition setConnectionCallback :: "'u option \<Rightarrow> 'u TcpConnection \<Rightarrow> 'u TcpConnection" where
  "setConnectionCallback cb c = c\<lparr>tc_connectionCallback := cb\<rparr>"

definition setCloseCallback :: "'u option \<Rightarrow> 'u TcpConnection \<Rightarrow> 'u TcpConnection" where
  "setCloseCallback cb c = c\<lparr>tc_closeCallback := cb\<rparr>"

definition setWriteCompleteCallback :: "'u option \<Rightarrow> 'u TcpConnection \<Rightarrow> 'u TcpConnection" where
  "setWriteCompleteCallback cb c = c\<lparr>tc_writeCompleteCallback := cb\<rparr>"

definition setMessageCallback :: "'u option \<Rightarrow> 'u TcpConnection \<Rightarrow> 'u TcpConnection" where
  "setMessageCallback cb c = c\<lparr>tc_messageCallback := cb\<rparr>"

section \<open>The channel of a connection\<close>

definition conn_channel :: "'u Conn \<Rightarrow> 'u handler Channel res" where
  "conn_channel = (\<lambda>(c, l). case el_channels l (tc_addr c) of None \<Rightarrow> Inl Undefined | Some ch \<Rightarrow> Inr ch)"

definition conn_enableWriting :: "bool \<Rightarrow> 'u Conn \<Rightarrow> 'u Conn res" where
  "conn_enableWriting e s =
     bind_r (conn_channel s) (\<lambda>ch.
       Inr (fst s, EventLoop_update (tc_addr (fst s)) (fst (enableWriting e (tc_addr (fst s)) ch)) (snd s)))"

definition conn_enableReading :: "bool \<Rightarrow> 'u Conn \<Rightarrow> 'u Conn res" where
  "conn_enableReading e s =
     bind_r (conn_channel s) (\<lambda>ch.
       Inr (fst s, EventLoop_update (tc_addr (fst s)) (fst (enableReading e (tc_addr (fst s)) ch)) (snd s)))"

section \<open>Operations\<close>

text \<open>\<open>std::string::substr\<close>, with the position converted to \<open>size_t\<close>; the count reaches to the end.\<close>

definition substr_from :: "string \<Rightarrow> int \<Rightarrow> string res" where
  "substr_from s pos =
     (let p = nat (pos mod 2 ^ 64) in if length s < p then Inl OutOfRange else Inr (drop p s))"

text \<open>What the kernel took of the bytes offered, when \<open>write\<close> returned \<open>n\<close>.\<close>

definition accepted :: "int \<Rightarrow> string \<Rightarrow> 'u TcpConnection \<Rightarrow> 'u TcpConnection" where
  "accepted n data c = c\<lparr>tc_written := tc_written c @ take (nat n) data\<rparr>"

definition send :: "string \<Rightarrow> int \<Rightarrow> 'u Conn \<Rightarrow> 'u Conn res" where
  "send msg n = (\<lambda>(c, l).
     let (nwrite, c, l) =
       (if readableBytes (tc_outputBuf c) \<le> 0
        then let nwrite = wrap32 n; c = accepted n msg c
             in if nwrite = - 1 then (nwrite, c, l)
                else if nwrite = wrap32 (int (length msg)) \<and> tc_writeCompleteCallback c \<noteq> None
                then (nwrite, c, queueInLoop (Call (tc_writeCompleteCallback c)) l)
                else (nwrite, c, l)
        else (0, c, l))
     in if nwrite < wrap32 (int (length msg))
        then bind_r (substr_from msg nwrite) (\<lambda>rest.
             bind_r (buffer_append rest (tc_outputBuf c)) (\<lambda>out.
               let s = (c\<lparr>tc_outputBuf := out\<rparr>, l)
               in bind_r (conn_channel s) (\<lambda>ch. if \<not> isWriting ch then conn_enableWriting True s else Inr s)))
        else Inr (c, l))"

definition handleWrite :: "int \<Rightarrow> 'u Conn \<Rightarrow> 'u Conn res" where
  "handleWrite n = (\<lambda>(c, l).
     bind_r (conn_channel (c, l)) (\<lambda>ch.
       if isWriting ch
       then bind_r (vec_load (peek (tc_outputBuf c)) (readableBytes (tc_outputBuf c)) (vec (tc_outputBuf c))) (\<lambda>data.
            let nwrite = wrap32 n; c = accepted n data c
            in if nwrite > 0
               then bind_r (retrieve (nat nwrite) (tc_outputBuf c)) (\<lambda>out.
                    let c = c\<lparr>tc_outputBuf := out\<rparr>
                    in if readableBytes out \<le> 0
                       then bind_r (conn_enableWriting False (c, l)) (\<lambda>(c, l).
                            Inr (c, queueInLoop (Call (tc_writeCompleteCallback c)) l))
                       else Inr (c, l))
               else Inr (c, l))
       else Inr (c, l)))"

text \<open>
  \<open>read\<close> returned \<open>nread\<close> and put \<open>data\<close> into the array of 1024 bytes.
  \<open>message\<close> runs the user's message callback.
\<close>

definition handleRead ::
  "('u \<Rightarrow> Timestamp \<Rightarrow> 'u Conn \<Rightarrow> 'u Conn res) \<Rightarrow> Timestamp \<Rightarrow> int \<Rightarrow> string \<Rightarrow> 'u Conn \<Rightarrow> 'u Conn res" where
  "handleRead message now n data = (\<lambda>(c, l).
     let nread = wrap32 n
     in if nread \<le> 0
        then Inr (if nread = 0 then c\<lparr>tc_closed := True\<rparr> else c, l)
        else bind_r (buffer_append (take (nat nread) data) (tc_inputBuf c)) (\<lambda>b.
             let c = c\<lparr>tc_inputBuf := b\<rparr>
             in invoke (\<lambda>cb. message cb now) (tc_messageCallback c) (c, l)))"

definition connectEstablished :: "('u \<Rightarrow> 'u Conn \<Rightarrow> 'u Conn res) \<Rightarrow> 'u Conn \<Rightarrow> 'u Conn res" where
  "connectEstablished connection s =
     bind_r (conn_enableReading True s) (\<lambda>s. invoke connection (tc_connectionCallback (fst s)) s)"

text \<open>The default message callback takes everything and prints it.\<close>

definition defaultMessageCallback :: "'u TcpConnection \<Rightarrow> (string \<times> 'u TcpConnection) res" where
  "defaultMessageCallback c =
     bind_r (retrieveAllAsString (tc_inputBuf c)) (\<lambda>(out, b). Inr (out, c\<lparr>tc_inputBuf := b\<rparr>))"

section \<open>Simple facts\<close>

lemma conn_channel_Inr: "conn_channel (c, l) = Inr ch \<longleftrightarrow> el_channels l (tc_addr c) = Some ch"
  by (simp add: conn_channel_def split: option.splits)

lemma conn_channel_some [simp]: "el_channels l (tc_addr c) = Some ch \<Longrightarrow> conn_channel (c, l) = Inr ch"
  by (simp add: conn_channel_Inr)

lemma accepted_fields [simp]:
  "tc_outputBuf (accepted n d c) = tc_outputBuf c" "tc_addr (accepted n d c) = tc_addr c"
  "tc_inputBuf (accepted n d c) = tc_inputBuf c" "tc_fd (accepted n d c) = tc_fd c"
  "tc_writeCompleteCallback (accepted n d c) = tc_writeCompleteCallback c"
  "tc_written (accepted n d c) = tc_written c @ take (nat n) d"
  by (simp_all add: accepted_def)

lemma vec_load_content: "wf_buffer b \<Longrightarrow> vec_load (peek b) (readableBytes b) (vec b) = Inr (content b)"
proof -
  assume wf: "wf_buffer b"
  then have "readerIndex b + (writerIndex b - readerIndex b) \<le> length (vec b)" by (simp add: wf_buffer_def)
  then show ?thesis unfolding peek_def wf_buffer_sizes(1) [OF wf] content_def by (rule vec_load_ok)
qed

text \<open>
  What the manual page of \<open>write\<close> says of its result: -1, or the number of bytes taken, at most
  0x7ffff000.
\<close>

definition write_doc :: "nat \<Rightarrow> int \<Rightarrow> bool" where
  "write_doc len n \<longleftrightarrow> n = - 1 \<or> (0 \<le> n \<and> n \<le> int len \<and> n \<le> 0x7ffff000)"

lemma write_doc_wrap: "write_doc len n \<Longrightarrow> wrap32 n = n"
  by (auto simp: write_doc_def)

section \<open>What an operation does to the stream\<close>

definition conn_wf :: "'u Conn \<Rightarrow> bool" where
  "conn_wf s \<longleftrightarrow> wf_buffer (tc_outputBuf (fst s)) \<and> (\<exists>ch. el_channels (snd s) (tc_addr (fst s)) = Some ch)"

definition unsent :: "'u Conn \<Rightarrow> string" where
  "unsent s = content (tc_outputBuf (fst s))"

definition stream :: "'u Conn \<Rightarrow> string" where
  "stream s = tc_written (fst s) @ unsent s"

lemma EventLoop_update_channel [simp]:
  "el_channels (EventLoop_update a ch l) a' = (if a' = a then Some ch else el_channels l a')"
  by (simp add: EventLoop_update_def)

lemma conn_enableWriting_ok:
  "el_channels (snd s) (tc_addr (fst s)) = Some ch \<Longrightarrow>
    conn_enableWriting e s = Inr (fst s,
      EventLoop_update (tc_addr (fst s)) (fst (enableWriting e (tc_addr (fst s)) ch)) (snd s))"
  by (cases s) (simp add: conn_enableWriting_def)

text \<open>What \<open>send\<close> does when the write is not tried or does not fail.\<close>

lemma send_ok:
  fixes s :: "'u Conn"
  assumes wf: "conn_wf s" and len: "length msg < 2 ^ 31"
    and n: "write_doc (length msg) n" "unsent s = [] \<longrightarrow> n \<noteq> - 1"
    and room: "writerIndex (tc_outputBuf (fst s)) + length msg \<le> vec_max"
  shows "\<exists>s'. send msg n s = Inr s' \<and> conn_wf s' \<and>
    tc_written (fst s') = tc_written (fst s) @ (if unsent s = [] then take (nat n) msg else []) \<and>
    unsent s' = unsent s @ (if unsent s = [] then drop (nat n) msg else msg) \<and>
    writerIndex (tc_outputBuf (fst s')) \<le> writerIndex (tc_outputBuf (fst s)) + length msg \<and>
    tc_fd (fst s') = tc_fd (fst s) \<and> tc_addr (fst s') = tc_addr (fst s)"
proof -
  obtain c l where s: "s = (c, l)" by (cases s)
  obtain ch where ch: "el_channels l (tc_addr c) = Some ch" using wf by (auto simp: conn_wf_def s)
  have wb: "wf_buffer (tc_outputBuf c)" using wf by (simp add: conn_wf_def s)
  have r: "readableBytes (tc_outputBuf c) \<le> 0 \<longleftrightarrow> unsent s = []"
    by (simp add: readableBytes_content [OF wb] unsent_def s)
  have lw: "wrap32 (int (length msg)) = int (length msg)" using len by simp
  have rest: "\<exists>s'. (if k < int (length msg)
        then bind_r (substr_from msg k) (\<lambda>rest.
             bind_r (buffer_append rest (tc_outputBuf c')) (\<lambda>out.
               let s = (c'\<lparr>tc_outputBuf := out\<rparr>, l')
               in bind_r (conn_channel s) (\<lambda>ch. if \<not> isWriting ch then conn_enableWriting True s else Inr s)))
        else Inr (c', l')) = Inr s' \<and> conn_wf s' \<and> tc_written (fst s') = tc_written c' \<and>
        unsent s' = unsent s @ drop (nat k) msg \<and>
        writerIndex (tc_outputBuf (fst s')) \<le> writerIndex (tc_outputBuf c) + length msg \<and>
        tc_fd (fst s') = tc_fd c' \<and> tc_addr (fst s') = tc_addr c'"
    if "0 \<le> k" "k \<le> int (length msg)" "tc_outputBuf c' = tc_outputBuf c" "tc_addr c' = tc_addr c"
      "el_channels l' = el_channels l" for k c' and l' :: "'u EventLoop"
  proof (cases "k < int (length msg)")
    case False
    then have "drop (nat k) msg = []" by simp
    with False that wf ch wb show ?thesis by (simp add: conn_wf_def s unsent_def)
  next
    case True
    have "k mod 2 ^ 64 = k" using that(1,2) len by (simp add: mod_pos_pos_trivial)
    then have sub: "substr_from msg k = Inr (drop (nat k) msg)"
      using that(2) by (simp add: substr_from_def Let_def)
    have "writerIndex (tc_outputBuf c) + length (drop (nat k) msg) \<le> vec_max" using room by (simp add: s)
    from buffer_append_ok [OF wb this] obtain b where
      b: "buffer_append (drop (nat k) msg) (tc_outputBuf c) = Inr b" "wf_buffer b"
        "content b = content (tc_outputBuf c) @ drop (nat k) msg"
        "writerIndex b \<le> writerIndex (tc_outputBuf c) + length msg"
      by fastforce
    show ?thesis
      using True that sub b ch
      by (cases "isWriting ch") (auto simp: conn_enableWriting_ok conn_wf_def unsent_def s Let_def)
  qed
  show ?thesis
  proof (cases "unsent s = []")
    case True
    then have n': "0 \<le> n" "n \<le> int (length msg)" using n by (auto simp: write_doc_def)
    let ?l = "if n = int (length msg) \<and> tc_writeCompleteCallback c \<noteq> None
      then queueInLoop (Call (tc_writeCompleteCallback c)) l else l"
    from rest [OF n', of "accepted n msg c" ?l] True n' show ?thesis
      unfolding send_def s prod.case Let_def r lw write_doc_wrap [OF n(1)]
      by (auto simp: s split: if_splits)
  next
    case False
    from rest [of 0 c l] False show ?thesis
      unfolding send_def s prod.case Let_def r lw by (auto simp: s)
  qed
qed

lemma send_write_error:
  assumes "conn_wf s" "unsent s = []" "length msg < 2 ^ 31"
  shows "send msg (- 1) s = Inl OutOfRange"
proof -
  obtain c l where s: "s = (c, l)" by (cases s)
  have r: "readableBytes (tc_outputBuf c) \<le> 0"
    using assms(1,2) readableBytes_content [of "tc_outputBuf c"] by (simp add: conn_wf_def unsent_def s)
  have "substr_from msg (- 1) = Inl OutOfRange" using assms(3) by (simp add: substr_from_def Let_def)
  with r assms(3) show ?thesis by (simp add: send_def s Let_def)
qed

lemma handleWrite_ok:
  assumes wf: "conn_wf s" and n: "write_doc (length (unsent s)) n"
  shows "\<exists>s'. handleWrite n s = Inr s' \<and> conn_wf s' \<and> stream s' = stream s \<and>
    writerIndex (tc_outputBuf (fst s')) \<le> writerIndex (tc_outputBuf (fst s))"
proof -
  obtain c l where s: "s = (c, l)" by (cases s)
  obtain ch where ch: "el_channels l (tc_addr c) = Some ch" using wf by (auto simp: conn_wf_def s)
  have wb: "wf_buffer (tc_outputBuf c)" using wf by (simp add: conn_wf_def s)
  show ?thesis
  proof (cases "isWriting ch \<and> 0 < n")
    case False
    with n show ?thesis
      using wf ch write_doc_wrap [OF n]
      by (auto simp: handleWrite_def s vec_load_content [OF wb] Let_def conn_wf_def stream_def unsent_def)
  next
    case True
    then have "nat n \<le> length (content (tc_outputBuf c))" using n by (auto simp: write_doc_def unsent_def s)
    from retrieve_ok [OF wb this] obtain b where
      b: "retrieve (nat n) (tc_outputBuf c) = Inr b" "wf_buffer b" "content b = drop (nat n) (content (tc_outputBuf c))"
        "writerIndex b \<le> writerIndex (tc_outputBuf c)"
      by auto
    show ?thesis
      using True ch write_doc_wrap [OF n] b
      by (cases "readableBytes b \<le> 0")
        (auto simp: handleWrite_def s vec_load_content [OF wb] Let_def conn_enableWriting_ok conn_wf_def
          stream_def unsent_def)
  qed
qed

section \<open>Requests\<close>

text \<open>Every request a connection makes is an addition, and additions keep what is registered.\<close>

lemma interest_kept:
  "epoll_add_doc epoll_ctl interest \<Longrightarrow> list_all (\<lambda>r. ctl_op r = EPOLL_CTL_ADD) rs \<Longrightarrow>
    interest k fd = Some ev \<Longrightarrow> interest (fold epoll_ctl rs k) fd = Some ev"
proof (induction rs arbitrary: k)
  case (Cons r rs)
  then have "interest (epoll_ctl r k) fd = Some ev"
    by (cases "interest k (ctl_fd r)") (auto simp: epoll_add_doc_def)
  with Cons show ?case by simp
qed simp

definition adds :: "'u EventLoop \<Rightarrow> 'u EventLoop \<Rightarrow> bool" where
  "adds l l' \<longleftrightarrow>
     (\<exists>rs. el_requests l' = el_requests l @ rs \<and> list_all (\<lambda>r. ctl_op r = EPOLL_CTL_ADD) rs)"

lemma adds_refl: "el_requests l' = el_requests l \<Longrightarrow> adds l l'"
  by (simp add: adds_def)

lemma conn_enableWriting_adds: "conn_enableWriting e (c, l) = Inr (c', l') \<Longrightarrow> adds l l'"
  by (auto simp: conn_enableWriting_def bind_r_eq_Inr EventLoop_update_def Epoller_update_def adds_def)

lemma send_adds: "send msg n (c, l) = Inr (c', l') \<Longrightarrow> adds l l'"
  by (auto simp: send_def Let_def bind_r_eq_Inr adds_refl split: if_splits dest!: conn_enableWriting_adds)

section \<open>The stream of a connection\<close>

text \<open>
  The states a connection can be in after the user sent \<open>sent\<close>, whatever the kernel answered,
  and whenever the loop ran \<open>handleRead\<close> and \<open>handleWrite\<close>. What a callback sends are
  steps of their own.
\<close>

inductive conn_reach :: "string \<Rightarrow> 'u Conn \<Rightarrow> bool" where
  reach_conn: "TcpConnection_new fd addr rd wr l = Inr s \<Longrightarrow> conn_reach [] s"
| reach_established: "conn_reach sent s \<Longrightarrow> connectEstablished (\<lambda>_ s. Inr s) s = Inr s' \<Longrightarrow> conn_reach sent s'"
| reach_set: "conn_reach sent (c, l) \<Longrightarrow>
    conn_reach sent (setConnectionCallback cb (setMessageCallback mb (setWriteCompleteCallback wb c)), l)"
| reach_read: "conn_reach sent s \<Longrightarrow> handleRead (\<lambda>_ _ s. Inr s) now n data s = Inr s' \<Longrightarrow> conn_reach sent s'"
| reach_send: "conn_reach sent s \<Longrightarrow> length msg < 2 ^ 31 \<Longrightarrow> write_doc (length msg) n \<Longrightarrow>
    send msg n s = Inr s' \<Longrightarrow> conn_reach (sent @ msg) s'"
| reach_write: "conn_reach sent s \<Longrightarrow> write_doc (length (unsent s)) n \<Longrightarrow>
    handleWrite n s = Inr s' \<Longrightarrow> conn_reach sent s'"

lemma TcpConnection_new_ok:
  "\<exists>s. TcpConnection_new fd addr rd wr l = Inr s \<and> conn_wf s \<and> stream s = [] \<and>
    writerIndex (tc_outputBuf (fst s)) = 8 \<and> tc_fd (fst s) = fd \<and> tc_addr (fst s) = addr \<and>
    el_requests (snd s) = el_requests l \<and>
    el_channels (snd s) addr = Some (setWriteCallback (Client wr) (setReadCallback (Client rd) (Channel_new fd)))"
proof -
  from new_buffer_ok [of kInitialSize] obtain b where
    "new_buffer kInitialSize = Inr b" "wf_buffer b" "content b = []" "writerIndex b = 8"
    by (auto simp: kInitialSize_def vec_max_def)
  then show ?thesis by (simp add: TcpConnection_new_def Let_def conn_wf_def stream_def unsent_def)
qed

lemma invoke_Inr: "invoke run cb s = Inr s' \<longleftrightarrow> (\<exists>f. cb = Some f \<and> run f s = Inr s')"
  by (simp add: invoke_def split: option.splits)

lemma handleRead_keeps:
  assumes "handleRead (\<lambda>_ _ s. Inr s) now n data s = Inr s'"
  shows "snd s' = snd s \<and> tc_outputBuf (fst s') = tc_outputBuf (fst s) \<and>
    tc_written (fst s') = tc_written (fst s) \<and> tc_addr (fst s') = tc_addr (fst s) \<and>
    tc_fd (fst s') = tc_fd (fst s)"
  using assms
  by (cases s) (auto simp: handleRead_def bind_r_eq_Inr invoke_Inr Let_def split: if_splits)

lemma conn_reach_inv:
  "conn_reach sent s \<Longrightarrow> length sent \<le> 2 ^ 62 \<Longrightarrow>
    conn_wf s \<and> stream s = sent \<and> writerIndex (tc_outputBuf (fst s)) \<le> 8 + length sent"
proof (induction rule: conn_reach.induct)
  case (reach_conn fd addr rd wr l s)
  with TcpConnection_new_ok [of fd addr rd wr l] show ?case by auto
next
  case (reach_established sent s s')
  then have "conn_wf s" "fst s' = fst s" "\<exists>ch. el_channels (snd s') (tc_addr (fst s)) = Some ch"
    by (auto simp: connectEstablished_def conn_enableReading_def bind_r_eq_Inr invoke_Inr)
  with reach_established show ?case by (simp add: conn_wf_def stream_def unsent_def)
next
  case (reach_set sent c l cb mb wb)
  then show ?case
    by (simp add: conn_wf_def stream_def unsent_def setConnectionCallback_def setMessageCallback_def
        setWriteCompleteCallback_def)
next
  case (reach_read sent s now n data s')
  with handleRead_keeps [OF reach_read.hyps(2)] show ?case by (auto simp: conn_wf_def stream_def unsent_def)
next
  case (reach_send sent s msg n s')
  then have ih: "conn_wf s" "stream s = sent" "writerIndex (tc_outputBuf (fst s)) \<le> 8 + length sent" by simp_all
  then have room: "writerIndex (tc_outputBuf (fst s)) + length msg \<le> vec_max"
    using reach_send.prems by (simp add: vec_max_def)
  have n: "unsent s = [] \<longrightarrow> n \<noteq> - 1"
    using send_write_error [OF ih(1) _ reach_send.hyps(2)] reach_send.hyps(4) by auto
  from send_ok [OF ih(1) reach_send.hyps(2,3) n room] reach_send.hyps(4) ih show ?case
    by (auto simp: stream_def)
next
  case (reach_write sent s n s')
  with handleWrite_ok [of s n] show ?case by auto
qed

text \<open>
  C7. Nothing is lost, repeated or reordered: in every state a connection can be in, what the kernel has
  taken followed by what the output buffer holds is what the user has sent, with short writes, failed
  writes of the loop and any number of rounds in between.
\<close>

theorem stream_conserved:
  assumes "conn_reach sent s" "length sent \<le> 2 ^ 62"
  shows "tc_written (fst s) @ content (tc_outputBuf (fst s)) = sent"
  using conn_reach_inv [OF assms] by (simp add: stream_def unsent_def)

text \<open>A connection that is established, and one that wrote two of five bytes.\<close>

lemma demo_conn:
  "\<exists>s0 s1 :: nat Conn. conn_reach [] s0 \<and> tc_fd (fst s0) = 7 \<and>
    el_requests (snd s0) = [\<lparr>ctl_op = EPOLL_CTL_ADD, ctl_fd = 7, ctl_events = kReadEvent, ctl_ptr = 400\<rparr>] \<and>
    send ''hello'' 2 s0 = Inr s1 \<and> tc_written (fst s1) = ''he'' \<and> unsent s1 = ''llo'' \<and> tc_fd (fst s1) = 7"
proof -
  from TcpConnection_new_ok [of 7 400 10 11 demo_loop] obtain c l where
    s: "TcpConnection_new 7 400 10 11 demo_loop = Inr (c, l)" "conn_wf (c, l)" "stream (c, l) = []"
      "tc_fd c = 7" "tc_addr c = 400" "el_requests l = []"
      "el_channels l 400 = Some (setWriteCallback (Client 11) (setReadCallback (Client 10) (Channel_new 7)))"
      "writerIndex (tc_outputBuf c) = 8"
    by (auto simp: demo_loop_def)
  define c' where "c' = setConnectionCallback (Some 12) (setMessageCallback None (setWriteCompleteCallback None c))"
  have c': "tc_fd c' = 7" "tc_addr c' = 400" "tc_outputBuf c' = tc_outputBuf c" "tc_written c' = tc_written c"
    "tc_connectionCallback c' = Some 12"
    by (simp_all add: c'_def setConnectionCallback_def setMessageCallback_def setWriteCompleteCallback_def s)
  obtain l' where e: "connectEstablished (\<lambda>_ s. Inr s) (c', l) = Inr (c', l')"
    "el_requests l' = [\<lparr>ctl_op = EPOLL_CTL_ADD, ctl_fd = 7, ctl_events = kReadEvent, ctl_ptr = 400\<rparr>]"
    "\<exists>ch. el_channels l' 400 = Some ch"
    using s(7) c' by (simp add: connectEstablished_def conn_enableReading_def invoke_def EventLoop_update_def
        enableReading_def Channel_update_def Epoller_update_def s(6) Channel_new_def setReadCallback_def
        setWriteCallback_def)
  have "conn_reach [] (c', l)" unfolding c'_def by (rule reach_set [OF reach_conn [OF s(1)]])
  then have r: "conn_reach [] (c', l')" using e(1) by (rule reach_established)
  have w: "conn_wf (c', l')" using s(2) e(3) by (simp add: conn_wf_def c')
  have u: "unsent (c', l') = []" "tc_written c' = []" using s(3) by (simp_all add: stream_def unsent_def c')
  obtain s1 where "send ''hello'' 2 (c', l') = Inr s1" "tc_written (fst s1) = ''he''" "unsent s1 = ''llo''"
    "tc_fd (fst s1) = 7"
    using send_ok [OF w, of "''hello''" 2] u c' s(8) by (auto simp: write_doc_def vec_max_def)
  with r e(2) c'(1) show ?thesis by fastforce
qed

lemma demo_conn_sent:
  "\<exists>s :: nat Conn. conn_reach ''hello'' s \<and> tc_written (fst s) = ''he'' \<and> unsent s = ''llo'' \<and>
    id (fold demo_epoll_ctl (el_requests (snd s)) Map.empty) (tc_fd (fst s)) = Some kReadEvent"
proof -
  from demo_conn obtain s0 s1 :: "nat Conn" where s: "conn_reach [] s0" "tc_fd (fst s0) = 7"
    "el_requests (snd s0) = [\<lparr>ctl_op = EPOLL_CTL_ADD, ctl_fd = 7, ctl_events = kReadEvent, ctl_ptr = 400\<rparr>]"
    "send ''hello'' 2 s0 = Inr s1" "tc_written (fst s1) = ''he''" "unsent s1 = ''llo''" "tc_fd (fst s1) = 7"
    by auto
  have "conn_reach ([] @ ''hello'') s1"
    using s(1) _ _ s(4) by (rule reach_send) (simp_all add: write_doc_def)
  moreover from send_adds [of "''hello''" 2 "fst s0" "snd s0" "fst s1" "snd s1"] s(4) obtain rs where
    rs: "el_requests (snd s1) = el_requests (snd s0) @ rs" "list_all (\<lambda>r. ctl_op r = EPOLL_CTL_ADD) rs"
    by (auto simp: adds_def)
  have "id (fold demo_epoll_ctl (el_requests (snd s0)) Map.empty) 7 = Some kReadEvent"
    by (simp add: s(3) demo_epoll_ctl_def)
  with rs(2) have "id (fold demo_epoll_ctl rs (fold demo_epoll_ctl (el_requests (snd s0)) Map.empty)) 7 = Some kReadEvent"
    by (rule interest_kept [OF demo_epoll_ctl_doc])
  with s rs(1) have
    "id (fold demo_epoll_ctl (el_requests (snd s1)) Map.empty) (tc_fd (fst s1)) = Some kReadEvent"
    by simp
  ultimately show ?thesis using s(5,6) by (intro exI [of _ s1]) simp
qed

theorem stream_conserved_witness:
  "\<exists>s :: nat Conn. conn_reach ''hello'' s \<and> tc_written (fst s) = ''he'' \<and>
    ''he'' @ content (tc_outputBuf (fst s)) = ''hello''"
proof -
  obtain s :: "nat Conn" where s: "conn_reach ''hello'' s" "tc_written (fst s) = ''he''" using demo_conn_sent by auto
  from stream_conserved [OF s(1)] s show ?thesis by (intro exI [of _ s]) simp
qed

text \<open>
  \<open>send\<close> fails exactly when it writes and \<open>write\<close> returns -1, as it does when the socket
  buffer is full: the position -1 makes \<open>substr\<close> throw \<open>out_of_range\<close> out of \<open>send\<close>.
\<close>

theorem send_fails_iff:
  assumes "conn_reach sent s" "length (sent @ msg) \<le> 2 ^ 62" "length msg < 2 ^ 31"
    and "write_doc (length msg) n"
  shows "if content (tc_outputBuf (fst s)) = [] \<and> n = - 1 then send msg n s = Inl OutOfRange
    else \<exists>s'. send msg n s = Inr s'"
proof -
  have inv: "conn_wf s" "writerIndex (tc_outputBuf (fst s)) \<le> 8 + length sent"
    using conn_reach_inv [OF assms(1)] assms(2) by simp_all
  then have room: "writerIndex (tc_outputBuf (fst s)) + length msg \<le> vec_max"
    using assms(2) by (simp add: vec_max_def)
  show ?thesis
    using send_write_error [OF inv(1) _ assms(3)] send_ok [OF inv(1) assms(3,4) _ room]
    by (auto simp: unsent_def)
qed

theorem send_fails_iff_witness: "\<exists>s :: nat Conn. conn_reach [] s \<and> send ''hello'' (- 1) s = Inl OutOfRange"
proof -
  obtain s :: "nat Conn" where s: "conn_reach [] s" using demo_conn by auto
  with conn_reach_inv [OF s] have "content (tc_outputBuf (fst s)) = []" by (simp add: stream_def unsent_def)
  with send_fails_iff [OF s, of "''hello''" "- 1"] s show ?thesis
    by (intro exI [of _ s]) (simp add: write_doc_def)
qed

section \<open>The rest of a short write\<close>

text \<open>
  The life of a connection under the kernel: the user sends, and the loop runs \<open>handleWrite\<close>
  when the kernel reports writability, which it does only for a registered interest in it.
\<close>

inductive served ::
  "(ctl \<Rightarrow> 'k \<Rightarrow> 'k) \<Rightarrow> ('k \<Rightarrow> int \<Rightarrow> 32 word option) \<Rightarrow> 'k \<Rightarrow> 'u Conn \<Rightarrow> string \<Rightarrow> 'u Conn \<Rightarrow> bool"
  for epoll_ctl interest k s0 where
  served_start: "served epoll_ctl interest k s0 [] s0"
| served_send: "served epoll_ctl interest k s0 sent s \<Longrightarrow> length msg < 2 ^ 31 \<Longrightarrow>
    write_doc (length msg) n \<Longrightarrow> send msg n s = Inr s' \<Longrightarrow> served epoll_ctl interest k s0 (sent @ msg) s'"
| served_read: "served epoll_ctl interest k s0 sent s \<Longrightarrow>
    handleRead (\<lambda>_ _ s. Inr s) now n data s = Inr s' \<Longrightarrow> served epoll_ctl interest k s0 sent s'"
| served_writable: "served epoll_ctl interest k s0 sent s \<Longrightarrow>
    interest (fold epoll_ctl (el_requests (snd s)) k) (tc_fd (fst s)) = Some ev \<Longrightarrow> ev AND kWriteEvent \<noteq> 0 \<Longrightarrow>
    handleWrite n s = Inr s' \<Longrightarrow> served epoll_ctl interest k s0 sent s'"

text \<open>
  C25. Once a write has been short, the peer never gets another byte: the socket is registered for
  reading, the request for writability is another \<open>EPOLL_CTL_ADD\<close> that changes nothing, so
  \<open>handleWrite\<close> is never due, and later sends only append to the buffer.
\<close>

theorem short_write_stalls:
  assumes doc: "epoll_add_doc epoll_ctl interest"
    and s0: "conn_reach sent0 s0" "content (tc_outputBuf (fst s0)) \<noteq> []"
    and reg: "interest (fold epoll_ctl (el_requests (snd s0)) k) (tc_fd (fst s0)) = Some kReadEvent"
    and run: "served epoll_ctl interest k s0 sent s" and len: "length (sent0 @ sent) \<le> 2 ^ 62"
  shows "tc_written (fst s) = tc_written (fst s0) \<and>
    tc_written (fst s0) @ content (tc_outputBuf (fst s)) = sent0 @ sent"
proof -
  have i0: "conn_wf s0" "stream s0 = sent0" "writerIndex (tc_outputBuf (fst s0)) \<le> 8 + length sent0"
    using conn_reach_inv [OF s0(1)] len by simp_all
  have "conn_wf s \<and> tc_written (fst s) = tc_written (fst s0) \<and> unsent s = unsent s0 @ sent \<and>
      writerIndex (tc_outputBuf (fst s)) \<le> 8 + length (sent0 @ sent) \<and> tc_fd (fst s) = tc_fd (fst s0) \<and>
      interest (fold epoll_ctl (el_requests (snd s)) k) (tc_fd (fst s0)) = Some kReadEvent"
    using run len
  proof (induction rule: served.induct)
    case served_start
    then show ?case using i0 reg by simp
  next
    case (served_send sent s msg n s')
    then have ih: "conn_wf s" "tc_written (fst s) = tc_written (fst s0)" "unsent s = unsent s0 @ sent"
      "writerIndex (tc_outputBuf (fst s)) \<le> 8 + length (sent0 @ sent)" "tc_fd (fst s) = tc_fd (fst s0)"
      "interest (fold epoll_ctl (el_requests (snd s)) k) (tc_fd (fst s0)) = Some kReadEvent"
      by simp_all
    have ne: "unsent s \<noteq> []" using s0(2) ih(3) by (simp add: unsent_def)
    have "writerIndex (tc_outputBuf (fst s)) + length msg \<le> vec_max"
      using ih(4) served_send.prems by (simp add: vec_max_def)
    from send_ok [OF ih(1) served_send.hyps(2,3) _ this] ne served_send.hyps(4) ih
    have st: "conn_wf s'" "tc_written (fst s') = tc_written (fst s0)" "unsent s' = unsent s0 @ sent @ msg"
      "writerIndex (tc_outputBuf (fst s')) \<le> 8 + length (sent0 @ sent @ msg)" "tc_fd (fst s') = tc_fd (fst s0)"
      by auto
    from send_adds [of msg n "fst s" "snd s" "fst s'" "snd s'"] served_send.hyps(4) obtain rs where
      rs: "el_requests (snd s') = el_requests (snd s) @ rs" "list_all (\<lambda>r. ctl_op r = EPOLL_CTL_ADD) rs"
      by (auto simp: adds_def)
    with interest_kept [OF doc rs(2) ih(6)] st show ?case by simp
  next
    case (served_read sent s now n data s')
    with handleRead_keeps [OF served_read.hyps(2)] show ?case by (auto simp: conn_wf_def unsent_def)
  next
    case (served_writable sent s ev n s')
    then have "ev = kReadEvent" by simp
    with served_writable.hyps(3) show ?case by (simp add: kReadEvent_def kWriteEvent_def)
  qed
  with i0(2) show ?thesis by (simp add: stream_def unsent_def)
qed

theorem short_write_stalls_witness:
  "\<exists>s0 s :: nat Conn. served demo_epoll_ctl id Map.empty s0 ''!!'' s \<and> tc_written (fst s0) = ''he'' \<and>
    tc_written (fst s) = ''he'' \<and> content (tc_outputBuf (fst s)) = ''llo!!''"
proof -
  obtain s0 :: "nat Conn" where s0: "conn_reach ''hello'' s0" "tc_written (fst s0) = ''he''" "unsent s0 = ''llo''"
    "id (fold demo_epoll_ctl (el_requests (snd s0)) Map.empty) (tc_fd (fst s0)) = Some kReadEvent"
    using demo_conn_sent by auto
  from conn_reach_inv [OF s0(1)] have
    "conn_wf s0" "writerIndex (tc_outputBuf (fst s0)) + length ''!!'' \<le> vec_max"
    by (simp_all add: vec_max_def)
  from send_ok [OF this(1), of "''!!''" 0, OF _ _ _ this(2)] s0(3) obtain s where
    s: "send ''!!'' 0 s0 = Inr s" by (auto simp: write_doc_def)
  have r: "served demo_epoll_ctl id Map.empty s0 ([] @ ''!!'') s"
    using served_start _ _ s by (rule served_send) (simp_all add: write_doc_def)
  have "content (tc_outputBuf (fst s0)) \<noteq> []" using s0(3) by (simp add: unsent_def)
  from short_write_stalls [OF demo_epoll_ctl_doc s0(1) this s0(4) r] s0(2) r show ?thesis
    by (intro exI [of _ s0] exI [of _ s]) simp
qed

end
