(* ===== verification/TcpServer.thy ===== *)
theory TcpServer
  imports TcpConnection
begin

text \<open>
  \<open>net::Acceptor\<close> and \<open>net::TcpServer\<close> (src/net/Acceptor.h, Acceptor.cc, TcpServer.h,
  TcpServer.cc): the listening socket, and the connections by descriptor. What the system calls
  return is an argument; options set on a socket are not modelled. The names of bound member
  functions and of the default callbacks are arguments of the constructors.
\<close>

section \<open>Acceptor\<close>

definition kIP :: string where
  "kIP = ''127.0.0.1''"

definition kPort :: int where
  "kPort = 5188"

text \<open>The results of \<open>socket\<close>, \<open>bind\<close> and \<open>listen\<close>, for an address and a port.\<close>

record listen_calls =
  socket_ret :: int
  bind_ret :: "string \<Rightarrow> int \<Rightarrow> int"
  listen_ret :: int

definition createAndListen :: "listen_calls \<Rightarrow> string \<Rightarrow> int \<Rightarrow> int res" where
  "createAndListen sys ip port =
     (let listenfd = socket_ret sys
      in cassert (listenfd \<noteq> - 1)
           (let ret = bind_ret sys ip port
            in cassert (ret \<noteq> - 1)
                 (let ret = listen_ret sys in cassert (ret \<noteq> - 1) (Inr listenfd))))"

record 'u Acceptor =
  ac_listenfd :: int
  ac_addr :: nat
  ac_newConnectionCallback :: "'u option"

definition Acceptor_new :: "listen_calls \<Rightarrow> nat \<Rightarrow> 'u \<Rightarrow> 'u EventLoop \<Rightarrow> ('u Acceptor \<times> 'u EventLoop) res" where
  "Acceptor_new sys addr bound_handleRead l =
     bind_r (createAndListen sys kIP kPort) (\<lambda>listenfd.
       let channel = setReadCallback (Client bound_handleRead) (Channel_new listenfd)
       in Inr (\<lparr>ac_listenfd = listenfd, ac_addr = addr, ac_newConnectionCallback = None\<rparr>,
               l\<lparr>el_channels := (el_channels l)(addr \<mapsto> channel)\<rparr>))"

definition setNewConnectionCallback :: "'u \<Rightarrow> 'u Acceptor \<Rightarrow> 'u Acceptor" where
  "setNewConnectionCallback cb a = a\<lparr>ac_newConnectionCallback := Some cb\<rparr>"

definition Acceptor_listen :: "'u Acceptor \<Rightarrow> 'u EventLoop \<Rightarrow> 'u EventLoop res" where
  "Acceptor_listen a l =
     (case el_channels l (ac_addr a) of
        None \<Rightarrow> Inl Undefined
      | Some ch \<Rightarrow> Inr (EventLoop_update (ac_addr a) (fst (enableReading True (ac_addr a) ch)) l))"

text \<open>\<open>sockfd\<close> is what \<open>accept\<close> returned; the callback gets it.\<close>

definition Acceptor_handleRead :: "('u \<Rightarrow> int \<Rightarrow> 's \<Rightarrow> 's res) \<Rightarrow> int \<Rightarrow> 'u Acceptor \<Rightarrow> 's \<Rightarrow> 's res" where
  "Acceptor_handleRead newConnection sockfd a s =
     cassert (sockfd \<noteq> - 1) (invoke (\<lambda>cb. newConnection cb sockfd) (ac_newConnectionCallback a) s)"

section \<open>TcpServer\<close>

record 'u TcpServer =
  ts_acceptor :: "'u Acceptor"
  ts_connections :: "int \<Rightarrow> 'u TcpConnection option"
  ts_connectionCallback :: "'u option"
  ts_messageCallback :: "'u option"

type_synonym 'u Server = "'u TcpServer \<times> 'u EventLoop"

definition TcpServer_new ::
  "listen_calls \<Rightarrow> nat \<Rightarrow> 'u \<Rightarrow> 'u \<Rightarrow> 'u \<Rightarrow> 'u \<Rightarrow> 'u EventLoop \<Rightarrow> 'u Server res" where
  "TcpServer_new sys addr bound_handleRead bound_newConnection default_connection default_message l =
     bind_r (Acceptor_new sys addr bound_handleRead l) (\<lambda>(acceptor, l).
       Inr (\<lparr>ts_acceptor = setNewConnectionCallback bound_newConnection acceptor,
             ts_connections = Map.empty, ts_connectionCallback = Some default_connection,
             ts_messageCallback = Some default_message\<rparr>, l))"

definition server_setConnectionCallback :: "'u option \<Rightarrow> 'u TcpServer \<Rightarrow> 'u TcpServer" where
  "server_setConnectionCallback cb s = s\<lparr>ts_connectionCallback := cb\<rparr>"

definition server_setMessageCallback :: "'u option \<Rightarrow> 'u TcpServer \<Rightarrow> 'u TcpServer" where
  "server_setMessageCallback cb s = s\<lparr>ts_messageCallback := cb\<rparr>"

definition start :: "'u Server \<Rightarrow> 'u Server res" where
  "start = (\<lambda>(s, l). bind_r (Acceptor_listen (ts_acceptor s) l) (\<lambda>l. Inr (s, l)))"

definition newConnection :: "nat \<Rightarrow> 'u \<Rightarrow> 'u \<Rightarrow> 'u \<Rightarrow> int \<Rightarrow> 'u Server \<Rightarrow> 'u Server res" where
  "newConnection addr bound_handleRead bound_handleWrite bound_connectEstablished sockfd = (\<lambda>(s, l).
     bind_r (TcpConnection_new sockfd addr bound_handleRead bound_handleWrite l) (\<lambda>(conn, l).
       let conn = setConnectionCallback (ts_connectionCallback s) conn;
           conn = setMessageCallback (ts_messageCallback s) conn
       in Inr (s\<lparr>ts_connections := (ts_connections s)(sockfd \<mapsto> conn)\<rparr>,
               queueInLoop (Call (Some bound_connectEstablished)) l)))"

text \<open>The queued functor, on the connection of a descriptor.\<close>

definition server_connectEstablished ::
  "('u \<Rightarrow> 'u Conn \<Rightarrow> 'u Conn res) \<Rightarrow> int \<Rightarrow> 'u Server \<Rightarrow> 'u Server res" where
  "server_connectEstablished connection sockfd = (\<lambda>(s, l).
     case ts_connections s sockfd of
       None \<Rightarrow> Inl Undefined
     | Some conn \<Rightarrow>
         bind_r (connectEstablished connection (conn, l)) (\<lambda>(conn, l).
           Inr (s\<lparr>ts_connections := (ts_connections s)(sockfd \<mapsto> conn)\<rparr>, l)))"

section \<open>Properties\<close>

text \<open>
  An accepted descriptor becomes a connection: it is in the map with the server's callbacks
  and empty buffers, the other connections stay, one functor is queued; and when it runs the
  kernel is asked once to report input on the descriptor, with the address of the connection's channel.
\<close>

theorem accepted_is_registered:
  assumes "sockfd \<noteq> - 1" "ac_newConnectionCallback (ts_acceptor s) = Some nc"
    and "ts_connectionCallback s = Some cb"
  shows "\<exists>s1 l1 s2 l2 conn.
    Acceptor_handleRead (\<lambda>_. newConnection addr rd wr est) sockfd (ts_acceptor s) (s, l) = Inr (s1, l1) \<and>
    ts_connections s1 = (ts_connections s)(sockfd \<mapsto> conn) \<and> stream (conn, l1) = [] \<and>
    tc_connectionCallback conn = Some cb \<and> tc_messageCallback conn = ts_messageCallback s \<and>
    el_pending l1 = el_pending l @ [Call (Some est)] \<and> el_requests l1 = el_requests l \<and>
    server_connectEstablished (\<lambda>_ s. Inr s) sockfd (s1, l1) = Inr (s2, l2) \<and>
    el_requests l2 = el_requests l @
      [\<lparr>ctl_op = EPOLL_CTL_ADD, ctl_fd = sockfd, ctl_events = kReadEvent, ctl_ptr = addr\<rparr>]"
proof -
  from TcpConnection_new_ok [of sockfd addr rd wr l] obtain c l0 where
    c: "TcpConnection_new sockfd addr rd wr l = Inr (c, l0)" "stream (c, l0) = []" "tc_addr c = addr"
      "el_requests l0 = el_requests l"
      "el_channels l0 addr = Some (setWriteCallback (Client wr) (setReadCallback (Client rd) (Channel_new sockfd)))"
    by auto
  have p: "el_pending l0 = el_pending l" using c(1) by (auto simp: TcpConnection_new_def bind_r_eq_Inr Let_def)
  show ?thesis
    using assms c p
    by (simp add: Acceptor_handleRead_def invoke_def newConnection_def Let_def server_connectEstablished_def
        connectEstablished_def conn_enableReading_def conn_channel_def setConnectionCallback_def
        setMessageCallback_def stream_def unsent_def EventLoop_update_def enableReading_def Channel_update_def
        Epoller_update_def Channel_new_def setReadCallback_def setWriteCallback_def)
      (rule exI [of _ "c\<lparr>tc_connectionCallback := Some cb, tc_messageCallback := ts_messageCallback s\<rparr>"], simp)
qed

theorem accepted_is_registered_witness:
  "\<exists>(s1 :: nat Server) s2 l2. server_connectEstablished (\<lambda>_ s. Inr s) 9 s1 = Inr (s2, l2) \<and>
    el_requests l2 = [\<lparr>ctl_op = EPOLL_CTL_ADD, ctl_fd = 9, ctl_events = kReadEvent, ctl_ptr = 400\<rparr>]"
proof -
  obtain s l where s: "TcpServer_new \<lparr>socket_ret = 6, bind_ret = \<lambda>_ _. 0, listen_ret = 0\<rparr> 300 1 2 3 4 demo_loop = Inr (s, l)"
    "ac_newConnectionCallback (ts_acceptor s) = Some (2 :: nat)" "ts_connectionCallback s = Some 3"
    "el_requests l = []"
    by (simp add: TcpServer_new_def Acceptor_new_def createAndListen_def setNewConnectionCallback_def Let_def
        demo_loop_def)
  from accepted_is_registered [OF _ s(2,3), of 9 400 5 6 7 l] s(4) show ?thesis
    by simp blast
qed

end
