(* ===== verification/HttpContext.thy ===== *)
theory HttpContext
  imports Buffer Timestamp
begin

text \<open>
  \<open>net::HttpRequest\<close> and \<open>net::HttpContext\<close> (src/net/http/HttpRequest.h,
  HttpContext.h, HttpContext.cc): the incremental parser of requests. These files are in no target of
  the build and do not compile: \<open>kHead\<close> is used and not declared, \<open>kUnknow\<close> is
  \<open>kUnknown\<close> in its use, the member's type is spelt \<open>HttpRequestt\<close>. The model has
  the method and reads the misspelt names as the ones meant. \<open>std::map\<close> is its elements in
  the order of their keys. \<open>Buffer::kCRLF\<close>, which no file defines, is a parameter.
\<close>

section \<open>Ordered maps\<close>

fun string_less :: "string \<Rightarrow> string \<Rightarrow> bool" where
  "string_less [] [] = False"
| "string_less [] (y # ys) = True"
| "string_less (x # xs) [] = False"
| "string_less (x # xs) (y # ys) =
     ((of_char x :: nat) < of_char y \<or> x = y \<and> string_less xs ys)"

type_synonym string_map = "(string \<times> string) list"

definition header_less :: "string \<times> string \<Rightarrow> string \<times> string \<Rightarrow> bool" where
  "header_less a b \<longleftrightarrow> string_less (fst a) (fst b)"

text \<open>\<open>headers_[field] = value\<close>: the element of the key is overwritten or inserted in its place.\<close>

definition map_assign :: "string \<Rightarrow> string \<Rightarrow> string_map \<Rightarrow> string_map" where
  "map_assign field value m =
     (let p = lower_bound header_less m (field, value)
      in if p < length m \<and> fst (m ! p) = field then m[p := (field, value)]
         else fst (set_insert header_less (field, value) m))"

section \<open>HttpRequest\<close>

datatype Method = kInvalid | kGet | kPost | kHead | kPut | kDelete

datatype Version = kUnknown | kHttp10 | kHttp11

record HttpRequest =
  req_method :: Method
  version :: Version
  path :: string
  query :: string
  receiveTime :: Timestamp
  headers :: string_map

definition HttpRequest_new :: HttpRequest where
  "HttpRequest_new = \<lparr>req_method = kInvalid, version = kUnknown, path = [], query = [],
     receiveTime = Timestamp_default, headers = []\<rparr>"

definition setVersion :: "Version \<Rightarrow> HttpRequest \<Rightarrow> HttpRequest" where
  "setVersion v r = r\<lparr>version := v\<rparr>"

definition setMethod :: "string \<Rightarrow> HttpRequest \<Rightarrow> (bool \<times> HttpRequest) res" where
  "setMethod m r =
     cassert (req_method r = kInvalid)
       (let r = r\<lparr>req_method :=
          (if m = ''GET'' then kGet
           else if m = ''POST'' then kPost
           else if m = ''HEAD'' then kHead
           else if m = ''PUT'' then kPut
           else if m = ''DELETE'' then kDelete
           else kInvalid)\<rparr>
        in Inr (req_method r \<noteq> kInvalid, r))"

definition methodString :: "HttpRequest \<Rightarrow> string" where
  "methodString r =
     (case req_method r of kGet \<Rightarrow> ''GET'' | kPost \<Rightarrow> ''POST'' | kHead \<Rightarrow> ''HEAD'' | kPut \<Rightarrow> ''PUT''
      | _ \<Rightarrow> ''UNKNOWN'')"

definition setPath :: "string \<Rightarrow> HttpRequest \<Rightarrow> HttpRequest" where
  "setPath p r = r\<lparr>path := p\<rparr>"

definition setQuery :: "string \<Rightarrow> HttpRequest \<Rightarrow> HttpRequest" where
  "setQuery q r = r\<lparr>query := q\<rparr>"

definition setReceiveTime :: "Timestamp \<Rightarrow> HttpRequest \<Rightarrow> HttpRequest" where
  "setReceiveTime t r = r\<lparr>receiveTime := t\<rparr>"

text \<open>\<open>isspace\<close> in the C locale.\<close>

definition isspace :: "char \<Rightarrow> bool" where
  "isspace c \<longleftrightarrow> c \<in> {CHR 0x20, CHR 0x09, CHR 0x0A, CHR 0x0B, CHR 0x0C, CHR 0x0D}"

fun trim_end :: "string \<Rightarrow> string" where
  "trim_end [] = []"
| "trim_end (c # cs) =
     (let r = trim_end cs in if r = [] \<and> isspace c then [] else c # r)"

text \<open>The line from \<open>start\<close> to \<open>end\<close>, and the offset of its colon.\<close>

definition addHeader :: "string \<Rightarrow> nat \<Rightarrow> HttpRequest \<Rightarrow> HttpRequest" where
  "addHeader line colon r =
     (let field = take colon line;
          value = trim_end (dropWhile isspace (drop (colon + 1) line))
      in r\<lparr>headers := map_assign field value (headers r)\<rparr>)"

definition getHeader :: "string \<Rightarrow> HttpRequest \<Rightarrow> string" where
  "getHeader field r =
     (case map_of (headers r) field of None \<Rightarrow> [] | Some v \<Rightarrow> v)"

definition HttpRequest_swap :: "HttpRequest \<Rightarrow> HttpRequest \<Rightarrow> HttpRequest \<times> HttpRequest" where
  "HttpRequest_swap r that = (that, r)"

section \<open>HttpContext\<close>

datatype HttpRequestParseState = kExpectRequestLine | kExpectHeaders | kExpectBody | kGotAll

record HttpContext =
  state :: HttpRequestParseState
  request :: HttpRequest

definition HttpContext_new :: HttpContext where
  "HttpContext_new = \<lparr>state = kExpectRequestLine, request = HttpRequest_new\<rparr>"

definition gotAll :: "HttpContext \<Rightarrow> bool" where
  "gotAll c \<longleftrightarrow> state c = kGotAll"

definition HttpContext_reset :: "HttpContext \<Rightarrow> HttpContext" where
  "HttpContext_reset c =
     c\<lparr>state := kExpectRequestLine, request := fst (HttpRequest_swap (request c) HttpRequest_new)\<rparr>"

text \<open>
  The bytes from \<open>begin\<close> to \<open>end\<close> are the line; \<open>rest\<close> is the line after the first blank,
  \<open>last\<close> what follows the second.
\<close>

definition processRequestLine :: "string \<Rightarrow> HttpContext \<Rightarrow> (bool \<times> HttpContext) res" where
  "processRequestLine line c =
     (let space = std_find (CHR '' '') line
      in if space = length line then Inr (False, c)
         else bind_r (setMethod (take space line) (request c)) (\<lambda>(valid, req).
           if \<not> valid then Inr (False, c\<lparr>request := req\<rparr>)
           else
             let rest = drop (space + 1) line; space = std_find (CHR '' '') rest
             in if space = length rest then Inr (False, c\<lparr>request := req\<rparr>)
                else
                  let target = take space rest;
                      question = std_find (CHR ''?'') target;
                      req = (if question \<noteq> length target
                             then setQuery (drop question target) (setPath (take question target) req)
                             else setPath target req);
                      last = drop (space + 1) rest
                  in if length last = 8 \<and> take 7 last = ''HTTP/1.''
                     then if last ! 7 = CHR ''1'' then Inr (True, c\<lparr>request := setVersion kHttp11 req\<rparr>)
                          else if last ! 7 = CHR ''0'' then Inr (True, c\<lparr>request := setVersion kHttp10 req\<rparr>)
                          else Inr (False, c\<lparr>request := req\<rparr>)
                     else Inr (False, c\<lparr>request := req\<rparr>)))"

text \<open>
  One round of the loop of \<open>parseRequest\<close>: the context and the buffer, \<open>ok\<close> and \<open>hasMore\<close>.
  In the states \<open>kExpectBody\<close> and \<open>kGotAll\<close> a round does nothing.
\<close>

definition parse_round ::
  "char list \<Rightarrow> Timestamp \<Rightarrow> HttpContext \<Rightarrow> buffer \<Rightarrow> bool \<Rightarrow> (HttpContext \<times> buffer \<times> bool \<times> bool) res" where
  "parse_round kCRLF now c buf ok =
     (if state c = kExpectRequestLine
      then bind_r (findCRLF kCRLF buf) (\<lambda>crlf.
        case crlf of
          None \<Rightarrow> Inr (c, buf, ok, False)
        | Some crlf \<Rightarrow>
            bind_r (vec_load (peek buf) (crlf - peek buf) (vec buf)) (\<lambda>line.
            bind_r (processRequestLine line c) (\<lambda>(ok, c).
              if ok
              then let c = c\<lparr>request := setReceiveTime now (request c)\<rparr>
                   in bind_r (retrieveUntil (crlf + 2) buf) (\<lambda>buf.
                        Inr (c\<lparr>state := kExpectHeaders\<rparr>, buf, ok, True))
              else Inr (c, buf, ok, False))))
      else if state c = kExpectHeaders
      then bind_r (findCRLF kCRLF buf) (\<lambda>crlf.
        case crlf of
          None \<Rightarrow> Inr (c, buf, ok, False)
        | Some crlf \<Rightarrow>
            bind_r (vec_load (peek buf) (crlf - peek buf) (vec buf)) (\<lambda>line.
              let colon = std_find (CHR '':'') line;
                  (c, hasMore) =
                    (if colon \<noteq> length line then (c\<lparr>request := addHeader line colon (request c)\<rparr>, True)
                     else (c\<lparr>state := kGotAll\<rparr>, False))
              in bind_r (retrieveUntil (crlf + 2) buf) (\<lambda>buf. Inr (c, buf, ok, hasMore))))
      else Inr (c, buf, ok, True))"

partial_function (option) parse_loop ::
  "char list \<Rightarrow> Timestamp \<Rightarrow> HttpContext \<Rightarrow> buffer \<Rightarrow> bool \<Rightarrow> (bool \<times> HttpContext \<times> buffer) res option" where
  "parse_loop kCRLF now c buf ok =
     (case parse_round kCRLF now c buf ok of
        Inl e \<Rightarrow> Some (Inl e)
      | Inr (c, buf, ok, hasMore) \<Rightarrow>
          if hasMore then parse_loop kCRLF now c buf ok else Some (Inr (ok, c, buf)))"

definition parseRequest ::
  "char list \<Rightarrow> buffer \<Rightarrow> Timestamp \<Rightarrow> HttpContext \<Rightarrow> (bool \<times> HttpContext \<times> buffer) res option" where
  "parseRequest kCRLF buf receive_time c = parse_loop kCRLF receive_time c buf True"

section \<open>The parser on the text\<close>

text \<open>
  What the loop does to the content of the buffer, without the buffer: an abstract parser by
  recursion on the text, used below for the two states a parse starts in.
\<close>

definition line_of :: "char list \<Rightarrow> string \<Rightarrow> (string \<times> string) option" where
  "line_of k text =
     (let i = std_search (take 2 k) text
      in if i = length text then None else Some (take i text, drop (i + 2) text))"

lemma line_of_shorter: "line_of k text = Some (line, rest) \<Longrightarrow> length rest < length text"
  using std_search_le [of "take 2 k" "text"] by (auto simp: line_of_def Let_def split: if_splits)

definition got_request_line :: "Timestamp \<Rightarrow> HttpContext \<Rightarrow> HttpContext" where
  "got_request_line now c = c\<lparr>request := setReceiveTime now (request c), state := kExpectHeaders\<rparr>"

function parse_text ::
  "char list \<Rightarrow> Timestamp \<Rightarrow> HttpContext \<Rightarrow> string \<Rightarrow> (bool \<times> HttpContext \<times> string) res" where
  "parse_text k now c text =
     (case line_of k text of
        None \<Rightarrow> Inr (True, c, text)
      | Some (line, rest) \<Rightarrow>
          if state c = kExpectRequestLine
          then (case processRequestLine line c of
                  Inl e \<Rightarrow> Inl e
                | Inr (ok, c') \<Rightarrow>
                    if ok then parse_text k now (got_request_line now c') rest else Inr (False, c', text))
          else if CHR '':'' \<in> set line
          then parse_text k now
                 (c\<lparr>request := addHeader line (std_find (CHR '':'') line) (request c)\<rparr>) rest
          else Inr (True, c\<lparr>state := kGotAll\<rparr>, rest))"
  by auto
termination
  by (relation "measure (\<lambda>(k, now, c, text). length text)") (auto dest: line_of_shorter)

declare parse_text.simps [simp del]

definition parsing :: "HttpContext \<Rightarrow> bool" where
  "parsing c \<longleftrightarrow> state c \<in> {kExpectRequestLine, kExpectHeaders}"

lemma std_find_mem: "std_find x xs = length xs \<longleftrightarrow> x \<notin> set xs"
  using std_find_less_iff [of x xs] std_find_le [of x xs] by linarith

lemma find_line:
  assumes wf: "wf_buffer buf" and k: "length k = 2" and l: "line_of k (content buf) = Some (line, rest)"
  shows "\<exists>crlf b'. findCRLF k buf = Inr (Some crlf) \<and>
    vec_load (peek buf) (crlf - peek buf) (vec buf) = Inr line \<and>
    retrieveUntil (crlf + 2) buf = Inr b' \<and> wf_buffer b' \<and> content b' = rest \<and> writerIndex b' \<le> writerIndex buf"
proof -
  define i where "i = std_search k (content buf)"
  have l': "i \<noteq> length (content buf)" "line = take i (content buf)" "rest = drop (i + 2) (content buf)"
    using l k by (auto simp: line_of_def i_def Let_def split: if_splits)
  have "i < length (content buf)" using l'(1) std_search_le [of k "content buf"] by (simp add: i_def)
  then have le: "i + 2 \<le> length (content buf)"
    using std_search_found_le [of k "content buf"] k by (simp add: i_def)
  have "findCRLF k buf = Inr (Some (readerIndex buf + i))"
    using l'(1) k by (simp add: findCRLF_content [OF wf] i_def Let_def)
  moreover have "vec_load (peek buf) (readerIndex buf + i - peek buf) (vec buf) = Inr line"
  proof -
    have "readerIndex buf + i \<le> length (vec buf)" "i \<le> writerIndex buf - readerIndex buf"
      using le wf by (auto simp: buf_simps) (auto simp: wf_buffer_def)
    then show ?thesis by (simp add: peek_def l'(2) content_def min_absorb1)
  qed
  moreover from retrieveUntil_ok [OF wf le] obtain b' where
    "retrieveUntil (readerIndex buf + i + 2) buf = Inr b'" "wf_buffer b'" "content b' = rest"
    "writerIndex b' \<le> writerIndex buf"
    by (auto simp: l'(3) add.assoc)
  ultimately show ?thesis by blast
qed

lemma no_line: "wf_buffer buf \<Longrightarrow> length k = 2 \<Longrightarrow> line_of k (content buf) = None \<Longrightarrow> findCRLF k buf = Inr None"
  by (simp add: findCRLF_content line_of_def Let_def split: if_splits)

text \<open>The loop on a buffer computes what the abstract parser computes on its content, and ends.\<close>

lemma parse_loop_text:
  assumes "wf_buffer buf" "length k = 2" "parsing c"
  shows "case parse_text k now c (content buf) of
      Inl e \<Rightarrow> parse_loop k now c buf True = Some (Inl e)
    | Inr (ok, c', rest) \<Rightarrow> \<exists>buf'. parse_loop k now c buf True = Some (Inr (ok, c', buf')) \<and>
        wf_buffer buf' \<and> content buf' = rest \<and> writerIndex buf' \<le> writerIndex buf"
  using assms
proof (induction "length (content buf)" arbitrary: buf c rule: less_induct)
  case less
  note wf = less.prems(1) and k = less.prems(2)
  show ?case
  proof (cases "line_of k (content buf)")
    case None
    then have f: "findCRLF k buf = Inr None" using no_line wf k by blast
    have "parse_round k now c buf True = Inr (c, buf, True, False)"
      using less.prems(3) by (auto simp: parse_round_def f parsing_def)
    then show ?thesis
      using wf None by (subst parse_text.simps, subst parse_loop.simps) simp
  next
    case (Some lr)
    obtain line rest where lr: "lr = (line, rest)" by (cases lr)
    note l = Some [unfolded lr]
    from find_line [OF wf k l] obtain crlf b' where
      f: "findCRLF k buf = Inr (Some crlf)" "vec_load (peek buf) (crlf - peek buf) (vec buf) = Inr line"
        "retrieveUntil (crlf + 2) buf = Inr b'" "wf_buffer b'" "content b' = rest" "writerIndex b' \<le> writerIndex buf"
      by blast
    show ?thesis
    proof (cases "state c = kExpectRequestLine")
      case True
      note rl = this
      show ?thesis
      proof (cases "processRequestLine line c")
        case (Inl e)
        then have "parse_round k now c buf True = Inl e" using rl f by (simp add: parse_round_def)
        with l rl Inl show ?thesis by (subst parse_text.simps, subst parse_loop.simps) simp
      next
        case (Inr r)
        obtain ok c' where r: "r = (ok, c')" by (cases r)
        show ?thesis
        proof (cases ok)
          case False
          then have "parse_round k now c buf True = Inr (c', buf, False, False)"
            using rl f Inr r by (simp add: parse_round_def)
          with l rl Inr r False wf show ?thesis
            by (subst parse_text.simps, subst parse_loop.simps) simp
        next
          case True
          have "parse_round k now c buf True = Inr (got_request_line now c', b', True, True)"
            using rl f Inr r True by (simp add: parse_round_def got_request_line_def Let_def)
          then have pl: "parse_loop k now c buf True = parse_loop k now (got_request_line now c') b' True"
            by (subst parse_loop.simps) simp
          have pt: "parse_text k now c (content buf) = parse_text k now (got_request_line now c') rest"
            using l rl Inr r True by (subst parse_text.simps) simp
          have "parsing (got_request_line now c')" by (simp add: parsing_def got_request_line_def)
          then show ?thesis
            unfolding pl pt
            using less.hyps [OF _ f(4) k, of "got_request_line now c'"] f(5,6) line_of_shorter [OF l]
            by (fastforce split: sum.splits)
        qed
      qed
    next
      case False
      then have h: "state c = kExpectHeaders" using less.prems(3) by (simp add: parsing_def)
      show ?thesis
      proof (cases "CHR '':'' \<in> set line")
        case True
        let ?c = "c\<lparr>request := addHeader line (std_find (CHR '':'') line) (request c)\<rparr>"
        have "parse_round k now c buf True = Inr (?c, b', True, True)"
          using h f True by (simp add: parse_round_def Let_def std_find_mem)
        then have pl: "parse_loop k now c buf True = parse_loop k now ?c b' True"
          by (subst parse_loop.simps) simp
        have pt: "parse_text k now c (content buf) = parse_text k now ?c rest"
          using l h True by (subst parse_text.simps) simp
        have "parsing ?c" by (simp add: parsing_def h)
        then show ?thesis
          unfolding pl pt using less.hyps [OF _ f(4) k, of ?c] f(5,6) line_of_shorter [OF l]
          by (fastforce split: sum.splits)
      next
        case no: False
        have "parse_round k now c buf True = Inr (c\<lparr>state := kGotAll\<rparr>, b', True, False)"
          using h f no by (simp add: parse_round_def Let_def std_find_mem)
        with l h no f(4-6) show ?thesis
          by (subst parse_text.simps, subst parse_loop.simps) simp
      qed
    qed
  qed
qed

section \<open>Text that arrives in pieces\<close>

lemma std_search_append:
  "std_search pat xs < length xs \<Longrightarrow> std_search pat (xs @ ys) = std_search pat xs"
proof (induction xs)
  case (Cons x xs)
  show ?case
  proof (cases "take (length pat) (x # xs) = pat")
    case True
    then have "length pat \<le> length (x # xs)" by (metis length_take min.absorb_iff2 nat_le_linear take_all)
    then have "take (length pat) ((x # xs) @ ys) = pat" unfolding take_append using True by simp
    with True show ?thesis by (simp del: take_Cons')
  next
    case False
    with Cons.prems have found: "std_search pat xs < length xs" by (simp del: take_Cons')
    from std_search_found_le [OF this] have "length pat \<le> length (x # xs)" by simp
    then have "take (length pat) ((x # xs) @ ys) \<noteq> pat" unfolding take_append using False by simp
    with False Cons.IH [OF found] show ?thesis by (simp del: take_Cons')
  qed
qed simp

lemma line_of_append:
  assumes "line_of k xs = Some (line, rest)" "length k = 2"
  shows "line_of k (xs @ ys) = Some (line, rest @ ys)"
proof -
  have l: "std_search k xs < length xs" "line = take (std_search k xs) xs" "rest = drop (std_search k xs + 2) xs"
    using assms std_search_le [of k xs] by (auto simp: line_of_def Let_def split: if_splits)
  then show ?thesis
    using assms(2) std_search_append [OF l(1), of ys] std_search_found_le [OF l(1)]
    by (simp add: line_of_def Let_def)
qed

lemma parse_text_append:
  assumes "parse_text k now c xs = Inr (True, c', rest)" "length k = 2" "parsing c"
  shows "parse_text k now c (xs @ ys) =
    (if state c' = kGotAll then Inr (True, c', rest @ ys) else parse_text k now c' (rest @ ys)) \<and>
    (state c' = kGotAll \<or> parsing c')"
  using assms
proof (induction "length xs" arbitrary: xs c rule: less_induct)
  case less
  note p = less.prems(1) and k = less.prems(2)
  show ?case
  proof (cases "line_of k xs")
    case None
    with p have "c' = c" "rest = xs" by (subst (asm) parse_text.simps, simp)+
    with less.prems(3) show ?thesis by (auto simp: parsing_def)
  next
    case (Some lr)
    obtain line r where l: "line_of k xs = Some (line, r)" using Some by (cases lr) simp
    note la = line_of_append [OF l k, of ys]
    show ?thesis
    proof (cases "state c = kExpectRequestLine")
      case True
      obtain c1 where c1: "processRequestLine line c = Inr (True, c1)"
        "parse_text k now (got_request_line now c1) r = Inr (True, c', rest)"
        using p l True by (subst (asm) parse_text.simps) (auto split: sum.splits if_splits)
      have "parse_text k now c (xs @ ys) = parse_text k now (got_request_line now c1) (r @ ys)"
        using la True c1(1) by (subst parse_text.simps) simp
      with less.hyps [OF line_of_shorter [OF l] c1(2) k] show ?thesis
        by (simp add: parsing_def got_request_line_def)
    next
      case False
      then have h: "state c = kExpectHeaders" using less.prems(3) by (simp add: parsing_def)
      show ?thesis
      proof (cases "CHR '':'' \<in> set line")
        case True
        let ?c = "c\<lparr>request := addHeader line (std_find (CHR '':'') line) (request c)\<rparr>"
        have "parse_text k now ?c r = Inr (True, c', rest)"
          using p l h True by (subst (asm) parse_text.simps) simp
        moreover have "parse_text k now c (xs @ ys) = parse_text k now ?c (r @ ys)"
          using la h True by (subst parse_text.simps) simp
        ultimately show ?thesis
          using less.hyps [OF line_of_shorter [OF l] _ k, of ?c] h by (simp add: parsing_def)
      next
        case no: False
        have "c' = c\<lparr>state := kGotAll\<rparr>" "rest = r"
          using p l h no by (subst (asm) parse_text.simps, simp)+
        moreover have "parse_text k now c (xs @ ys) = Inr (True, c\<lparr>state := kGotAll\<rparr>, r @ ys)"
          using la h no by (subst parse_text.simps) simp
        ultimately show ?thesis by simp
      qed
    qed
  qed
qed

text \<open>More text does not help a parse that was refused or failed.\<close>

lemma parse_text_append_bad:
  assumes "parse_text k now c (xs @ ys) = Inr (True, c', rest)" "length k = 2" "parsing c"
  shows "\<exists>c1 r1. parse_text k now c xs = Inr (True, c1, r1)"
  using assms
proof (induction "length xs" arbitrary: xs c rule: less_induct)
  case less
  note p = less.prems(1) and k = less.prems(2)
  show ?case
  proof (cases "line_of k xs")
    case None
    then show ?thesis by (subst parse_text.simps) simp
  next
    case (Some lr)
    obtain line r where l: "line_of k xs = Some (line, r)" using Some by (cases lr) simp
    note la = line_of_append [OF l k, of ys]
    show ?thesis
    proof (cases "state c = kExpectRequestLine")
      case True
      obtain c1 where c1: "processRequestLine line c = Inr (True, c1)"
        "parse_text k now (got_request_line now c1) (r @ ys) = Inr (True, c', rest)"
        using p la True by (subst (asm) parse_text.simps) (auto split: sum.splits if_splits)
      have "parsing (got_request_line now c1)" by (simp add: parsing_def got_request_line_def)
      from less.hyps [OF line_of_shorter [OF l] c1(2) k this] show ?thesis
        using l True c1(1) by (subst parse_text.simps) simp
    next
      case False
      then have h: "state c = kExpectHeaders" using less.prems(3) by (simp add: parsing_def)
      let ?c = "c\<lparr>request := addHeader line (std_find (CHR '':'') line) (request c)\<rparr>"
      show ?thesis
      proof (cases "CHR '':'' \<in> set line")
        case True
        then have "parse_text k now ?c (r @ ys) = Inr (True, c', rest)"
          using p la h by (subst (asm) parse_text.simps) simp
        moreover have "parsing ?c" using h by (simp add: parsing_def)
        ultimately show ?thesis
          using less.hyps [OF line_of_shorter [OF l] _ k, of ?c] l h True by (subst parse_text.simps) simp
      next
        case no: False
        with l h show ?thesis by (subst parse_text.simps) simp
      qed
    qed
  qed
qed

text \<open>The result of \<open>parseRequest\<close> up to where the bytes lie in the buffer.\<close>

definition parse_result ::
  "(bool \<times> HttpContext \<times> buffer) res option \<Rightarrow> (bool \<times> HttpContext \<times> string) res option" where
  "parse_result r = map_option (map_sum id (\<lambda>(ok, c, buf). (ok, c, content buf))) r"

lemma parseRequest_text:
  assumes "wf_buffer buf" "length k = 2" "parsing c"
  shows "parse_result (parseRequest k buf now c) = Some (parse_text k now c (content buf))"
    and "parseRequest k buf now c = Some (Inr (ok, c', buf')) \<Longrightarrow>
      wf_buffer buf' \<and> writerIndex buf' \<le> writerIndex buf"
  using parse_loop_text [OF assms, of now]
  by (auto simp: parseRequest_def parse_result_def split: sum.splits)

section \<open>Header maps\<close>

lemma string_less_irrefl: "\<not> string_less x x"
  by (induction x) auto

lemma string_less_trans: "string_less x y \<Longrightarrow> string_less y z \<Longrightarrow> string_less x z"
proof (induction x y arbitrary: z rule: string_less.induct)
  case (2 y ys)
  then show ?case by (cases z) auto
next
  case (4 x xs y ys)
  then show ?case by (cases z) auto
qed auto

lemma string_less_total: "\<not> string_less x y \<Longrightarrow> \<not> string_less y x \<Longrightarrow> x = y"
  by (induction x y rule: string_less.induct)
    (auto simp: not_less dest: antisym [of "of_char _ :: nat"])

interpretation header_order: strict_weak_order header_less
proof
  fix x y z :: "string \<times> string"
  show "\<not> header_less x x" by (simp add: header_less_def string_less_irrefl)
  show "header_less x y \<Longrightarrow> header_less y z \<Longrightarrow> header_less x z"
    unfolding header_less_def by (rule string_less_trans)
  show "header_less x z \<Longrightarrow> header_less x y \<or> header_less y z"
    unfolding header_less_def using string_less_trans string_less_total by metis
qed

definition headers_ok :: "string_map \<Rightarrow> bool" where
  "headers_ok m \<longleftrightarrow> sorted_wrt header_less m"

lemma headers_ok_distinct: "headers_ok m \<Longrightarrow> distinct (map fst m)"
  unfolding headers_ok_def
  by (induction m) (auto simp: header_less_def string_less_irrefl)

lemma headers_ok_keys: "headers_ok m \<longleftrightarrow> sorted_wrt string_less (map fst m)"
  by (simp add: headers_ok_def header_less_def [abs_def] sorted_wrt_map)

lemma map_of_update_at:
  "p < length m \<Longrightarrow> fst (m ! p) = k \<Longrightarrow> distinct (map fst m) \<Longrightarrow> map_of (m[p := (k, v)]) = (map_of m)(k \<mapsto> v)"
proof (induction m arbitrary: p)
  case (Cons x m)
  show ?case
  proof (cases p)
    case (Suc i)
    with Cons.prems have "m ! i \<in> set m" "fst (m ! i) = k" by simp_all
    then have "k \<in> fst ` set m" by force
    then have "fst x \<noteq> k" using Cons.prems(3) by auto
    with Suc Cons show ?thesis by (auto simp: fun_upd_twist split: prod.splits)
  qed (use Cons.prems in auto)
qed simp

text \<open>\<open>headers_[field] = value\<close> is an update of the finite map, and keeps the order.\<close>

lemma map_assign_ok:
  assumes "headers_ok m"
  shows "headers_ok (map_assign field v m) \<and> map_of (map_assign field v m) = (map_of m)(field \<mapsto> v)"
proof -
  let ?x = "(field, v)" and ?p = "lower_bound header_less m (field, v)"
  let ?r = "set_insert header_less ?x m"
  have d: "distinct (map fst m)" and s: "sorted_wrt header_less m"
    using headers_ok_distinct [OF assms] assms by (simp_all add: headers_ok_def)
  show ?thesis
  proof (cases "?p < length m \<and> fst (m ! ?p) = field")
    case True
    then have "map fst (m[?p := ?x]) = map fst m" by (simp add: map_update list_update_same_conv)
    with True assms map_of_update_at [of ?p m field v] d show ?thesis
      by (simp add: map_assign_def headers_ok_keys)
  next
    case False
    have ins: "snd ?r"
    proof (rule ccontr)
      assume "\<not> snd ?r"
      then have p: "?p < length m" "\<not> header_less ?x (m ! ?p)"
        by (auto simp: set_insert_def Let_def split: if_splits)
      have "\<not> header_less (m ! ?p) ?x"
        using p nth_length_takeWhile [of "\<lambda>y. header_less y ?x" m] by (simp add: lower_bound_def)
      with p(2) have "fst (m ! ?p) = field" using string_less_total by (auto simp: header_less_def)
      with p(1) False show False by blast
    qed
    note r = header_order.set_insert_done [OF ins s]
    have ok: "headers_ok (fst ?r)" using r(2) by (simp add: headers_ok_def)
    note d' = headers_ok_distinct [OF ok]
    have "map_of (fst ?r) k = ((map_of m)(field \<mapsto> v)) k" for k
    proof (cases "k = field")
      case True
      have "map_of (fst ?r) field = Some v" by (rule map_of_is_SomeI [OF d']) (simp add: r(3))
      with True show ?thesis by simp
    next
      case False
      then have "map_of (fst ?r) k = Some w \<longleftrightarrow> map_of m k = Some w" for w
        using d d' by (simp add: map_of_eq_Some_iff r(3))
      with False show ?thesis by (cases "map_of m k"; cases "map_of (fst ?r) k") auto
    qed
    with ok False show ?thesis by (auto simp: map_assign_def Let_def)
  qed
qed

lemma fold_map_assign:
  "headers_ok m \<Longrightarrow> headers_ok (fold (\<lambda>(f, v). map_assign f v) hs m) \<and>
    map_of (fold (\<lambda>(f, v). map_assign f v) hs m) = map_of m ++ map_of (rev hs)"
proof (induction hs arbitrary: m)
  case (Cons h hs)
  obtain f v where h: "h = (f, v)" by (cases h)
  have "map_of m ++ map_of (rev (h # hs)) = (map_of m)(f \<mapsto> v) ++ map_of (rev hs)"
    by (simp add: h map_add_def fun_eq_iff map_of_append split: option.splits)
  with Cons.IH [of "map_assign f v m"] map_assign_ok [OF Cons.prems, of f v] h show ?case
    by (simp add: fun_upd_def)
qed simp

section \<open>Well-formed requests\<close>

definition crlf :: string where
  "crlf = [CHR 0x0D, CHR 0x0A]"

fun method_name :: "Method \<Rightarrow> string" where
  "method_name kGet = ''GET''"
| "method_name kPost = ''POST''"
| "method_name kHead = ''HEAD''"
| "method_name kPut = ''PUT''"
| "method_name kDelete = ''DELETE''"
| "method_name kInvalid = ''''"

fun version_name :: "Version \<Rightarrow> string" where
  "version_name kHttp10 = ''HTTP/1.0''"
| "version_name kHttp11 = ''HTTP/1.1''"
| "version_name kUnknown = ''''"

definition request_line :: "Method \<Rightarrow> string \<Rightarrow> string \<Rightarrow> Version \<Rightarrow> string" where
  "request_line m p q v = method_name m @ '' '' @ (p @ q) @ '' '' @ version_name v"

definition header_line :: "string \<times> string \<Rightarrow> string" where
  "header_line h = fst h @ '': '' @ snd h"

definition request_text :: "Method \<Rightarrow> string \<Rightarrow> string \<Rightarrow> Version \<Rightarrow> string_map \<Rightarrow> string" where
  "request_text m p q v hs =
     request_line m p q v @ crlf @ concat (map (\<lambda>h. header_line h @ crlf) hs) @ crlf"

text \<open>
  A path without blank, question mark and carriage return; a query that is empty or starts with a
  question mark; fields without colon; values without blanks around them.
\<close>

definition target_ok :: "string \<Rightarrow> string \<Rightarrow> bool" where
  "target_ok p q \<longleftrightarrow>
     CHR 0x0D \<notin> set (p @ q) \<and> CHR '' '' \<notin> set (p @ q) \<and> CHR ''?'' \<notin> set p \<and>
     (q = [] \<or> hd q = CHR ''?'')"

definition header_ok :: "string \<times> string \<Rightarrow> bool" where
  "header_ok h \<longleftrightarrow>
     CHR 0x0D \<notin> set (fst h) \<and> CHR '':'' \<notin> set (fst h) \<and> CHR 0x0D \<notin> set (snd h) \<and>
     (snd h = [] \<or> \<not> isspace (hd (snd h)) \<and> \<not> isspace (last (snd h)))"

lemma std_search_crlf: "CHR 0x0D \<notin> set line \<Longrightarrow> std_search crlf (line @ crlf @ rest) = length line"
  by (induction line) (auto simp: crlf_def)

lemma line_of_crlf: "CHR 0x0D \<notin> set line \<Longrightarrow> line_of crlf (line @ crlf @ rest) = Some (line, rest)"
  using std_search_crlf [of line rest] by (simp add: line_of_def crlf_def)

lemma trim_end_ok: "v = [] \<or> \<not> isspace (last v) \<Longrightarrow> trim_end v = v"
  by (induction v) (auto simp: Let_def split: if_splits)

lemma addHeader_line:
  assumes "header_ok h"
  shows "addHeader (header_line h) (std_find (CHR '':'') (header_line h)) r =
    r\<lparr>headers := map_assign (fst h) (snd h) (headers r)\<rparr>"
proof -
  obtain f v where h: "h = (f, v)" by (cases h)
  have "std_find (CHR '':'') (f @ CHR '':'' # '' '' @ v) = length f"
    using assms by (intro std_find_append) (simp add: header_ok_def h)
  moreover have "dropWhile isspace (CHR '' '' # v) = v"
    using assms by (cases v) (auto simp: header_ok_def h isspace_def)
  moreover have "trim_end v = v" using assms by (intro trim_end_ok) (auto simp: header_ok_def h)
  ultimately show ?thesis by (simp add: addHeader_def header_line_def h Let_def)
qed

lemma setMethod_name:
  "m \<noteq> kInvalid \<Longrightarrow> req_method r = kInvalid \<Longrightarrow> setMethod (method_name m) r = Inr (True, r\<lparr>req_method := m\<rparr>)"
  by (cases m) (simp_all add: setMethod_def Let_def)

lemma processRequestLine_ok:
  assumes "req_method (request c) = kInvalid" "m \<noteq> kInvalid" "v \<noteq> kUnknown" "target_ok p q" "query (request c) = []"
  shows "processRequestLine (request_line m p q v) c =
    Inr (True, c\<lparr>request := (request c)\<lparr>req_method := m, path := p, query := q, version := v\<rparr>\<rparr>)"
proof -
  have "CHR '' '' \<notin> set (method_name m)" by (cases m) simp_all
  then have sp: "std_find (CHR '' '') (method_name m @ CHR '' '' # xs) = length (method_name m)" for xs
    by (rule std_find_append)
  have "CHR '' '' \<notin> set (p @ q)" using assms(4) by (simp add: target_ok_def)
  then have sp2: "std_find (CHR '' '') ((p @ q) @ CHR '' '' # xs) = length (p @ q)" for xs
    by (rule std_find_append)
  have qm: "std_find (CHR ''?'') (p @ q) = length p"
  proof (cases q)
    case Nil
    then show ?thesis using assms(4) std_find_notin [of "CHR ''?''" p] by (simp add: target_ok_def)
  next
    case (Cons x xs)
    then have "x = CHR ''?''" using assms(4) by (simp add: target_ok_def)
    then show ?thesis unfolding Cons using assms(4) by (simp add: target_ok_def std_find_append)
  qed
  have ver: "length (version_name v) = 8" "take 7 (version_name v) = ''HTTP/1.''"
    "version_name v ! 7 = (if v = kHttp11 then CHR ''1'' else CHR ''0'')"
    using assms(3) by (cases v; simp)+
  let ?req = "(request c)\<lparr>req_method := m, path := p, query := q\<rparr>"
  have tq: "(if length p \<noteq> length (p @ q) then setQuery (drop (length p) (p @ q)) (setPath (take (length p) (p @ q)) r)
      else setPath (p @ q) r) = r\<lparr>path := p, query := q\<rparr>" if "query r = []" for r
    using that by (cases "q = []") (simp_all add: setPath_def setQuery_def)
  have line: "request_line m p q v = method_name m @ CHR '' '' # ((p @ q) @ CHR '' '' # version_name v)"
    by (simp add: request_line_def)
  have rest: "drop (length (method_name m) + 1) (method_name m @ CHR '' '' # xs) = xs" for xs by simp
  have target: "take (length (p @ q)) ((p @ q) @ CHR '' '' # xs) = p @ q"
    "drop (length (p @ q) + 1) ((p @ q) @ CHR '' '' # xs) = xs" for xs
    by (simp_all del: append_assoc)
  have ne: "length (method_name m) \<noteq> length (method_name m @ CHR '' '' # xs)"
    "length (p @ q) \<noteq> length ((p @ q) @ CHR '' '' # xs)" for xs
    by (simp_all del: append_assoc)
  have mn: "take (length (method_name m)) (method_name m @ CHR '' '' # xs) = method_name m" for xs by simp
  show ?thesis
    unfolding processRequestLine_def line Let_def sp rest sp2 target qm mn setMethod_name [OF assms(2,1)]
    using ne tq [of "(request c)\<lparr>req_method := m\<rparr>"] assms(5) ver assms(3)
    by (cases v) (simp_all add: setVersion_def del: append_assoc length_append)
qed

lemma parse_headers:
  assumes "state c = kExpectHeaders" "list_all header_ok hs"
  shows "parse_text crlf now c (concat (map (\<lambda>h. header_line h @ crlf) hs) @ crlf @ rest) =
    Inr (True, c\<lparr>state := kGotAll,
      request := (request c)\<lparr>headers := fold (\<lambda>(f, v). map_assign f v) hs (headers (request c))\<rparr>\<rparr>, rest)"
  using assms
proof (induction hs arbitrary: c)
  case Nil
  have "line_of crlf (crlf @ rest) = Some ([], rest)" using line_of_crlf [of "[]" rest] by simp
  with Nil show ?case by (subst parse_text.simps) simp
next
  case (Cons h hs)
  obtain f v where h: "h = (f, v)" by (cases h)
  let ?rest = "concat (map (\<lambda>h. header_line h @ crlf) hs) @ crlf @ rest"
  let ?c = "c\<lparr>request := (request c)\<lparr>headers := map_assign f v (headers (request c))\<rparr>\<rparr>"
  have "CHR 0x0D \<notin> set (header_line h)" "CHR '':'' \<in> set (header_line h)"
    using Cons.prems(2) by (auto simp: header_line_def header_ok_def)
  note l = line_of_crlf [OF this(1), of ?rest] and colon = this(2)
  have a: "addHeader (header_line h) (std_find (CHR '':'') (header_line h)) (request c) = request ?c"
    using addHeader_line [of h "request c"] Cons.prems(2) by (simp add: h)
  have "parse_text crlf now c (header_line h @ crlf @ ?rest) = parse_text crlf now ?c ?rest"
    using l colon Cons.prems(1) a by (subst parse_text.simps) simp
  moreover have "state ?c = kExpectHeaders" using Cons.prems(1) by simp
  ultimately show ?case using Cons.IH [of ?c] Cons.prems(2) by (simp add: h)
qed

lemma parse_request_text:
  assumes "m \<noteq> kInvalid" "v \<noteq> kUnknown" "target_ok p q" "list_all header_ok hs"
  shows "parse_text crlf now HttpContext_new (request_text m p q v hs @ rest) =
    Inr (True, \<lparr>state = kGotAll, request = \<lparr>req_method = m, version = v, path = p, query = q,
      receiveTime = now, headers = fold (\<lambda>(f, v). map_assign f v) hs []\<rparr>\<rparr>, rest)"
proof -
  let ?line = "request_line m p q v" and ?rest = "concat (map (\<lambda>h. header_line h @ crlf) hs) @ crlf @ rest"
  have "CHR 0x0D \<notin> set (method_name m)" by (cases m) simp_all
  moreover have "CHR 0x0D \<notin> set (version_name v)" by (cases v) simp_all
  ultimately have cr: "CHR 0x0D \<notin> set ?line" using assms(3) by (simp add: request_line_def target_ok_def)
  have pr: "processRequestLine ?line HttpContext_new =
      Inr (True, HttpContext_new\<lparr>request := (request HttpContext_new)\<lparr>req_method := m, path := p, query := q, version := v\<rparr>\<rparr>)"
    by (rule processRequestLine_ok) (simp_all add: assms HttpContext_new_def HttpRequest_new_def)
  have "request_text m p q v hs @ rest = ?line @ crlf @ ?rest" by (simp add: request_text_def)
  then show ?thesis
    using line_of_crlf [OF cr, of ?rest] pr
    by (subst parse_text.simps)
      (simp add: HttpContext_new_def HttpRequest_new_def got_request_line_def setReceiveTime_def
        parse_headers [OF _ assms(4)])
qed

text \<open>The exact result of a parse of a buffer that starts with a well-formed request.\<close>

definition parsed_request :: "Method \<Rightarrow> string \<Rightarrow> string \<Rightarrow> Version \<Rightarrow> string_map \<Rightarrow> Timestamp \<Rightarrow> HttpRequest" where
  "parsed_request m p q v hs now = \<lparr>req_method = m, version = v, path = p, query = q, receiveTime = now,
     headers = fold (\<lambda>(f, v). map_assign f v) hs []\<rparr>"

lemma parseRequest_request_text:
  assumes "wf_buffer buf" "content buf = request_text m p q v hs @ rest"
    and "m \<noteq> kInvalid" "v \<noteq> kUnknown" "target_ok p q" "list_all header_ok hs"
  shows "\<exists>buf'. parseRequest crlf buf now HttpContext_new =
      Some (Inr (True, \<lparr>state = kGotAll, request = parsed_request m p q v hs now\<rparr>, buf')) \<and>
    wf_buffer buf' \<and> content buf' = rest"
proof -
  have "parsing HttpContext_new" by (simp add: parsing_def HttpContext_new_def)
  moreover have "length crlf = 2" by (simp add: crlf_def)
  ultimately show ?thesis
    using parse_loop_text [OF assms(1), of crlf HttpContext_new now]
      parse_request_text [OF assms(3-6), of now rest] assms(2)
    by (auto simp: parseRequest_def parsed_request_def)
qed

lemma getHeader_parsed_request:
  "getHeader f (parsed_request m p q v hs now) = (case map_of (rev hs) f of None \<Rightarrow> [] | Some x \<Rightarrow> x)"
  using fold_map_assign [of "[]" hs] by (simp add: headers_ok_def getHeader_def parsed_request_def)

section \<open>Properties\<close>

text \<open>
  C9. A well-formed request, whatever follows it in the buffer, is parsed to its method, path,
  query and version, and to the last value of each header; exactly its bytes are taken
  from the buffer, and the parse returns.
\<close>

theorem request_roundtrip:
  assumes "wf_buffer buf" "content buf = request_text m p q v hs @ rest"
    and "m \<noteq> kInvalid" "v \<noteq> kUnknown" "target_ok p q" "list_all header_ok hs"
  shows "\<exists>c buf'. parseRequest crlf buf now HttpContext_new = Some (Inr (True, c, buf')) \<and> gotAll c \<and>
    req_method (request c) = m \<and> path (request c) = p \<and> query (request c) = q \<and> version (request c) = v \<and>
    receiveTime (request c) = now \<and>
    (\<forall>f. getHeader f (request c) = (case map_of (rev hs) f of None \<Rightarrow> [] | Some x \<Rightarrow> x)) \<and>
    wf_buffer buf' \<and> content buf' = rest"
proof -
  from parseRequest_request_text [OF assms, of now] obtain buf' where
    b: "parseRequest crlf buf now HttpContext_new =
      Some (Inr (True, \<lparr>state = kGotAll, request = parsed_request m p q v hs now\<rparr>, buf'))"
      "wf_buffer buf'" "content buf' = rest"
    by auto
  then show ?thesis
    by (simp add: gotAll_def getHeader_parsed_request) (simp add: parsed_request_def)
qed

definition http_buffer :: "string \<Rightarrow> buffer" where
  "http_buffer s = \<lparr>vec = replicate 8 CHR 0x00 @ s, readerIndex = 8, writerIndex = 8 + length s\<rparr>"

lemma http_buffer: "length s < 2 ^ 62 \<Longrightarrow> wf_buffer (http_buffer s) \<and> content (http_buffer s) = s"
  by (simp add: http_buffer_def wf_buffer_def content_def kCheapPrepend_def vec_max_def)

theorem request_roundtrip_witness:
  "\<exists>c buf'. parseRequest crlf (http_buffer (request_text kPost ''/a'' ''?x=1'' kHttp11 [(''Host'', ''g5'')] @ ''GET''))
      (Timestamp_of 7) HttpContext_new = Some (Inr (True, c, buf')) \<and>
    getHeader ''Host'' (request c) = ''g5'' \<and> content buf' = ''GET''"
proof -
  let ?s = "request_text kPost ''/a'' ''?x=1'' kHttp11 [(''Host'', ''g5'')] @ ''GET''"
  have "length ?s < 2 ^ 62"
    by (simp add: request_text_def request_line_def header_line_def crlf_def)
  from request_roundtrip [of "http_buffer ?s", OF conjunct1 [OF http_buffer [OF this]]
      conjunct2 [OF http_buffer [OF this]], of "Timestamp_of 7"]
  show ?thesis by (force simp: target_ok_def header_ok_def isspace_def)
qed

text \<open>
  C10. Text that arrives in pieces is parsed as if it had arrived at once: when a parse stops for want of bytes,
  parsing on after the next piece was appended gives the context, the verdict and the
  remaining bytes, or the fault, that parsing both pieces together gives.
\<close>

theorem parse_in_pieces:
  assumes "wf_buffer buf" "length kCRLF = 2" "parsing c"
    and "parseRequest kCRLF buf now c = Some (Inr (True, c1, buf1))" "\<not> gotAll c1"
    and "writerIndex buf + length piece \<le> vec_max" "writerIndex buf1 + length piece \<le> vec_max"
  shows "\<exists>both rest. buffer_append piece buf = Inr both \<and> buffer_append piece buf1 = Inr rest \<and>
    parse_result (parseRequest kCRLF both now c) = parse_result (parseRequest kCRLF rest now c1)"
proof -
  have wf1: "wf_buffer buf1" using parseRequest_text(2) [OF assms(1-4)] by simp
  from buffer_append_ok [OF assms(1,6)] obtain both where
    b: "buffer_append piece buf = Inr both" "wf_buffer both" "content both = content buf @ piece" by auto
  from buffer_append_ok [OF wf1 assms(7)] obtain rest where
    r: "buffer_append piece buf1 = Inr rest" "wf_buffer rest" "content rest = content buf1 @ piece" by auto
  have p: "parse_text kCRLF now c (content buf) = Inr (True, c1, content buf1)"
    using parseRequest_text(1) [OF assms(1-3), of now] assms(4) by (simp add: parse_result_def)
  from parse_text_append [OF p assms(2,3), of piece] assms(5)
  have "parse_text kCRLF now c (content both) = parse_text kCRLF now c1 (content rest)" "parsing c1"
    by (simp_all add: gotAll_def b(3) r(3))
  with parseRequest_text(1) [OF b(2) assms(2,3), of now] parseRequest_text(1) [OF r(2) assms(2), of c1 now] b r
  show ?thesis by simp
qed

theorem parse_in_pieces_witness:
  "\<exists>both rest. buffer_append ''T'' (http_buffer ''GE'') = Inr both \<and>
    parse_result (parseRequest crlf both (Timestamp_of 7) HttpContext_new) =
    parse_result (parseRequest crlf rest (Timestamp_of 7) HttpContext_new)"
proof -
  let ?b = "http_buffer ''GE''"
  have wf: "wf_buffer ?b" and c: "content ?b = ''GE''" using http_buffer [of "''GE''"] by simp_all
  have k: "length crlf = 2" by (simp add: crlf_def)
  have "line_of crlf (content ?b) = None" unfolding c by code_simp
  from no_line [OF wf k this] have "parseRequest crlf ?b (Timestamp_of 7) HttpContext_new = Some (Inr (True, HttpContext_new, ?b))"
    unfolding parseRequest_def by (subst parse_loop.simps) (simp add: parse_round_def HttpContext_new_def)
  from parse_in_pieces [OF wf k _ this, of "''T''"] show ?thesis
    by (auto simp: parsing_def HttpContext_new_def gotAll_def http_buffer_def vec_max_def)
qed

lemma parse_round_stuck:
  "\<not> parsing c \<Longrightarrow> parse_round k now c buf ok = Inr (c, buf, ok, True)"
  by (simp add: parse_round_def parsing_def)

lemma parse_loop_stuck:
  assumes "parse_loop k now c buf ok = Some r"
  shows "parsing c"
proof (rule parse_loop.raw_induct [where P = "\<lambda>k now c buf ok r. parsing c", OF _ assms])
  fix lp :: "char list \<Rightarrow> Timestamp \<Rightarrow> HttpContext \<Rightarrow> buffer \<Rightarrow> bool \<Rightarrow> (bool \<times> HttpContext \<times> buffer) res option"
    and k now c buf ok r
  assume ih: "\<And>k now c buf ok r. lp k now c buf ok = Some r \<Longrightarrow> parsing c"
    and r: "(case parse_round k now c buf ok of
        Inl e \<Rightarrow> Some (Inl e)
      | Inr (c, buf, ok, hasMore) \<Rightarrow>
          if hasMore then lp k now c buf ok else Some (Inr (ok, c, buf))) = Some r"
  show "parsing c"
  proof (rule ccontr)
    assume n: "\<not> parsing c"
    with r have "lp k now c buf ok = Some r" by (simp add: parse_round_stuck)
    with ih n show False by blast
  qed
qed

text \<open>
  \<open>parseRequest\<close> returns exactly for a context that waits for the request line or for
  headers: it then ends whatever the buffer holds, by an answer or by the fault of an assertion,
  and for a context in \<open>kExpectBody\<close> or \<open>kGotAll\<close> it loops for ever, because the branch
  for the body is empty and the one for a finished request is missing.
\<close>

theorem parseRequest_returns_iff:
  assumes "wf_buffer buf" "length kCRLF = 2"
  shows "parseRequest kCRLF buf now c \<noteq> None \<longleftrightarrow> state c = kExpectRequestLine \<or> state c = kExpectHeaders"
proof
  assume "parseRequest kCRLF buf now c \<noteq> None"
  then show "state c = kExpectRequestLine \<or> state c = kExpectHeaders"
    using parse_loop_stuck by (fastforce simp: parseRequest_def parsing_def)
next
  assume "state c = kExpectRequestLine \<or> state c = kExpectHeaders"
  then have "parsing c" by (simp add: parsing_def)
  with parse_loop_text [OF assms, of c now] show "parseRequest kCRLF buf now c \<noteq> None"
    by (auto simp: parseRequest_def split: sum.splits prod.splits)
qed

theorem parseRequest_returns_iff_witness:
  "parseRequest crlf (http_buffer ''GET'') (Timestamp_of 7) (HttpContext_new\<lparr>state := kGotAll\<rparr>) = None"
proof -
  have "wf_buffer (http_buffer ''GET'')" "length crlf = 2"
    using http_buffer [of "''GET''"] by (simp_all add: crlf_def)
  from parseRequest_returns_iff [OF this, of "Timestamp_of 7" "HttpContext_new\<lparr>state := kGotAll\<rparr>"] show ?thesis by simp
qed


lemma later_request_line_aborts:
  assumes "line_of crlf text = Some (line, rest)" "state c = kExpectRequestLine"
    and "req_method (request c) \<noteq> kInvalid" "CHR '' '' \<in> set line"
  shows "parse_text crlf now c text = Inl AssertionFailed"
  using assms
  by (subst parse_text.simps)
    (simp add: processRequestLine_def setMethod_def cassert_def std_find_mem Let_def)

lemma request_line_method:
  assumes "m \<noteq> kInvalid" "processRequestLine (method_name m @ '' '' @ tail) c = Inr (ok, c')"
  shows "req_method (request c') = m \<and> state c' = state c"
proof -
  have "CHR '' '' \<notin> set (method_name m)" by (cases m) simp_all
  then have sp: "std_find (CHR '' '') (method_name m @ CHR '' '' # tail) = length (method_name m)"
    by (rule std_find_append)
  have "req_method (request c) = kInvalid"
    using assms(2) by (auto simp: processRequestLine_def sp setMethod_def cassert_def Let_def split: if_splits)
  from setMethod_name [OF assms(1) this] assms(2) show ?thesis
    by (auto simp: processRequestLine_def sp Let_def setQuery_def setPath_def setVersion_def split: if_splits)
qed

text \<open>
  A request line that is refused after its method leaves its bytes in the buffer and its method in
  the request: whatever arrives next on that connection, the next parse fails the assertion of
  \<open>setMethod\<close>, so that a remote client can abort the server.
\<close>

theorem refused_line_aborts_next:
  assumes "wf_buffer buf" "state c = kExpectRequestLine" "m \<noteq> kInvalid" "CHR 0x0D \<notin> set tail"
    and "content buf = method_name m @ '' '' @ tail @ crlf @ rest"
    and "processRequestLine (method_name m @ '' '' @ tail) c = Inr (False, c1)"
    and "writerIndex buf + length piece \<le> vec_max"
  shows "parseRequest crlf buf now c = Some (Inr (False, c1, buf)) \<and> req_method (request c1) = m \<and>
    (\<exists>buf2. buffer_append piece buf = Inr buf2 \<and> content buf2 = content buf @ piece \<and>
      parseRequest crlf buf2 later c1 = Some (Inl AssertionFailed))"
proof -
  let ?line = "method_name m @ '' '' @ tail"
  have k: "length crlf = 2" by (simp add: crlf_def)
  have "CHR 0x0D \<notin> set ?line" using assms(4) by (cases m) simp_all
  then have l: "line_of crlf (content buf @ x) = Some (?line, rest @ x)" for x
    using line_of_crlf [of ?line "rest @ x"] by (simp add: assms(5))
  note m = request_line_method [OF assms(3,6)]
  from find_line [OF assms(1) k] l [of "[]"] obtain i where
    "findCRLF crlf buf = Inr (Some i)" "vec_load (peek buf) (i - peek buf) (vec buf) = Inr ?line" by auto
  then have 1: "parseRequest crlf buf now c = Some (Inr (False, c1, buf))"
    unfolding parseRequest_def using assms(2,6) by (subst parse_loop.simps) (simp add: parse_round_def)
  from buffer_append_ok [OF assms(1,7)] obtain buf2 where
    b2: "buffer_append piece buf = Inr buf2" "wf_buffer buf2" "content buf2 = content buf @ piece" by auto
  have "parse_text crlf later c1 (content buf2) = Inl AssertionFailed"
    using later_request_line_aborts [OF l [of piece]] m assms(2,3) b2(3) by simp
  with parse_loop_text [OF b2(2) k, of c1 later] m assms(2)
  have "parseRequest crlf buf2 later c1 = Some (Inl AssertionFailed)"
    by (simp add: parseRequest_def parsing_def)
  with 1 m b2 show ?thesis by blast
qed

theorem refused_line_aborts_next_witness:
  "\<exists>c1 buf2. parseRequest crlf (http_buffer (''GET / HTTP/2.0'' @ crlf)) (Timestamp_of 7) HttpContext_new =
      Some (Inr (False, c1, http_buffer (''GET / HTTP/2.0'' @ crlf))) \<and>
    buffer_append ''x'' (http_buffer (''GET / HTTP/2.0'' @ crlf)) = Inr buf2 \<and>
    parseRequest crlf buf2 (Timestamp_of 7) c1 = Some (Inl AssertionFailed)"
proof -
  let ?s = "''GET / HTTP/2.0'' @ crlf"
  let ?c1 = "HttpContext_new\<lparr>request := HttpRequest_new\<lparr>req_method := kGet, path := ''/''\<rparr>\<rparr>"
  have b: "wf_buffer (http_buffer ?s)" "content (http_buffer ?s) = ?s" "writerIndex (http_buffer ?s) = 24"
    using http_buffer [of ?s] by (simp_all add: crlf_def http_buffer_def)
  have "processRequestLine ''GET / HTTP/2.0'' HttpContext_new = Inr (False, ?c1)" by code_simp
  with refused_line_aborts_next [OF b(1), of HttpContext_new kGet "''/ HTTP/2.0''" "[]" ?c1 "''x''" "Timestamp_of 7" "Timestamp_of 7"] b(2,3)
  show ?thesis by (auto simp: HttpContext_new_def vec_max_def)
qed

end
