(* ===== verification/HttpServer.thy ===== *)
theory HttpServer
  imports HttpContext
begin

text \<open>
  \<open>net::HttpResponse\<close> and \<open>net::HttpServer\<close> (src/net/http/HttpResponse.h,
  HttpResponse.cc, HttpServer.cc). \<open>HttpServer\<close> relies on operations of
  \<open>TcpConnection\<close> that the class does not have (a context, \<open>connected\<close>,
  \<open>shutdown\<close>): the calls a handler makes of them are listed, in order, as values. The user's
  \<open>HttpCallback\<close> is a parameter, a function from the request and the response it is given to the
  response it leaves.
\<close>

section \<open>HttpResponse\<close>

datatype HttpStatusCode =
  k_Unknown | k200Ok | k301MovedPermanently | k400BadRequest | k404NotFound

fun status_code :: "HttpStatusCode \<Rightarrow> int" where
  "status_code k_Unknown = 0"
| "status_code k200Ok = 200"
| "status_code k301MovedPermanently = 301"
| "status_code k400BadRequest = 400"
| "status_code k404NotFound = 404"

record HttpResponse =
  resp_headers :: string_map
  statusCode :: HttpStatusCode
  statusMessage :: string
  closeConnection :: bool
  body :: string

definition HttpResponse_new :: "bool \<Rightarrow> HttpResponse" where
  "HttpResponse_new close =
     \<lparr>resp_headers = [], statusCode = k_Unknown, statusMessage = [], closeConnection = close, body = []\<rparr>"

definition setStatusCode :: "HttpStatusCode \<Rightarrow> HttpResponse \<Rightarrow> HttpResponse" where
  "setStatusCode code r = r\<lparr>statusCode := code\<rparr>"

definition setStatusMessage :: "string \<Rightarrow> HttpResponse \<Rightarrow> HttpResponse" where
  "setStatusMessage message r = r\<lparr>statusMessage := message\<rparr>"

definition setCloseConnection :: "bool \<Rightarrow> HttpResponse \<Rightarrow> HttpResponse" where
  "setCloseConnection on r = r\<lparr>closeConnection := on\<rparr>"

definition resp_addHeader :: "string \<Rightarrow> string \<Rightarrow> HttpResponse \<Rightarrow> HttpResponse" where
  "resp_addHeader key value r = r\<lparr>resp_headers := map_assign key value (resp_headers r)\<rparr>"

definition setContentType :: "string \<Rightarrow> HttpResponse \<Rightarrow> HttpResponse" where
  "setContentType contentType r = resp_addHeader ''Content-Type'' contentType r"

definition setBody :: "string \<Rightarrow> HttpResponse \<Rightarrow> HttpResponse" where
  "setBody b r = r\<lparr>body := b\<rparr>"

fun appends :: "string list \<Rightarrow> buffer \<Rightarrow> buffer res" where
  "appends [] output' = Inr output'"
| "appends (x # xs) output' = bind_r (buffer_append x output') (appends xs)"

fun append_headers :: "string_map \<Rightarrow> buffer \<Rightarrow> buffer res" where
  "append_headers [] output' = Inr output'"
| "append_headers (header # hs) output' =
     bind_r (appends [fst header, '': '', snd header, crlf] output') (append_headers hs)"

definition appendToBuffer :: "HttpResponse \<Rightarrow> buffer \<Rightarrow> buffer res" where
  "appendToBuffer r output' =
     bind_r (appends [snprintf_to 32 (''HTTP/1.1 '' @ dec_int (status_code (statusCode r)) @ '' ''),
                      statusMessage r, crlf] output') (\<lambda>output'.
     bind_r (if closeConnection r then appends [''Connection: close'' @ crlf] output'
             else appends [snprintf_to 32 (''Content-Length: '' @ dec_nat (length (body r)) @ crlf),
                           ''Connection: Keep-Alive'' @ crlf] output') (\<lambda>output'.
     bind_r (append_headers (resp_headers r) output') (\<lambda>output'.
       appends [crlf, body r] output')))"

section \<open>HttpServer\<close>

type_synonym HttpCallback = "HttpRequest \<Rightarrow> HttpResponse \<Rightarrow> HttpResponse"

datatype conn_call = Send string | Shutdown

definition detailHttpCallback :: HttpCallback where
  "detailHttpCallback req resp =
     setCloseConnection True (setStatusMessage ''Not Found'' (setStatusCode k404NotFound resp))"

text \<open>The context of a connection: what \<open>setContext\<close> has put into its \<open>boost::any\<close>.\<close>

definition onConnection :: "bool \<Rightarrow> HttpContext option \<Rightarrow> HttpContext option" where
  "onConnection up context = (if up then Some HttpContext_new else context)"

definition onRequest :: "HttpCallback \<Rightarrow> HttpRequest \<Rightarrow> conn_call list res" where
  "onRequest httpCallback req =
     (let connection = getHeader ''Connection'' req;
          close = (connection = ''close'' \<or> version req = kHttp10 \<and> connection \<noteq> ''Keep-Alive'');
          response = httpCallback req (HttpResponse_new close)
      in bind_r (new_buffer kInitialSize) (\<lambda>buf.
         bind_r (appendToBuffer response buf) (\<lambda>buf.
           Inr (Send (content buf) # (if closeConnection response then [Shutdown] else [])))))"

definition onMessage ::
  "string \<Rightarrow> HttpCallback \<Rightarrow> Timestamp \<Rightarrow> HttpContext option \<Rightarrow> buffer \<Rightarrow>
    (conn_call list \<times> HttpContext option \<times> buffer) res option" where
  "onMessage kCRLF httpCallback now context buf =
     (case context of
        None \<Rightarrow> Some (Inl Undefined)
      | Some context \<Rightarrow>
          (case parseRequest kCRLF buf now context of
             None \<Rightarrow> None
           | Some (Inl e) \<Rightarrow> Some (Inl e)
           | Some (Inr (ok, context, buf)) \<Rightarrow>
               let refused = (if ok then [] else [Send (''HTTP/1.1 400 Bad Request'' @ crlf @ crlf), Shutdown])
               in Some (if gotAll context
                        then bind_r (onRequest httpCallback (request context)) (\<lambda>answer.
                               Inr (refused @ answer, Some (HttpContext_reset context), buf))
                        else Inr (refused, Some context, buf))))"

section \<open>The text of a response\<close>

lemma appends_append: "appends (xs @ ys) b = bind_r (appends xs b) (appends ys)"
  by (induction xs arbitrary: b) (simp_all add: bind_r_def split: sum.split)

lemma appends_ok:
  assumes "wf_buffer b" "writerIndex b + length (concat xs) \<le> vec_max"
  shows "\<exists>b'. appends xs b = Inr b' \<and> wf_buffer b' \<and> content b' = content b @ concat xs"
  using assms
proof (induction xs arbitrary: b)
  case (Cons x xs)
  then have "writerIndex b + length x \<le> vec_max" by simp
  from buffer_append_ok [OF Cons.prems(1) this] obtain b1 where
    b1: "buffer_append x b = Inr b1" "wf_buffer b1" "content b1 = content b @ x"
      "writerIndex b1 \<le> writerIndex b + length x" by auto
  with Cons.IH [of b1] Cons.prems(2) show ?case by auto
qed simp

lemma append_headers_appends:
  "append_headers hs b = appends (concat (map (\<lambda>h. [fst h, '': '', snd h, crlf]) hs)) b"
proof (induction hs arbitrary: b)
  case (Cons h hs)
  have "append_headers (h # hs) b = bind_r (appends [fst h, '': '', snd h, crlf] b)
      (appends (concat (map (\<lambda>h. [fst h, '': '', snd h, crlf]) hs)))"
    using Cons by (simp add: bind_r_def split: sum.split)
  also have "\<dots> = appends ([fst h, '': '', snd h, crlf] @ concat (map (\<lambda>h. [fst h, '': '', snd h, crlf]) hs)) b"
    by (simp only: appends_append)
  finally show ?case by simp
qed simp

definition connection_headers :: "HttpResponse \<Rightarrow> string_map" where
  "connection_headers r =
     (if closeConnection r then [(''Connection'', ''close'')]
      else [(''Content-Length'', dec_nat (length (body r))), (''Connection'', ''Keep-Alive'')])"

definition status_line :: "HttpResponse \<Rightarrow> string" where
  "status_line r = ''HTTP/1.1 '' @ dec_int (status_code (statusCode r)) @ '' '' @ statusMessage r"

definition header_block :: "string_map \<Rightarrow> string" where
  "header_block hs = concat (map (\<lambda>h. header_line h @ crlf) hs) @ crlf"

definition response_text :: "HttpResponse \<Rightarrow> string" where
  "response_text r = status_line r @ crlf @ header_block (connection_headers r @ resp_headers r) @ body r"

text \<open>
  The two calls of \<open>snprintf\<close> have room for their text: a status code has three digits at most, and
  a content length of 13 digits fits.
\<close>

lemma status_fits: "length (dec_int (status_code c)) \<le> 3"
  using length_dec_nat_le [of "nat (status_code c)" 3] by (cases c) (simp_all add: dec_int_def)

lemma appendToBuffer_ok:
  assumes "wf_buffer b" "writerIndex b + length (response_text r) \<le> vec_max" "length (body r) < 10 ^ 13"
  shows "\<exists>b'. appendToBuffer r b = Inr b' \<and> wf_buffer b' \<and> content b' = content b @ response_text r"
proof -
  have 1: "snprintf_to 32 (''HTTP/1.1 '' @ dec_int (status_code (statusCode r)) @ '' '') =
      ''HTTP/1.1 '' @ dec_int (status_code (statusCode r)) @ '' ''"
    using status_fits [of "statusCode r"] by (simp add: snprintf_to_def)
  have 2: "snprintf_to 32 (''Content-Length: '' @ dec_nat (length (body r)) @ crlf) =
      ''Content-Length: '' @ dec_nat (length (body r)) @ crlf"
    using length_dec_nat_le [OF assms(3)] by (simp add: snprintf_to_def crlf_def)
  let ?conn = "if closeConnection r then [''Connection: close'' @ crlf]
    else [''Content-Length: '' @ dec_nat (length (body r)) @ crlf, ''Connection: Keep-Alive'' @ crlf]"
  let ?all = "[''HTTP/1.1 '' @ dec_int (status_code (statusCode r)) @ '' '', statusMessage r, crlf] @ ?conn @
    concat (map (\<lambda>h. [fst h, '': '', snd h, crlf]) (resp_headers r)) @ [crlf, body r]"
  have "appendToBuffer r b = appends ?all b"
    unfolding appendToBuffer_def 1 2 appends_append append_headers_appends
    by (simp only: if_distrib [of "\<lambda>x. appends x _"] bind_r_assoc split: if_split)
  moreover have "concat ?all = response_text r"
  proof -
    have "concat (concat (map (\<lambda>h. [fst h, '': '', snd h, crlf]) hs)) =
        concat (map (\<lambda>h. header_line h @ crlf) hs)" for hs
      by (induction hs) (simp_all add: header_line_def)
    then show ?thesis
      by (simp add: response_text_def status_line_def header_block_def connection_headers_def header_line_def)
  qed
  ultimately show ?thesis using appends_ok [OF assms(1), of ?all] assms(2) by simp
qed


section \<open>Properties\<close>

text \<open>
  C31. A response is framed so that its receiver can read it: the written text is the status line, then
  headers from which the parser of \<open>HttpContext\<close> reads exactly the last value of every header
  that was set, and then the body; on a connection that stays open
  \<open>Content-Length\<close>, unless the user has set it, is the decimal length of that body.
\<close>

theorem response_roundtrip:
  assumes "wf_buffer b" "content b = []" "writerIndex b + length (response_text r) \<le> vec_max"
    and "length (body r) < 10 ^ 13"
    and "CHR 0x0D \<notin> set (statusMessage r)" "list_all header_ok (resp_headers r)"
    and "state c = kExpectHeaders" "headers (request c) = []"
  shows "\<exists>b' rest c'. appendToBuffer r b = Inr b' \<and>
    line_of crlf (content b') = Some (status_line r, rest) \<and>
    parse_text crlf now c rest = Inr (True, c', body r) \<and> gotAll c' \<and>
    (\<forall>f v. map_of (rev (resp_headers r)) f = Some v \<longrightarrow> getHeader f (request c') = v) \<and>
    (\<not> closeConnection r \<and> ''Content-Length'' \<notin> fst ` set (resp_headers r) \<longrightarrow>
       nat_of_dec (getHeader ''Content-Length'' (request c')) = length (body r))"
proof -
  from appendToBuffer_ok [OF assms(1,3,4)] assms(2) obtain b' where
    b': "appendToBuffer r b = Inr b'" "content b' = response_text r" by auto
  let ?hs = "connection_headers r @ resp_headers r"
  let ?c = "c\<lparr>state := kGotAll, request := (request c)\<lparr>headers := fold (\<lambda>(f, v). map_assign f v) ?hs []\<rparr>\<rparr>"
  have "CHR 0x0D \<notin> set (dec_nat n)" for n using dec_nat_digits [of "CHR 0x0D" n] by auto
  moreover have "CHR 0x0D \<notin> set (status_line r)"
    using assms(5) \<open>\<And>n. CHR 0x0D \<notin> set (dec_nat n)\<close> by (auto simp: status_line_def dec_int_def)
  moreover have "\<not> isspace (hd (dec_nat n))" "\<not> isspace (last (dec_nat n))" for n
    using dec_nat_digits [of "hd (dec_nat n)" n] dec_nat_digits [of "last (dec_nat n)" n]
    by (auto simp: isspace_def)
  ultimately have ok: "list_all header_ok ?hs" and
    l: "line_of crlf (content b') = Some (status_line r, header_block ?hs @ body r)"
    using assms(6) line_of_crlf [of "status_line r" "header_block ?hs @ body r"]
    by (simp_all add: connection_headers_def header_ok_def isspace_def b'(2) response_text_def)
  from parse_headers [OF assms(7) ok, of now "body r"]
  have p: "parse_text crlf now c (header_block ?hs @ body r) = Inr (True, ?c, body r)"
    by (simp add: header_block_def assms(8))
  have m: "map_of (fold (\<lambda>(f, v). map_assign f v) ?hs []) = map_of (rev ?hs)"
    using fold_map_assign [of "[]" ?hs] by (simp add: headers_ok_def)
  have h: "getHeader f (request ?c) = (case map_of (rev ?hs) f of None \<Rightarrow> [] | Some x \<Rightarrow> x)" for f
    using m by (simp add: getHeader_def)
  have "getHeader f (request ?c) = v" if "map_of (rev (resp_headers r)) f = Some v" for f v
    unfolding h using that by (simp add: map_of_append)
  moreover have "nat_of_dec (getHeader ''Content-Length'' (request ?c)) = length (body r)"
    if "\<not> closeConnection r" "''Content-Length'' \<notin> fst ` set (resp_headers r)"
  proof -
    have "map_of (rev (resp_headers r)) ''Content-Length'' = None"
      using that(2) by (simp add: map_of_eq_None_iff)
    then have "map_of (rev ?hs) ''Content-Length'' = Some (dec_nat (length (body r)))"
      using that(1) by (simp add: map_of_append connection_headers_def map_add_def)
    then show ?thesis unfolding h by simp
  qed
  moreover have "gotAll ?c" by (simp add: gotAll_def)
  ultimately show ?thesis using b'(1) l p by blast
qed


theorem response_roundtrip_witness:
  "\<exists>b' rest c'. appendToBuffer (setBody ''hi'' (HttpResponse_new False)) (http_buffer []) = Inr b' \<and>
    parse_text crlf (Timestamp_of 7) (HttpContext_new\<lparr>state := kExpectHeaders\<rparr>) rest = Inr (True, c', ''hi'') \<and>
    nat_of_dec (getHeader ''Content-Length'' (request c')) = 2"
proof -
  define r where "r = setBody ''hi'' (HttpResponse_new False)"
  define c where "c = HttpContext_new\<lparr>state := kExpectHeaders\<rparr>"
  have b: "wf_buffer (http_buffer [])" "content (http_buffer []) = []"
    using http_buffer [of "[]"] by simp_all
  have "length (response_text r) < 100" unfolding r_def by code_simp
  then have 1: "writerIndex (http_buffer []) + length (response_text r) \<le> vec_max"
    by (simp add: http_buffer_def vec_max_def)
  have f: "body r = ''hi''" "statusMessage r = []" "resp_headers r = []" "\<not> closeConnection r"
    by (simp_all add: r_def setBody_def HttpResponse_new_def)
  have 2: "length (body r) < 10 ^ 13" "CHR 0x0D \<notin> set (statusMessage r)" "list_all header_ok (resp_headers r)"
    and n: "''Content-Length'' \<notin> fst ` set (resp_headers r)" by (simp_all add: f)
  have 3: "state c = kExpectHeaders" "headers (request c) = []"
    by (simp_all add: c_def HttpContext_new_def HttpRequest_new_def)
  from response_roundtrip [OF b 1 2 3, of "Timestamp_of 7"] obtain b' rest c' where
    "appendToBuffer r (http_buffer []) = Inr b'" "parse_text crlf (Timestamp_of 7) c rest = Inr (True, c', body r)"
    "nat_of_dec (getHeader ''Content-Length'' (request c')) = length (body r)"
    using f(4) n by blast
  then show ?thesis unfolding r_def [symmetric] c_def [symmetric] f(1)
    by (auto simp: numeral_2_eq_2)
qed

definition wants_close :: "HttpRequest \<Rightarrow> bool" where
  "wants_close req \<longleftrightarrow> getHeader ''Connection'' req = ''close'' \<or>
     version req = kHttp10 \<and> getHeader ''Connection'' req \<noteq> ''Keep-Alive''"

lemma onRequest_ok:
  assumes "length (response_text (cb req (HttpResponse_new (wants_close req)))) + 8 \<le> vec_max"
    and "length (body (cb req (HttpResponse_new (wants_close req)))) < 10 ^ 13"
  shows "onRequest cb req = (let r = cb req (HttpResponse_new (wants_close req)) in
    Inr (Send (response_text r) # (if closeConnection r then [Shutdown] else [])))"
proof -
  have "kInitialSize + 8 \<le> vec_max" by (simp add: kInitialSize_def vec_max_def)
  from new_buffer_ok [OF this] obtain b where
    b: "new_buffer kInitialSize = Inr b" "wf_buffer b" "content b = []" "writerIndex b = 8" by auto
  let ?r = "cb req (HttpResponse_new (wants_close req))"
  from appendToBuffer_ok [OF b(2), of ?r] assms b obtain b' where
    "appendToBuffer ?r b = Inr b'" "content b' = response_text ?r" by auto
  with b(1) show ?thesis by (simp add: onRequest_def Let_def flip: wants_close_def)
qed

text \<open>
  \<open>onMessage\<close> answers exactly the first well-formed request in the buffer: the callback's response to
  the parsed request goes out once, the connection is shut down exactly when that response says
  so, and the context is ready for the next request. Whatever follows that request, another
  complete one included, stays unanswered in the buffer until the peer sends more: nothing
  parses again.
\<close>

theorem one_answer_per_message:
  assumes "wf_buffer buf" "content buf = request_text m p q v hs @ rest"
    and "m \<noteq> kInvalid" "v \<noteq> kUnknown" "target_ok p q" "list_all header_ok hs"
    and "r = cb (parsed_request m p q v hs now) (HttpResponse_new (wants_close (parsed_request m p q v hs now)))"
    and "length (response_text r) + 8 \<le> vec_max" "length (body r) < 10 ^ 13"
  shows "\<exists>buf'. onMessage crlf cb now (Some HttpContext_new) buf =
      Some (Inr (Send (response_text r) # (if closeConnection r then [Shutdown] else []), Some HttpContext_new, buf')) \<and>
    wf_buffer buf' \<and> content buf' = rest"
proof -
  from parseRequest_request_text [OF assms(1-6), of now] obtain buf' where
    p: "parseRequest crlf buf now HttpContext_new =
      Some (Inr (True, \<lparr>state = kGotAll, request = parsed_request m p q v hs now\<rparr>, buf'))"
    and b: "wf_buffer buf'" "content buf' = rest" by auto
  show ?thesis
    using onRequest_ok [of cb "parsed_request m p q v hs now"] assms(7-9) b
    by (simp add: onMessage_def p gotAll_def Let_def HttpContext_reset_def HttpRequest_swap_def)
      (simp add: HttpContext_new_def)
qed

theorem one_answer_per_message_witness:
  "\<exists>buf'. onMessage crlf detailHttpCallback (Timestamp_of 7) (Some HttpContext_new)
      (http_buffer (request_text kGet ''/a'' [] kHttp11 [] @ request_text kGet ''/b'' [] kHttp11 [])) =
      Some (Inr ([Send (''HTTP/1.1 404 Not Found'' @ crlf @ ''Connection: close'' @ crlf @ crlf), Shutdown],
        Some HttpContext_new, buf')) \<and>
    content buf' = request_text kGet ''/b'' [] kHttp11 []"
proof -
  let ?s = "request_text kGet ''/a'' [] kHttp11 [] @ request_text kGet ''/b'' [] kHttp11 []"
  let ?q = "parsed_request kGet ''/a'' [] kHttp11 [] (Timestamp_of 7)"
  define r where "r = detailHttpCallback ?q (HttpResponse_new (wants_close ?q))"
  have "length ?s < 2 ^ 62" by (simp add: request_text_def request_line_def crlf_def)
  note b = conjunct1 [OF http_buffer [OF this]] conjunct2 [OF http_buffer [OF this]]
  have t: "response_text r = ''HTTP/1.1 404 Not Found'' @ crlf @ ''Connection: close'' @ crlf @ crlf"
    and c: "closeConnection r" "body r = []"
    unfolding r_def by code_simp+
  have "length (response_text r) + 8 \<le> vec_max" "length (body r) < 10 ^ 13"
    by (simp_all add: t c vec_max_def crlf_def)
  moreover have "target_ok ''/a'' []" by (simp add: target_ok_def)
  ultimately obtain buf' where
    "onMessage crlf detailHttpCallback (Timestamp_of 7) (Some HttpContext_new) (http_buffer ?s) =
      Some (Inr (Send (response_text r) # (if closeConnection r then [Shutdown] else []), Some HttpContext_new, buf'))"
    "content buf' = request_text kGet ''/b'' [] kHttp11 []"
    using one_answer_per_message [OF b, of r detailHttpCallback "Timestamp_of 7"] r_def by auto
  then show ?thesis using c(1) by (simp only: t) auto
qed

end
