(* ===== verification/Sync.thy ===== *)
theory Sync
  imports Prelude
begin

text \<open>
  \<open>base::MutexLock\<close>, \<open>MutexLockGuard\<close>, \<open>Condition\<close> and
  \<open>AtomicInteger\<close> (src/base/Mutex.h, Condition.h, Condition.cc, Atomic.h). A member function is the
  list of its steps, each of them atomic: the calls of pthreads and the writes of
  \<open>holder_\<close>; threads interleave between any two of them. A thread that a
  condition has put to sleep may wake at any time, as POSIX allows. The kernel's mutex is the
  thread that owns it; a thread is its \<open>tid\<close>, never 0.
\<close>

section \<open>MutexLock and Condition\<close>

record MutexLock =
  owner :: "int option"
  holder :: int

definition MutexLock_new :: MutexLock where
  "MutexLock_new = \<lparr>owner = None, holder = 0\<rparr>"

datatype micro =
    Pthread_lock | Pthread_unlock
  | Assign_holder | Unassign_holder
  | Cond_release | Cond_reacquire
  | Cond_signal | Cond_broadcast
  | Assert_locked

definition assignHolder :: "int \<Rightarrow> MutexLock \<Rightarrow> MutexLock" where
  "assignHolder tid m = m\<lparr>holder := tid\<rparr>"

definition unassignHolder :: "MutexLock \<Rightarrow> MutexLock" where
  "unassignHolder m = m\<lparr>holder := 0\<rparr>"

definition isLockedByThisThread :: "int \<Rightarrow> MutexLock \<Rightarrow> bool" where
  "isLockedByThisThread tid m \<longleftrightarrow> holder m = tid"

definition assertLocked :: "int \<Rightarrow> MutexLock \<Rightarrow> MutexLock res" where
  "assertLocked tid m = cassert (isLockedByThisThread tid m) (Inr m)"

definition MutexLock_delete :: "MutexLock \<Rightarrow> unit res" where
  "MutexLock_delete m = cassert (holder m = 0) (Inr ())"

text \<open>\<open>None\<close>: the step has to wait. Releasing a mutex one does not own is undefined.\<close>

definition acquire :: "int \<Rightarrow> MutexLock \<Rightarrow> MutexLock res option" where
  "acquire tid m = (if owner m = None then Some (Inr (m\<lparr>owner := Some tid\<rparr>)) else None)"

definition release :: "int \<Rightarrow> MutexLock \<Rightarrow> MutexLock res" where
  "release tid m = (if owner m = Some tid then Inr (m\<lparr>owner := None\<rparr>) else Inl Undefined)"

fun exec_micro :: "int \<Rightarrow> micro \<Rightarrow> MutexLock \<Rightarrow> MutexLock res option" where
  "exec_micro tid Pthread_lock m = acquire tid m"
| "exec_micro tid Pthread_unlock m = Some (release tid m)"
| "exec_micro tid Assign_holder m = Some (Inr (assignHolder tid m))"
| "exec_micro tid Unassign_holder m = Some (Inr (unassignHolder m))"
| "exec_micro tid Cond_release m = Some (release tid m)"
| "exec_micro tid Cond_reacquire m = acquire tid m"
| "exec_micro tid Cond_signal m = Some (Inr m)"
| "exec_micro tid Cond_broadcast m = Some (Inr m)"
| "exec_micro tid Assert_locked m = Some (assertLocked tid m)"

definition lock :: "micro list" where
  "lock = [Pthread_lock, Assign_holder]"

definition unlock :: "micro list" where
  "unlock = [Unassign_holder, Pthread_unlock]"

text \<open>The constructor and the destructor of a guard around what its scope does.\<close>

definition with_guard :: "micro list \<Rightarrow> micro list" where
  "with_guard body = lock @ body @ unlock"

definition UnassignGuard :: "micro list \<Rightarrow> micro list" where
  "UnassignGuard body = [Unassign_holder] @ body @ [Assign_holder]"

definition wait :: "micro list" where
  "wait = UnassignGuard [Cond_release, Cond_reacquire]"

definition notify :: "micro list" where
  "notify = [Cond_signal]"

definition notifyAll :: "micro list" where
  "notifyAll = [Cond_broadcast]"

text \<open>
  The deadline \<open>waitForSeconds\<close> computes from the clock, and what \<open>pthread_cond_timedwait\<close>
  makes of it: a nanosecond part out of range is refused at once, with \<open>EINVAL\<close>. The
  result of an accepted wait is an argument.
\<close>

definition kNanoSecondsPerSecond :: int where
  "kNanoSecondsPerSecond = 1000000000"

definition wait_deadline :: "double \<Rightarrow> timespec \<Rightarrow> timespec" where
  "wait_deadline seconds abstime =
     (let nanoseconds = wrap64 (trunc_double (seconds * of_int kNanoSecondsPerSecond));
          abstime = abstime\<lparr>tv_sec := add64 (tv_sec abstime)
            (div64 (add64 (tv_nsec abstime) nanoseconds) kNanoSecondsPerSecond)\<rparr>
      in abstime\<lparr>tv_nsec := add64 (tv_nsec abstime)
            (mod64 (add64 (tv_nsec abstime) nanoseconds) kNanoSecondsPerSecond)\<rparr>)"

datatype timedwait = Timed_out | Signalled | Einval

definition timedwait :: "timedwait \<Rightarrow> timespec \<Rightarrow> timedwait" where
  "timedwait outcome abstime =
     (if 0 \<le> tv_nsec abstime \<and> tv_nsec abstime < kNanoSecondsPerSecond then outcome else Einval)"

definition waitForSeconds :: "double \<Rightarrow> timespec \<Rightarrow> timedwait \<Rightarrow> bool" where
  "waitForSeconds seconds clock outcome \<longleftrightarrow> timedwait outcome (wait_deadline seconds clock) = Timed_out"

section \<open>AtomicInteger\<close>

text \<open>
  \<open>AtomicInteger<int32_t>\<close>: the object is its value; each operation has one atomic access, so that
  it is a function of the value at that access. The second component is the result.
\<close>

definition atomic_get :: "int \<Rightarrow> int" where
  "atomic_get value = value"

definition getAndAdd :: "int \<Rightarrow> int \<Rightarrow> int \<times> int" where
  "getAndAdd x value = (add32 value x, value)"

definition addAndGet :: "int \<Rightarrow> int \<Rightarrow> int \<times> int" where
  "addAndGet x value = (let (value, r) = getAndAdd x value in (value, add32 r x))"

definition incrementAndGet :: "int \<Rightarrow> int \<times> int" where
  "incrementAndGet value = addAndGet 1 value"

definition decrementAndGet :: "int \<Rightarrow> int \<times> int" where
  "decrementAndGet value = addAndGet (-1) value"

section \<open>Threads that use one mutex\<close>

record Threads =
  mutex :: MutexLock
  progs :: "int \<Rightarrow> micro list"

inductive mstep :: "Threads \<Rightarrow> Threads \<Rightarrow> bool" where
  "progs s tid = a # as \<Longrightarrow> exec_micro tid a (mutex s) = Some (Inr m) \<Longrightarrow>
     mstep s (s\<lparr>mutex := m, progs := (progs s)(tid := as)\<rparr>)"

inductive mreach :: "(int \<Rightarrow> micro list) \<Rightarrow> Threads \<Rightarrow> bool" for start where
  start: "mreach start \<lparr>mutex = MutexLock_new, progs = start\<rparr>"
| step: "mreach start s \<Longrightarrow> mstep s s' \<Longrightarrow> mreach start s'"

inductive_cases mstepE: "mstep s s'"

text \<open>
  Where a thread is, and which step takes it where: the brackets of the code as a small automaton.
  What is left of a program is accepted from the thread's place.
\<close>

datatype place = Out | Entering | In | Leaving | Asleep

fun next_place :: "place \<Rightarrow> micro \<Rightarrow> place option" where
  "next_place Out a = (if a = Pthread_lock then Some Entering else None)"
| "next_place Entering a = (if a = Assign_holder then Some In else None)"
| "next_place In a =
     (if a = Unassign_holder then Some Leaving
      else if a \<in> {Cond_signal, Cond_broadcast, Assert_locked} then Some In else None)"
| "next_place Leaving a =
     (if a = Pthread_unlock then Some Out else if a = Cond_release then Some Asleep else None)"
| "next_place Asleep a = (if a = Cond_reacquire then Some Entering else None)"

fun accepts :: "place \<Rightarrow> micro list \<Rightarrow> bool" where
  "accepts p [] \<longleftrightarrow> p = Out"
| "accepts p (a # as) \<longleftrightarrow> (case next_place p a of None \<Rightarrow> False | Some q \<Rightarrow> accepts q as)"

abbreviation inside :: "micro list \<Rightarrow> bool" where
  "inside as \<equiv> accepts In as"

definition mutex_inv :: "Threads \<Rightarrow> bool" where
  "mutex_inv s \<longleftrightarrow>
     (\<forall>tid. if owner (mutex s) = Some tid
        then holder (mutex s) = tid \<and> accepts In (progs s tid) \<or>
             holder (mutex s) = 0 \<and> (accepts Entering (progs s tid) \<or> accepts Leaving (progs s tid))
        else accepts Out (progs s tid) \<or> accepts Asleep (progs s tid)) \<and>
     (owner (mutex s) = None \<longrightarrow> holder (mutex s) = 0)"

lemma mutex_inv_owner:
  assumes "mutex_inv s" "owner (mutex s) = Some t"
  shows "holder (mutex s) = t \<and> accepts In (progs s t) \<or>
    holder (mutex s) = 0 \<and> (accepts Entering (progs s t) \<or> accepts Leaving (progs s t))"
proof -
  from assms(1) have "if owner (mutex s) = Some t
        then holder (mutex s) = t \<and> accepts In (progs s t) \<or>
             holder (mutex s) = 0 \<and> (accepts Entering (progs s t) \<or> accepts Leaving (progs s t))
        else accepts Out (progs s t) \<or> accepts Asleep (progs s t)"
    unfolding mutex_inv_def by blast
  then show ?thesis unfolding if_P [OF assms(2)] .
qed

lemma mutex_inv_other:
  assumes "mutex_inv s" "owner (mutex s) \<noteq> Some t"
  shows "accepts Out (progs s t) \<or> accepts Asleep (progs s t)"
  using assms by (auto simp: mutex_inv_def)

lemma mutex_inv_step:
  assumes inv: "mutex_inv s" and "mstep s s'"
  shows "mutex_inv s'"
  using assms(2)
proof (rule mstepE)
  fix tid a as m
  assume s': "s' = s\<lparr>mutex := m, progs := (progs s)(tid := as)\<rparr>"
    and p: "progs s tid = a # as" and e: "exec_micro tid a (mutex s) = Some (Inr m)"
  note others = mutex_inv_other [OF inv]
  have none: "owner (mutex s) = None \<Longrightarrow> holder (mutex s) = 0" using inv by (simp add: mutex_inv_def)
  show ?thesis
  proof (cases "owner (mutex s) = Some tid")
    case False
    from others [OF this] have a: "a \<in> {Pthread_lock, Cond_reacquire}" and en: "accepts Entering as"
      by (auto simp: p split: if_splits)
    from a e have "owner (mutex s) = None" "m = (mutex s)\<lparr>owner := Some tid\<rparr>"
      by (auto simp: acquire_def split: if_splits)
    with en none others show ?thesis by (auto simp: mutex_inv_def s')
  next
    case True
    then consider "holder (mutex s) = tid" "accepts In (a # as)" | "holder (mutex s) = 0" "accepts Entering (a # as)"
      | "holder (mutex s) = 0" "accepts Leaving (a # as)"
      using mutex_inv_owner [OF inv True] unfolding p by blast
    then show ?thesis
    proof cases
      case 1
      with e True others show ?thesis
        by (auto simp: mutex_inv_def s' unassignHolder_def assertLocked_def cassert_def split: if_splits)
    next
      case 2
      with e True others show ?thesis by (auto simp: mutex_inv_def s' assignHolder_def split: if_splits)
    next
      case 3
      with e True others show ?thesis by (auto simp: mutex_inv_def s' release_def split: if_splits)
    qed
  qed
qed

lemma mreach_inv:
  assumes "mreach start s" "\<And>tid. accepts Out (start tid)"
  shows "mutex_inv s"
  using assms(1)
proof (induction rule: mreach.induct)
  case start
  show ?case by (simp add: mutex_inv_def MutexLock_new_def assms(2))
next
  case (step s s')
  then show ?case by (blast intro: mutex_inv_step)
qed

text \<open>The bodies of critical sections are put together from these pieces.\<close>

lemma inside_pieces [simp]:
  "inside (wait @ as) = inside as" "inside (notify @ as) = inside as" "inside (notifyAll @ as) = inside as"
  by (simp_all add: wait_def notify_def notifyAll_def UnassignGuard_def)

lemma inside_concat:
  "set ps \<subseteq> {wait, notify, notifyAll, [Assert_locked]} \<Longrightarrow> inside (concat ps @ as) = inside as"
  by (induction ps) auto

lemma outside_with_guard:
  "set ps \<subseteq> {wait, notify, notifyAll, [Assert_locked]} \<Longrightarrow>
     accepts Out (with_guard (concat ps) @ as) = accepts Out as"
  using inside_concat [of ps "unlock @ as"] by (simp add: with_guard_def lock_def unlock_def)

section \<open>Properties\<close>

text \<open>
  C18. Threads that use a mutex through guards only, with any waits, notifications and
  \<open>assertLocked\<close> calls inside, interleaved in any order: at most one of them is inside a critical
  section, \<open>isLockedByThisThread\<close> tells exactly whether the calling thread is, no step is a fault
  or a failed assertion, and the destructor's assertion passes when no thread owns the mutex.
\<close>

theorem mutex_protocol:
  assumes "mreach start s"
    and "\<And>tid. \<exists>pss. start tid = concat (map (\<lambda>ps. with_guard (concat ps)) pss) \<and>
      (\<forall>ps \<in> set pss. set ps \<subseteq> {wait, notify, notifyAll, [Assert_locked]})"
  shows "(\<forall>t u. inside (progs s t) \<and> inside (progs s u) \<longrightarrow> t = u) \<and>
    (\<forall>t. t \<noteq> 0 \<longrightarrow> isLockedByThisThread t (mutex s) = inside (progs s t)) \<and>
    (\<forall>t a as e. progs s t = a # as \<longrightarrow> exec_micro t a (mutex s) \<noteq> Some (Inl e)) \<and>
    (owner (mutex s) = None \<longrightarrow> MutexLock_delete (mutex s) = Inr ())"
proof -
  have "accepts Out (concat (map (\<lambda>ps. with_guard (concat ps)) pss))"
    if "\<forall>ps \<in> set pss. set ps \<subseteq> {wait, notify, notifyAll, [Assert_locked]}" for pss
    using that by (induction pss) (auto simp: outside_with_guard)
  with assms(2) have "accepts Out (start tid)" for tid by metis
  with mreach_inv [OF assms(1)] have inv: "mutex_inv s" by blast
  have not_in: "\<not> accepts p as" if "inside as" "p \<noteq> In" for p as
    using that by (cases as; cases p; auto split: if_splits)
  have held: "owner (mutex s) = Some t \<and> holder (mutex s) = t" if "inside (progs s t)" for t
    using inv not_in [OF that, of Out] not_in [OF that, of Asleep] not_in [OF that, of Entering]
      not_in [OF that, of Leaving]
    by (auto simp: mutex_inv_def split: if_splits)
  have "exec_micro t a (mutex s) \<noteq> Some (Inl e)" if p: "progs s t = a # as" for t a as e
  proof (cases "owner (mutex s) = Some t")
    case True
    with mutex_inv_owner [OF inv True, unfolded p]
    have "holder (mutex s) = t \<and> accepts In (a # as) \<or> accepts Entering (a # as) \<or> accepts Leaving (a # as)"
      by blast
    with True show ?thesis
      by (auto simp: release_def assertLocked_def isLockedByThisThread_def split: if_splits)
  next
    case False
    from mutex_inv_other [OF inv False, unfolded p] show ?thesis by (auto simp: acquire_def split: if_splits)
  qed
  moreover have "inside (progs s t)" if "holder (mutex s) = t" "t \<noteq> 0" for t
    using inv that by (cases "owner (mutex s)") (auto simp: mutex_inv_def split: if_splits)
  moreover have "t = u" if "inside (progs s t)" "inside (progs s u)" for t u
    using held [OF that(1)] held [OF that(2)] by simp
  moreover have "owner (mutex s) = None \<longrightarrow> holder (mutex s) = 0" using inv by (simp add: mutex_inv_def)
  ultimately show ?thesis using held
    by (simp add: isLockedByThisThread_def MutexLock_delete_def) blast
qed


text \<open>Thread 1 checks, waits and notifies; thread 2 has gone in while it sleeps.\<close>

definition demo_start_progs :: "int \<Rightarrow> micro list" where
  "demo_start_progs tid =
     (if tid = 1 then with_guard ([Assert_locked] @ wait @ notify) else if tid = 2 then with_guard notifyAll else [])"

lemma mreach_exec:
  "mreach start s \<Longrightarrow> progs s tid = a # as \<Longrightarrow> exec_micro tid a (mutex s) = Some (Inr m) \<Longrightarrow>
     mreach start (s\<lparr>mutex := m, progs := (progs s)(tid := as)\<rparr>)"
  by (rule mreach.step, assumption, rule mstep.intros)

text \<open>The state after a schedule: the threads that make the steps, in order.\<close>

fun schedule :: "int list \<Rightarrow> Threads \<Rightarrow> Threads option" where
  "schedule [] s = Some s"
| "schedule (tid # ts) s =
     (case progs s tid of
        [] \<Rightarrow> None
      | a # as \<Rightarrow>
          (case exec_micro tid a (mutex s) of
             Some (Inr m) \<Rightarrow> schedule ts (s\<lparr>mutex := m, progs := (progs s)(tid := as)\<rparr>)
           | _ \<Rightarrow> None))"

lemma schedule_mreach: "schedule ts s = Some s' \<Longrightarrow> mreach start s \<Longrightarrow> mreach start s'"
  by (induction ts s rule: schedule.induct)
    (auto split: list.splits option.splits sum.splits dest: mreach_exec)

theorem mutex_protocol_witness:
  "\<exists>s. mreach demo_start_progs s \<and> inside (progs s 2) \<and> isLockedByThisThread 2 (mutex s) \<and>
    \<not> isLockedByThisThread 1 (mutex s)"
proof -
  let ?m = "\<lparr>owner = Some 2, holder = 2\<rparr>"
  let ?p = "(demo_start_progs(1 := [Cond_reacquire, Assign_holder] @ notify @ unlock))(2 := notifyAll @ unlock)"
  have "schedule [1, 1, 1, 1, 1, 2, 2] \<lparr>mutex = MutexLock_new, progs = demo_start_progs\<rparr> =
      Some \<lparr>mutex = ?m, progs = ?p\<rparr>"
    by (simp add: demo_start_progs_def with_guard_def lock_def wait_def UnassignGuard_def MutexLock_new_def
        acquire_def release_def assignHolder_def unassignHolder_def assertLocked_def isLockedByThisThread_def fun_eq_iff)
  from schedule_mreach [OF this mreach.start] have r: "mreach demo_start_progs \<lparr>mutex = ?m, progs = ?p\<rparr>" .
  have "\<exists>pss. demo_start_progs tid = concat (map (\<lambda>ps. with_guard (concat ps)) pss) \<and>
      (\<forall>ps \<in> set pss. set ps \<subseteq> {wait, notify, notifyAll, [Assert_locked]})" for tid
    by (intro exI [of _ "if tid = 1 then [[[Assert_locked], wait, notify]] else if tid = 2 then [[notifyAll]] else []"])
      (simp add: demo_start_progs_def)
  note p = mutex_protocol [OF r this]
  have i: "inside (progs \<lparr>mutex = ?m, progs = ?p\<rparr> 2)" by (simp add: notifyAll_def unlock_def)
  have "isLockedByThisThread 2 (mutex \<lparr>mutex = ?m, progs = ?p\<rparr>)" using p i by auto
  moreover have "\<not> isLockedByThisThread 1 (mutex \<lparr>mutex = ?m, progs = ?p\<rparr>)"
    using p by (simp add: isLockedByThisThread_def)
  ultimately show ?thesis using r i by blast
qed

text \<open>
  \<open>waitForSeconds\<close> counts the nanoseconds of the clock twice: for a whole number of seconds the deadline's
  nanosecond part is twice that of the clock. In the second half of every second it is out of range,
  so the call returns at once and does not wait at all, and it reports no time-out.
\<close>

theorem wait_counts_nanoseconds_twice:
  assumes "0 \<le> n" "n < 1000000000" "0 \<le> sec" "sec \<le> 2 ^ 62" "0 < k" "k \<le> 2000000000"
  shows "wait_deadline (of_int k) \<lparr>tv_sec = sec, tv_nsec = n\<rparr> = \<lparr>tv_sec = sec + k, tv_nsec = 2 * n\<rparr> \<and>
    (500000000 \<le> n \<longrightarrow>
       timedwait outcome (wait_deadline (of_int k) \<lparr>tv_sec = sec, tv_nsec = n\<rparr>) = Einval \<and>
       \<not> waitForSeconds (of_int k) \<lparr>tv_sec = sec, tv_nsec = n\<rparr> outcome) \<and>
    (n < 500000000 \<longrightarrow>
       waitForSeconds (of_int k) \<lparr>tv_sec = sec, tv_nsec = n\<rparr> outcome = (outcome = Timed_out))"
proof -
  have "(of_int k :: rat) * of_int kNanoSecondsPerSecond = of_int (k * 1000000000)"
    by (simp add: kNanoSecondsPerSecond_def)
  then have "trunc_double (of_int k * of_int kNanoSecondsPerSecond) = k * 1000000000"
    by (simp only: trunc_double_def floor_of_int ceiling_of_int if_cancel)
  then have "wrap64 (trunc_double (of_int k * of_int kNanoSecondsPerSecond)) = k * 1000000000"
    using assms(5,6) by simp
  moreover have "add64 n (k * 1000000000) = n + k * 1000000000" using assms by (simp add: add64_def)
  moreover have "div64 (n + k * 1000000000) 1000000000 = k"
  proof -
    have "(n + k * 1000000000) div 1000000000 = k" using assms(1,2) by simp
    with assms show ?thesis by (simp only: div64_def sdiv_nonneg) simp
  qed
  moreover have "mod64 (n + k * 1000000000) 1000000000 = n"
  proof -
    have "(n + k * 1000000000) mod 1000000000 = n" using assms(1,2) by simp
    with assms show ?thesis by (simp only: mod64_def smod_nonneg) simp
  qed
  moreover have "add64 sec k = sec + k" "add64 n n = 2 * n" using assms by (simp_all add: add64_def)
  ultimately have "wait_deadline (of_int k) \<lparr>tv_sec = sec, tv_nsec = n\<rparr> = \<lparr>tv_sec = sec + k, tv_nsec = 2 * n\<rparr>"
    by (simp add: wait_deadline_def Let_def kNanoSecondsPerSecond_def)
  then show ?thesis using assms(1) by (auto simp: waitForSeconds_def timedwait_def kNanoSecondsPerSecond_def)
qed

theorem wait_counts_nanoseconds_twice_witness:
  "\<not> waitForSeconds 2 \<lparr>tv_sec = 1600000000, tv_nsec = 700000000\<rparr> Timed_out"
  using wait_counts_nanoseconds_twice [of 700000000 1600000000 2 Timed_out] by simp

end
