(* ===== verification/Monitor.thy ===== *)
theory Monitor
  imports Sync
begin

text \<open>
  Classes whose member functions hold one mutex from their first to their last statement and wait
  on conditions only in \<open>while\<close> loops that come first (CountDownLatch, BlockingQueue, ThreadPool,
  EventLoopThread): an operation is a function from the shared state to an outcome, tried again
  from its loop test whenever its thread runs. Theory \<open>Sync\<close> shows that such sections exclude
  each other. What a signal wakes is left open, and a sleeping thread may wake without one.
\<close>

section \<open>Operations and their interleavings\<close>

datatype 'c notification = Notify 'c | NotifyAll 'c

datatype ('s, 'c, 'r) outcome =
    Wait_on 'c
  | Done 's 'r "'c notification list"
  | Failed fault

datatype ('c, 'o) status = Away | Ready 'o | Blocked 'c 'o

record ('s, 'c, 'o) Monitor =
  shared :: 's
  threads :: "nat \<Rightarrow> ('c, 'o) status"

datatype ('o, 'r) event = Call nat 'o | Return nat 'o 'r | Sleep nat | Wake nat

definition wake_up :: "'c \<Rightarrow> ('c, 'o) status \<Rightarrow> ('c, 'o) status" where
  "wake_up c x = (case x of Blocked d op \<Rightarrow> if d = c then Ready op else x | _ \<Rightarrow> x)"

lemma wake_up_simps [simp]:
  "wake_up c x = Away \<longleftrightarrow> x = Away"
  "wake_up c x = Ready op \<longleftrightarrow> x = Ready op \<or> x = Blocked c op"
  "wake_up c x = Blocked d op \<longleftrightarrow> x = Blocked d op \<and> d \<noteq> c"
  by (cases x; auto simp: wake_up_def)+

inductive notified :: "'c notification \<Rightarrow> (nat \<Rightarrow> ('c, 'o) status) \<Rightarrow> (nat \<Rightarrow> ('c, 'o) status) \<Rightarrow> bool" where
  one: "th t = Blocked c op \<Longrightarrow> notified (Notify c) th (th(t := Ready op))"
| one_none: "(\<And>t op. th t \<noteq> Blocked c op) \<Longrightarrow> notified (Notify c) th th"
| all: "notified (NotifyAll c) th (\<lambda>t. wake_up c (th t))"

inductive notifies :: "'c notification list \<Rightarrow> (nat \<Rightarrow> ('c, 'o) status) \<Rightarrow> (nat \<Rightarrow> ('c, 'o) status) \<Rightarrow> bool" where
  none: "notifies [] th th"
| cons: "notified n th th' \<Longrightarrow> notifies ns th' th'' \<Longrightarrow> notifies (n # ns) th th''"

inductive mon_step ::
  "('o \<Rightarrow> 's \<Rightarrow> ('s, 'c, 'r) outcome) \<Rightarrow> ('s, 'c, 'o) Monitor \<Rightarrow> ('o, 'r) event \<Rightarrow> ('s, 'c, 'o) Monitor \<Rightarrow> bool"
  for exec where
  call: "threads m t = Away \<Longrightarrow> mon_step exec m (Call t op) (m\<lparr>threads := (threads m)(t := Ready op)\<rparr>)"
| return: "threads m t = Ready op \<Longrightarrow> exec op (shared m) = Done s r ns \<Longrightarrow>
     notifies ns ((threads m)(t := Away)) th \<Longrightarrow>
     mon_step exec m (Return t op r) (m\<lparr>shared := s, threads := th\<rparr>)"
| sleep: "threads m t = Ready op \<Longrightarrow> exec op (shared m) = Wait_on c \<Longrightarrow>
     mon_step exec m (Sleep t) (m\<lparr>threads := (threads m)(t := Blocked c op)\<rparr>)"
| wake: "threads m t = Blocked c op \<Longrightarrow>
     mon_step exec m (Wake t) (m\<lparr>threads := (threads m)(t := Ready op)\<rparr>)"

text \<open>A run, with the events so far, the last one last.\<close>

inductive mon_run ::
  "('o \<Rightarrow> 's \<Rightarrow> ('s, 'c, 'r) outcome) \<Rightarrow> 's \<Rightarrow> ('o, 'r) event list \<Rightarrow> ('s, 'c, 'o) Monitor \<Rightarrow> bool"
  for exec s0 where
  init: "mon_run exec s0 [] \<lparr>shared = s0, threads = \<lambda>_. Away\<rparr>"
| step: "mon_run exec s0 es m \<Longrightarrow> mon_step exec m e m' \<Longrightarrow> mon_run exec s0 (es @ [e]) m'"

inductive_cases mon_stepE: "mon_step exec m e m'"
inductive_cases notifiedE: "notified n th th'"
inductive_cases notifies_NilE: "notifies [] th th'"
inductive_cases notifies_ConsE: "notifies (n # ns) th th'"

definition blocked_on :: "'c \<Rightarrow> (nat \<Rightarrow> ('c, 'o) status) \<Rightarrow> nat set" where
  "blocked_on c th = {t. \<exists>op. th t = Blocked c op}"

definition ready_for :: "('o \<Rightarrow> bool) \<Rightarrow> (nat \<Rightarrow> ('c, 'o) status) \<Rightarrow> nat set" where
  "ready_for waits th = {t. \<exists>op. th t = Ready op \<and> waits op}"

definition active :: "(nat \<Rightarrow> ('c, 'o) status) \<Rightarrow> nat set" where
  "active th = {t. th t \<noteq> Away}"

lemma ready_active: "ready_for waits th \<subseteq> active th"
  by (auto simp: ready_for_def active_def)

lemma notified_active: "notified n th th' \<Longrightarrow> active th' = active th"
  by (induction rule: notified.induct) (auto simp: active_def)

lemma notifies_active: "notifies ns th th' \<Longrightarrow> active th' = active th"
  by (induction rule: notifies.induct) (auto dest: notified_active)

lemma notifies_total: "\<exists>th'. notifies ns th th'"
proof (induction ns arbitrary: th)
  case (Cons n ns)
  have "\<exists>th1. notified n th th1" by (cases n) (blast intro: notified.intros)+
  with Cons show ?case by (blast intro: notifies.cons)
qed (blast intro: notifies.none)

lemma notified_away: "notified n th th' \<Longrightarrow> th' t = Away \<longleftrightarrow> th t = Away"
  using notified_active [of n th th'] by (auto simp: active_def)

lemma run_finite: "mon_run exec s0 es m \<Longrightarrow> finite (active (threads m))"
proof (induction rule: mon_run.induct)
  case init
  show ?case by (simp add: active_def)
next
  case (step es m e m')
  have ins: "active (th(t := x)) \<subseteq> insert t (active th)" for th :: "nat \<Rightarrow> ('c, 'o) status" and t x
    by (auto simp: active_def)
  from step.hyps(2) obtain t x where "active (threads m') \<subseteq> insert t (active (threads m)) \<or>
      active (threads m') = active ((threads m)(t := x))"
    by (cases rule: mon_step.cases) (auto simp: ins dest: notifies_active)
  with ins step.IH show ?case by (metis finite_insert finite_subset)
qed

section \<open>No lost wake-up\<close>

text \<open>
  Notify condition of a monitor: \<open>waits\<close> says which operations may wait on it, \<open>avail\<close> how many
  of them could complete now, \<open>opened\<close> when all of them can, whatever happens. The laws say that
  an operation waits only when it cannot complete, and that what makes others able to complete is signalled.
\<close>

locale condition =
  fixes exec :: "'o \<Rightarrow> 's \<Rightarrow> ('s, 'c, 'r) outcome" and c :: 'c and waits :: "'o \<Rightarrow> bool"
    and avail :: "'s \<Rightarrow> nat" and opened :: "'s \<Rightarrow> bool" and ok :: "'s \<Rightarrow> bool"
  assumes waits_only_when_needed:
    "ok s \<Longrightarrow> exec op s = Wait_on c \<Longrightarrow> waits op \<and> avail s = 0 \<and> \<not> opened s"
  and signals_enough:
    "ok s \<Longrightarrow> exec op s = Done s' r ns \<Longrightarrow> NotifyAll c \<notin> set ns \<Longrightarrow> \<not> opened s \<Longrightarrow>
       \<not> opened s' \<and> avail s' + (if waits op then 1 else 0) \<le> avail s + count_list ns (Notify c)"
  and waits_on_one: "ok s \<Longrightarrow> exec op s = Wait_on d \<Longrightarrow> waits op \<Longrightarrow> d = c"
  and ok_kept: "ok s \<Longrightarrow> exec op s = Done s' r ns \<Longrightarrow> ok s'"
begin

definition no_lost_wakeup :: "('s, 'c, 'o) Monitor \<Rightarrow> bool" where
  "no_lost_wakeup m \<longleftrightarrow> (blocked_on c (threads m) \<noteq> {} \<longrightarrow>
     \<not> opened (shared m) \<and> avail (shared m) \<le> card (ready_for waits (threads m)))"

definition well_blocked :: "(nat \<Rightarrow> ('c, 'o) status) \<Rightarrow> bool" where
  "well_blocked th \<longleftrightarrow> (\<forall>t op. th t = Blocked c op \<longrightarrow> waits op)"

lemma notified_counts:
  assumes "notified n th th'" "well_blocked th" "finite (active th)"
  shows "well_blocked th' \<and> ready_for waits th \<subseteq> ready_for waits th' \<and> blocked_on c th' \<subseteq> blocked_on c th \<and>
    (blocked_on c th' \<noteq> {} \<longrightarrow> n \<noteq> NotifyAll c \<and>
      card (ready_for waits th) + (if n = Notify c then 1 else 0) \<le> card (ready_for waits th'))"
proof -
  have fin: "finite (ready_for waits th')"
    using notified_active [OF assms(1)] assms(3) ready_active [of waits th'] finite_subset by metis
  have sub: "ready_for waits th \<subseteq> ready_for waits th'"
    using assms(1) by (cases rule: notified.cases) (auto simp: ready_for_def)
  show ?thesis
    using assms(1)
  proof (cases rule: notified.cases)
    case (one t d op)
    have "d = c \<Longrightarrow> card (ready_for waits th) < card (ready_for waits th')"
    proof -
      assume "d = c"
      with one assms(2) have "t \<in> ready_for waits th'" "t \<notin> ready_for waits th"
        by (auto simp: ready_for_def well_blocked_def)
      with sub have "ready_for waits th \<subset> ready_for waits th'" by blast
      then show ?thesis by (rule psubset_card_mono [OF fin])
    qed
    with one sub assms(2) card_mono [OF fin sub] show ?thesis
      by (auto simp: well_blocked_def blocked_on_def)
  next
    case (one_none d)
    with assms(2) show ?thesis by (auto simp: blocked_on_def)
  next
    case (all d)
    with sub assms(2) card_mono [OF fin sub] show ?thesis
      by (auto simp: well_blocked_def blocked_on_def)
  qed
qed

lemma notifies_counts:
  assumes "notifies ns th th'" "well_blocked th" "finite (active th)"
  shows "well_blocked th' \<and> blocked_on c th' \<subseteq> blocked_on c th \<and>
    (blocked_on c th' \<noteq> {} \<longrightarrow> NotifyAll c \<notin> set ns \<and>
      card (ready_for waits th) + count_list ns (Notify c) \<le> card (ready_for waits th'))"
  using assms
proof (induction rule: notifies.induct)
  case (cons n th th' ns th'')
  note n = notified_counts [OF cons.hyps(1) cons.prems]
  have "finite (active th')" using notified_active [OF cons.hyps(1)] cons.prems(2) by simp
  with n have "well_blocked th'' \<and> blocked_on c th'' \<subseteq> blocked_on c th' \<and>
    (blocked_on c th'' \<noteq> {} \<longrightarrow> NotifyAll c \<notin> set ns \<and>
      card (ready_for waits th') + count_list ns (Notify c) \<le> card (ready_for waits th''))"
    using cons.IH by blast
  with n show ?case by fastforce
qed simp

lemma return_no_lost_wakeup:
  assumes "no_lost_wakeup m" "well_blocked (threads m)" "finite (active (threads m))" "ok (shared m)"
    and t: "threads m t = Ready op" and e: "exec op (shared m) = Done s r ns"
    and ns: "notifies ns ((threads m)(t := Away)) th"
  shows "no_lost_wakeup (m\<lparr>shared := s, threads := th\<rparr>) \<and> well_blocked th"
proof -
  let ?th = "(threads m)(t := Away)"
  have wb: "well_blocked ?th" using assms(2) by (auto simp: well_blocked_def)
  have "active ?th \<subseteq> active (threads m)" by (auto simp: active_def)
  then have fin: "finite (active ?th)" using assms(3) finite_subset by blast
  note n = notifies_counts [OF ns wb fin]
  have "\<not> opened s \<and> avail s \<le> card (ready_for waits th)" if b: "blocked_on c th \<noteq> {}"
  proof -
    from n b have all: "NotifyAll c \<notin> set ns"
      and up: "card (ready_for waits ?th) + count_list ns (Notify c) \<le> card (ready_for waits th)"
      and "blocked_on c ?th \<noteq> {}" by auto
    then have "blocked_on c (threads m) \<noteq> {}" by (auto simp: blocked_on_def split: if_splits)
    with assms(1) have before: "\<not> opened (shared m)" "avail (shared m) \<le> card (ready_for waits (threads m))"
      by (auto simp: no_lost_wakeup_def)
    have "ready_for waits (threads m) = ready_for waits ?th \<union> (if waits op then {t} else {})"
      using t by (auto simp: ready_for_def split: if_splits)
    moreover have "t \<notin> ready_for waits ?th" by (simp add: ready_for_def)
    moreover have "finite (ready_for waits ?th)" using fin ready_active [of waits ?th] finite_subset by blast
    ultimately have "card (ready_for waits (threads m)) = card (ready_for waits ?th) + (if waits op then 1 else 0)"
      by simp
    with signals_enough [OF assms(4) e all before(1)] before(2) up show ?thesis by (auto split: if_splits)
  qed
  with n show ?thesis by (simp add: no_lost_wakeup_def)
qed

lemma fewer_blocked:
  assumes "no_lost_wakeup m" "finite (active (threads m))" "shared m' = shared m"
    and "ready_for waits (threads m) \<subseteq> ready_for waits (threads m')"
    and "active (threads m') \<subseteq> insert t (active (threads m))"
    and "blocked_on c (threads m') \<subseteq> blocked_on c (threads m)"
  shows "no_lost_wakeup m'"
proof -
  have "finite (ready_for waits (threads m'))"
    using assms(2,5) ready_active [of waits "threads m'"] by (meson finite_insert finite_subset)
  with assms(4) have "card (ready_for waits (threads m)) \<le> card (ready_for waits (threads m'))"
    by (rule card_mono [rotated])
  with assms(1,3,6) show ?thesis by (auto simp: no_lost_wakeup_def)
qed

lemma step_no_lost_wakeup:
  assumes "mon_step exec m e m'" "no_lost_wakeup m" "well_blocked (threads m)" "finite (active (threads m))"
    and "ok (shared m)"
  shows "no_lost_wakeup m' \<and> well_blocked (threads m') \<and> ok (shared m')"
  using assms(1)
proof (cases rule: mon_step.cases)
  case (return t op s r ns th)
  with return_no_lost_wakeup [OF assms(2-5)] ok_kept [OF assms(5)] show ?thesis by auto
next
  case (call t op)
  have "no_lost_wakeup m'"
    by (rule fewer_blocked [OF assms(2,4), of _ t]) (use call in \<open>auto simp: ready_for_def active_def blocked_on_def\<close>)
  with call assms(3,5) show ?thesis by (auto simp: well_blocked_def)
next
  case (wake t d op)
  have "no_lost_wakeup m'"
    by (rule fewer_blocked [OF assms(2,4), of _ t]) (use wake in \<open>auto simp: ready_for_def active_def blocked_on_def\<close>)
  with wake assms(3,5) show ?thesis by (auto simp: well_blocked_def)
next
  case (sleep t op d)
  show ?thesis
  proof (cases "d = c")
    case True
    from waits_only_when_needed [OF assms(5)] sleep(4) True
    have "waits op" "avail (shared m) = 0" "\<not> opened (shared m)" by auto
    with sleep assms(3,5) True show ?thesis by (auto simp: no_lost_wakeup_def well_blocked_def)
  next
    case False
    with waits_on_one [OF assms(5) sleep(4)] have "\<not> waits op" by blast
    with sleep False have "no_lost_wakeup m'"
      by (intro fewer_blocked [OF assms(2,4), of _ t]) (auto simp: ready_for_def active_def blocked_on_def)
    with sleep False assms(3,5) show ?thesis by (auto simp: well_blocked_def)
  qed
qed

lemma run_no_lost_wakeup:
  assumes "mon_run exec s0 es m" "ok s0"
  shows "no_lost_wakeup m \<and> well_blocked (threads m) \<and> ok (shared m)"
  using assms
proof (induction rule: mon_run.induct)
  case init
  then show ?case by (simp add: no_lost_wakeup_def well_blocked_def blocked_on_def)
next
  case (step es m e m')
  then show ?case by (intro step_no_lost_wakeup [OF step.hyps(2)]) (auto intro: run_finite)
qed

text \<open>What clients use: a sleeper means that nothing is there for it, or somebody is awake to take it.\<close>

lemma sleeper_justified:
  assumes "mon_run exec s0 es m" "ok s0" "threads m t = Blocked c op"
  shows "\<not> opened (shared m) \<and> waits op \<and>
    (avail (shared m) > 0 \<longrightarrow> (\<exists>u op'. threads m u = Ready op' \<and> waits op'))"
proof -
  from run_no_lost_wakeup [OF assms(1,2)] assms(3)
  have "waits op" "\<not> opened (shared m)" "avail (shared m) \<le> card (ready_for waits (threads m))"
    by (auto simp: no_lost_wakeup_def well_blocked_def blocked_on_def)
  moreover have "\<exists>u op'. threads m u = Ready op' \<and> waits op'"
    if "avail (shared m) \<le> card (ready_for waits (threads m))" "avail (shared m) > 0"
  proof -
    from that have "ready_for waits (threads m) \<noteq> {}" by (metis card.empty leD)
    then show ?thesis by (auto simp: ready_for_def)
  qed
  ultimately show ?thesis by blast
qed

end

fun event_thread :: "('o, 'r) event \<Rightarrow> nat" where
  "event_thread (Call t op) = t"
| "event_thread (Return t op r) = t"
| "event_thread (Sleep t) = t"
| "event_thread (Wake t) = t"

text \<open>The operation a thread is in. Only its own steps change it.\<close>

fun op_of :: "('c, 'o) status \<Rightarrow> 'o option" where
  "op_of Away = None"
| "op_of (Ready op) = Some op"
| "op_of (Blocked c op) = Some op"

lemma op_of_wake_up [simp]: "op_of (wake_up c x) = op_of x"
  by (cases x) (auto simp: wake_up_def)

lemma notified_op_of: "notified n th th' \<Longrightarrow> op_of (th' t) = op_of (th t)"
  by (induction rule: notified.induct) auto

lemma notifies_op_of: "notifies ns th th' \<Longrightarrow> op_of (th' t) = op_of (th t)"
  by (induction rule: notifies.induct) (auto dest: notified_op_of)

lemma mon_step_op_of:
  assumes "mon_step exec m e m'"
  shows "op_of (threads m' t) =
    (if t = event_thread e
     then (case e of Call t op \<Rightarrow> Some op | Return t op r \<Rightarrow> None | _ \<Rightarrow> op_of (threads m t))
     else op_of (threads m t))"
  using assms by (cases rule: mon_step.cases) (auto dest: notifies_op_of [of _ _ _ t])

lemma mon_step_shared:
  assumes "mon_step exec m e m'"
  shows "case e of Return t op r \<Rightarrow>
      threads m t = Ready op \<and> (\<exists>ns. exec op (shared m) = Done (shared m') r ns)
    | _ \<Rightarrow> shared m' = shared m"
  using assms by (cases rule: mon_step.cases) auto

section \<open>Histories\<close>

text \<open>
  A function of the shared state that every completed operation extends by what it did gives the history of a
  run: the shared invariant of a component is usually of this form.
\<close>

lemma run_invariant:
  assumes "mon_run exec s0 es m" "P [] s0"
    and "\<And>es t op s s' r ns. P es s \<Longrightarrow> exec op s = Done s' r ns \<Longrightarrow> P (es @ [Return t op r]) s'"
    and "\<And>es e s. P es s \<Longrightarrow> (\<And>t op r. e \<noteq> Return t op r) \<Longrightarrow> P (es @ [e]) s"
  shows "P es (shared m)"
  using assms(1)
proof (induction rule: mon_run.induct)
  case init
  with assms(2) show ?case by simp
next
  case (step es m e m')
  from step.hyps(2) show ?case
    by (cases rule: mon_step.cases) (use step.IH assms(3,4) in auto)
qed

section \<open>A scheduler\<close>

text \<open>
  Concrete runs: the first \<open>length l\<close> threads, a signal wakes the first sleeper. A move is a call, or
  one attempt of a thread inside the monitor.
\<close>

datatype 'o move = Enter nat 'o | Attempt nat

fun wake_first :: "'c \<Rightarrow> ('c, 'o) status list \<Rightarrow> ('c, 'o) status list" where
  "wake_first c [] = []"
| "wake_first c (x # xs) =
     (case x of Blocked d op \<Rightarrow> if d = c then Ready op # xs else x # wake_first c xs
      | _ \<Rightarrow> x # wake_first c xs)"

fun wake_for :: "'c notification list \<Rightarrow> ('c, 'o) status list \<Rightarrow> ('c, 'o) status list" where
  "wake_for [] l = l"
| "wake_for (Notify c # ns) l = wake_for ns (wake_first c l)"
| "wake_for (NotifyAll c # ns) l = wake_for ns (map (wake_up c) l)"

fun sched1 ::
  "('o \<Rightarrow> 's \<Rightarrow> ('s, 'c, 'r) outcome) \<Rightarrow> 'o move \<Rightarrow> 's \<times> ('c, 'o) status list \<Rightarrow>
    (('o, 'r) event \<times> 's \<times> ('c, 'o) status list) option" where
  "sched1 exec (Enter t op) (s, l) =
     (if t < length l \<and> (case l ! t of Away \<Rightarrow> True | _ \<Rightarrow> False)
      then Some (Call t op, s, l[t := Ready op]) else None)"
| "sched1 exec (Attempt t) (s, l) =
     (if t < length l then
        (case l ! t of
           Ready op \<Rightarrow>
             (case exec op s of
                Wait_on c \<Rightarrow> Some (Sleep t, s, l[t := Blocked c op])
              | Done s' r ns \<Rightarrow> Some (Return t op r, s', wake_for ns (l[t := Away]))
              | Failed e \<Rightarrow> None)
         | _ \<Rightarrow> None)
      else None)"

fun sched ::
  "('o \<Rightarrow> 's \<Rightarrow> ('s, 'c, 'r) outcome) \<Rightarrow> 'o move list \<Rightarrow> 's \<times> ('c, 'o) status list \<Rightarrow>
    (('o, 'r) event list \<times> 's \<times> ('c, 'o) status list) option" where
  "sched exec [] x = Some ([], x)"
| "sched exec (mv # ms) x =
     (case sched1 exec mv x of
        None \<Rightarrow> None
      | Some (e, y) \<Rightarrow> map_option (\<lambda>(es, z). (e # es, z)) (sched exec ms y))"

definition th_of :: "('c, 'o) status list \<Rightarrow> nat \<Rightarrow> ('c, 'o) status" where
  "th_of l t = (if t < length l then l ! t else Away)"

lemma th_of_update: "t < length l \<Longrightarrow> th_of (l[t := x]) = (th_of l)(t := x)"
  by (auto simp: th_of_def fun_eq_iff)

lemma th_of_Cons: "th_of (x # xs) t = (case t of 0 \<Rightarrow> x | Suc u \<Rightarrow> th_of xs u)"
  by (cases t) (simp_all add: th_of_def)

lemma wake_first_cases:
  "(\<forall>t op. th_of l t \<noteq> Blocked c op) \<and> wake_first c l = l \<or>
   (\<exists>t op. th_of l t = Blocked c op \<and> th_of (wake_first c l) = (th_of l)(t := Ready op))"
proof (induction l)
  case (Cons x xs)
  show ?case
  proof (cases "\<exists>op. x = Blocked c op")
    case True
    then show ?thesis
      by (intro disjI2 exI [of _ 0]) (auto simp: th_of_Cons fun_eq_iff split: nat.split)
  next
    case False
    then have w: "wake_first c (x # xs) = x # wake_first c xs" by (cases x) auto
    from Cons show ?thesis
    proof (elim disjE exE conjE)
      assume "\<forall>t op. th_of xs t \<noteq> Blocked c op" "wake_first c xs = xs"
      with False w show ?thesis by (auto simp: th_of_Cons split: nat.split)
    next
      fix t op assume "th_of xs t = Blocked c op" "th_of (wake_first c xs) = (th_of xs)(t := Ready op)"
      with w show ?thesis
        by (intro disjI2 exI [of _ "Suc t"] exI [of _ op]) (auto simp: th_of_Cons fun_eq_iff split: nat.split)
    qed
  qed
qed (simp add: th_of_def)

lemma wake_for_notifies: "notifies ns (th_of l) (th_of (wake_for ns l))"
proof (induction ns l rule: wake_for.induct)
  case (2 c ns l)
  have "notified (Notify c) (th_of l) (th_of (wake_first c l))"
    using wake_first_cases [of l c]
    by (elim disjE exE conjE) (simp_all add: notified.one notified.one_none)
  with 2 show ?case by (auto intro: notifies.cons)
next
  case (3 c ns l)
  have "th_of (map (wake_up c) l) = (\<lambda>t. wake_up c (th_of l t))"
    by (auto simp: th_of_def fun_eq_iff wake_up_def)
  with 3 notified.all [of c "th_of l"] show ?case by (auto intro: notifies.cons)
qed (simp add: notifies.none)

lemma sched1_step:
  assumes "sched1 exec mv (s, l) = Some (e, s', l')"
  shows "mon_step exec \<lparr>shared = s, threads = th_of l\<rparr> e \<lparr>shared = s', threads = th_of l'\<rparr>"
proof (cases mv)
  case (Enter t op)
  with assms have t: "t < length l" "l ! t = Away" and e: "e = Call t op" "s' = s" "l' = l[t := Ready op]"
    by (auto split: if_splits status.splits)
  show ?thesis
    using mon_step.call [of "\<lparr>shared = s, threads = th_of l\<rparr>" t exec op] t
    by (simp add: e th_of_update) (simp add: th_of_def)
next
  case (Attempt t)
  with assms obtain op where t: "t < length l" and op: "l ! t = Ready op" by (auto split: if_splits status.splits)
  have th: "th_of l t = Ready op" using t op by (simp add: th_of_def)
  show ?thesis
  proof (cases "exec op s")
    case (Wait_on c)
    with assms Attempt t op have e: "e = Sleep t" "s' = s" "l' = l[t := Blocked c op]" by auto
    show ?thesis
      using mon_step.sleep [of "\<lparr>shared = s, threads = th_of l\<rparr>" t op exec c] t th Wait_on
      by (simp add: e th_of_update)
  next
    case (Done s1 r ns)
    with assms Attempt t op have e: "e = Return t op r" "s' = s1" "l' = wake_for ns (l[t := Away])" by auto
    show ?thesis
      using mon_step.return [of "\<lparr>shared = s, threads = th_of l\<rparr>" t op exec s1 r ns "th_of (wake_for ns (l[t := Away]))"]
        t th Done wake_for_notifies [of ns "l[t := Away]"] by (simp add: e th_of_update)
  next
    case (Failed e)
    with assms Attempt t op show ?thesis by simp
  qed
qed

lemma sched_run:
  "sched exec ms (s, l) = Some (es', s', l') \<Longrightarrow> mon_run exec s0 es \<lparr>shared = s, threads = th_of l\<rparr> \<Longrightarrow>
     mon_run exec s0 (es @ es') \<lparr>shared = s', threads = th_of l'\<rparr>"
proof (induction ms arbitrary: s l es es')
  case (Cons mv ms)
  from Cons.prems(1) obtain e s1 l1 es1 where
    e: "sched1 exec mv (s, l) = Some (e, s1, l1)" "sched exec ms (s1, l1) = Some (es1, s', l')" "es' = e # es1"
    by (auto split: option.splits)
  from Cons.IH [OF e(2) mon_run.step [OF Cons.prems(2) sched1_step [OF e(1)]]] e(3) show ?case by simp
qed simp

lemma sched_mon_run:
  assumes "sched exec ms (s0, replicate n Away) = Some (es, s, l)"
  shows "mon_run exec s0 es \<lparr>shared = s, threads = th_of l\<rparr>"
proof -
  have a: "th_of (replicate n Away) = (\<lambda>_. Away)" by (auto simp: th_of_def)
  show ?thesis using sched_run [OF assms, of s0 "[]", unfolded a, OF mon_run.init] by simp
qed

end
