(* ===== verification/BlockingQueue.thy ===== *)
theory BlockingQueue
  imports Monitor
begin

text \<open>
  \<open>base::BlockingQueue\<close> (src/base/BlockingQueue.h) and \<open>base::CountDownLatch\<close>
  (src/base/CountDownLatch.h, CountDownLatch.cc): two monitors with one condition each. A member
  function is what it does from its loop test to the end of its guard.
\<close>

section \<open>BlockingQueue\<close>

record 'a BlockingQueue =
  bq_queue :: "'a list"

definition BlockingQueue_new :: "'a BlockingQueue" where
  "BlockingQueue_new = \<lparr>bq_queue = []\<rparr>"

datatype bq_condition = Bq_notEmpty

datatype 'a bq_op = Bq_put 'a | Bq_take | Bq_size

datatype 'a bq_result = Bq_unit | Bq_item 'a | Bq_count nat

type_synonym 'a bq_outcome = "('a BlockingQueue, bq_condition, 'a bq_result) outcome"

definition put :: "'a \<Rightarrow> 'a BlockingQueue \<Rightarrow> 'a bq_outcome" where
  "put x q = Done (q\<lparr>bq_queue := bq_queue q @ [x]\<rparr>) Bq_unit [Notify Bq_notEmpty]"

definition take_item :: "'a BlockingQueue \<Rightarrow> 'a bq_outcome" where
  "take_item q =
     (if bq_queue q = [] then Wait_on Bq_notEmpty
      else if \<not> bq_queue q \<noteq> [] then Failed AssertionFailed
      else Done (q\<lparr>bq_queue := tl (bq_queue q)\<rparr>) (Bq_item (hd (bq_queue q))) [])"

definition queue_size :: "'a BlockingQueue \<Rightarrow> 'a bq_outcome" where
  "queue_size q = Done q (Bq_count (length (bq_queue q))) []"

fun bq_exec :: "'a bq_op \<Rightarrow> 'a BlockingQueue \<Rightarrow> 'a bq_outcome" where
  "bq_exec (Bq_put x) q = put x q"
| "bq_exec Bq_take q = take_item q"
| "bq_exec Bq_size q = queue_size q"

lemmas bq_defs = put_def take_item_def queue_size_def

text \<open>What the completed calls of a history have put and have taken.\<close>

definition bq_puts :: "('a bq_op, 'a bq_result) event list \<Rightarrow> 'a list" where
  "bq_puts es = concat (map (\<lambda>e. case e of Return t (Bq_put x) r \<Rightarrow> [x] | _ \<Rightarrow> []) es)"

definition bq_takes :: "('a bq_op, 'a bq_result) event list \<Rightarrow> 'a list" where
  "bq_takes es = concat (map (\<lambda>e. case e of Return t op (Bq_item x) \<Rightarrow> [x] | _ \<Rightarrow> []) es)"

interpretation bq_notEmpty: condition bq_exec Bq_notEmpty "\<lambda>op. op = Bq_take" "\<lambda>q. length (bq_queue q)" "\<lambda>_. False" "\<lambda>_. True"
proof unfold_locales
  fix s :: "'a BlockingQueue" and op
  assume "bq_exec op s = Wait_on Bq_notEmpty"
  then show "op = Bq_take \<and> length (bq_queue s) = 0 \<and> \<not> False"
    by (cases op) (auto simp: bq_defs split: if_splits)
next
  fix s s' :: "'a BlockingQueue" and op r ns
  assume "bq_exec op s = Done s' r ns"
  then show "\<not> False \<and> length (bq_queue s') + (if op = Bq_take then 1 else 0) \<le> length (bq_queue s) + count_list ns (Notify Bq_notEmpty)"
    by (cases op) (auto simp: bq_defs split: if_splits)
next
  fix d :: bq_condition
  show "d = Bq_notEmpty" by (cases d)
qed simp

section \<open>CountDownLatch\<close>

record CountDownLatch =
  count :: int

definition CountDownLatch_new :: "int \<Rightarrow> CountDownLatch" where
  "CountDownLatch_new c = \<lparr>count = c\<rparr>"

datatype latch_condition = Latch_condition

datatype latch_op = Latch_wait | Latch_countDown | Latch_getCount

type_synonym latch_outcome = "(CountDownLatch, latch_condition, int option) outcome"

definition latch_wait :: "CountDownLatch \<Rightarrow> latch_outcome" where
  "latch_wait l = (if 0 < count l then Wait_on Latch_condition else Done l None [])"

text \<open>Decrementing the smallest \<open>int\<close> is undefined.\<close>

definition countDown :: "CountDownLatch \<Rightarrow> latch_outcome" where
  "countDown l =
     (if \<not> in32 (count l - 1) then Failed Undefined
      else let l = l\<lparr>count := count l - 1\<rparr>
           in Done l None (if count l = 0 then [NotifyAll Latch_condition] else []))"

definition getCount :: "CountDownLatch \<Rightarrow> latch_outcome" where
  "getCount l = Done l (Some (count l)) []"

fun latch_exec :: "latch_op \<Rightarrow> CountDownLatch \<Rightarrow> latch_outcome" where
  "latch_exec Latch_wait l = latch_wait l"
| "latch_exec Latch_countDown l = countDown l"
| "latch_exec Latch_getCount l = getCount l"

lemmas latch_defs = latch_wait_def countDown_def getCount_def

interpretation latch: condition latch_exec Latch_condition "\<lambda>op. op = Latch_wait" "\<lambda>_. 0" "\<lambda>l. count l \<le> 0" "\<lambda>_. True"
proof unfold_locales
  fix s op
  assume "latch_exec op s = Wait_on Latch_condition"
  then show "op = Latch_wait \<and> (0::nat) = 0 \<and> \<not> count s \<le> 0"
    by (cases op) (auto simp: latch_defs Let_def split: if_splits)
next
  fix s s' op r ns
  assume "latch_exec op s = Done s' r ns" "NotifyAll Latch_condition \<notin> set ns" "\<not> count s \<le> 0"
  then show "\<not> count s' \<le> 0 \<and> 0 + (if op = Latch_wait then 1 else 0) \<le> (0::nat) + count_list ns (Notify Latch_condition)"
    by (cases op) (auto simp: latch_defs Let_def split: if_splits)
next
  fix d :: latch_condition
  show "d = Latch_condition" by (cases d)
qed simp

definition countdowns :: "(latch_op, int option) event list \<Rightarrow> nat" where
  "countdowns es = length (filter (\<lambda>e. case e of Return t op r \<Rightarrow> op = Latch_countDown | _ \<Rightarrow> False) es)"

lemma countdowns_append [simp]: "countdowns (es @ es') = countdowns es + countdowns es'"
  by (simp add: countdowns_def)

lemma latch_count:
  "mon_run latch_exec (CountDownLatch_new n) es m \<Longrightarrow> count (shared m) = n - int (countdowns es)"
  by (rule run_invariant [where P = "\<lambda>es s. count s = n - int (countdowns es)"])
    (auto simp: CountDownLatch_new_def countdowns_def latch_defs Let_def split: event.splits if_splits
      elim!: latch_exec.elims)

section \<open>Properties\<close>

text \<open>
  C16. However producers and consumers interleave, the queue is first-in first-out: what has been taken, in
  the order of the takes, followed by what is in the queue is what has been put; no take fails its assertion.
\<close>

theorem blocking_queue_fifo:
  assumes "mon_run bq_exec BlockingQueue_new es m"
  shows "bq_takes es @ bq_queue (shared m) = bq_puts es \<and> bq_exec op (shared m) \<noteq> Failed e"
proof -
  have "bq_takes es @ bq_queue (shared m) = bq_puts es"
    by (rule run_invariant [OF assms, where P = "\<lambda>es s. bq_takes es @ bq_queue s = bq_puts es"])
      (auto simp: BlockingQueue_new_def bq_defs bq_puts_def bq_takes_def split: event.splits if_splits
        elim!: bq_exec.elims)
  then show ?thesis by (cases op) (simp_all add: bq_defs)
qed

text \<open>Threads 0 and 1 sleep in \<open>take\<close> when thread 2 puts; the signal wakes thread 0.\<close>

definition demo_moves :: "nat bq_op move list" where
  "demo_moves = [Enter 0 Bq_take, Attempt 0, Enter 1 Bq_take, Attempt 1, Enter 2 (Bq_put 7), Attempt 2]"

lemma demo_bq_run:
  "\<exists>es. mon_run bq_exec BlockingQueue_new es
     \<lparr>shared = \<lparr>bq_queue = [7::nat]\<rparr>, threads = th_of [Ready Bq_take, Blocked Bq_notEmpty Bq_take, Away]\<rparr> \<and> bq_puts es = [7]"
proof -
  have "sched bq_exec demo_moves (BlockingQueue_new, replicate 3 Away) =
      Some ([Call 0 Bq_take, Sleep 0, Call 1 Bq_take, Sleep 1, Call 2 (Bq_put 7), Return 2 (Bq_put 7) Bq_unit],
        \<lparr>bq_queue = [7::nat]\<rparr>, [Ready Bq_take, Blocked Bq_notEmpty Bq_take, Away])"
    by (simp add: demo_moves_def BlockingQueue_new_def bq_defs numeral_2_eq_2 numeral_3_eq_3)
  from sched_mon_run [OF this] show ?thesis by (auto simp: bq_puts_def)
qed

theorem blocking_queue_fifo_witness:
  "\<exists>es (m :: (nat BlockingQueue, bq_condition, nat bq_op) Monitor). mon_run bq_exec BlockingQueue_new es m \<and>
    bq_takes es @ bq_queue (shared m) = bq_puts es \<and> bq_puts es = [7]"
proof -
  from demo_bq_run obtain es where "bq_puts es = [7::nat]" and r: "mon_run bq_exec BlockingQueue_new es
     \<lparr>shared = \<lparr>bq_queue = [7::nat]\<rparr>, threads = th_of [Ready Bq_take, Blocked Bq_notEmpty Bq_take, Away]\<rparr>"
    by blast
  with blocking_queue_fifo [OF r] show ?thesis by blast
qed

text \<open>
  C17. No item is stranded: when a consumer sleeps in \<open>take\<close> and the queue is not empty, some consumer is
  awake inside \<open>take\<close>, and its next step takes the first item.
\<close>

theorem blocking_queue_wakes:
  assumes "mon_run bq_exec BlockingQueue_new es m" "threads m t = Blocked Bq_notEmpty op"
    and "bq_queue (shared m) = x # xs"
  shows "\<exists>u. threads m u = Ready Bq_take \<and> bq_exec Bq_take (shared m) = Done \<lparr>bq_queue = xs\<rparr> (Bq_item x) []"
  using bq_notEmpty.sleeper_justified [OF assms(1) _ assms(2)] assms(3)
  by (auto simp: bq_defs)

theorem blocking_queue_wakes_witness:
  "\<exists>es (m :: (nat BlockingQueue, bq_condition, nat bq_op) Monitor) t u. mon_run bq_exec BlockingQueue_new es m \<and>
    threads m t = Blocked Bq_notEmpty Bq_take \<and> threads m u = Ready Bq_take \<and>
    bq_exec Bq_take (shared m) = Done \<lparr>bq_queue = []\<rparr> (Bq_item 7) []"
proof -
  define m :: "(nat BlockingQueue, bq_condition, nat bq_op) Monitor" where
    "m = \<lparr>shared = \<lparr>bq_queue = [7]\<rparr>, threads = th_of [Ready Bq_take, Blocked Bq_notEmpty Bq_take, Away]\<rparr>"
  from demo_bq_run obtain es where r: "mon_run bq_exec BlockingQueue_new es m" unfolding m_def by blast
  have b: "threads m 1 = Blocked Bq_notEmpty Bq_take" "bq_queue (shared m) = [7]"
    by (simp_all add: m_def th_of_def)
  from blocking_queue_wakes [OF r b] r b(1) show ?thesis by blast
qed

text \<open>
  A latch opens exactly at its last \<open>countDown\<close>: after \<open>k\<close> of them a latch made with \<open>n\<close> holds
  \<open>n - k\<close>, \<open>wait\<close> returns only when that is not positive, and from then on no thread sleeps in it.
\<close>

theorem latch_opens:
  assumes "mon_run latch_exec (CountDownLatch_new n) es m"
  shows "count (shared m) = n - int (countdowns es) \<and>
    (latch_exec Latch_wait (shared m) = Done (shared m) None [] \<longleftrightarrow> n \<le> int (countdowns es)) \<and>
    (n \<le> int (countdowns es) \<longrightarrow> (\<forall>t op. threads m t \<noteq> Blocked Latch_condition op))"
proof -
  note c = latch_count [OF assms]
  have "threads m t \<noteq> Blocked Latch_condition op" if "n \<le> int (countdowns es)" for t op
    using latch.sleeper_justified [OF assms, of t op] c that by auto
  with c show ?thesis by (auto simp: latch_defs)
qed


theorem latch_opens_witness:
  "\<exists>es m. mon_run latch_exec (CountDownLatch_new 1) es m \<and> countdowns es = 1 \<and> count (shared m) = 0 \<and>
    threads m 0 = Ready Latch_wait"
proof -
  have "sched latch_exec [Enter 0 Latch_wait, Attempt 0, Enter 1 Latch_countDown, Attempt 1]
      (CountDownLatch_new 1, replicate 2 Away) =
      Some ([Call 0 Latch_wait, Sleep 0, Call 1 Latch_countDown, Return 1 Latch_countDown None],
        \<lparr>count = 0\<rparr>, [Ready Latch_wait, Away])"
    by (simp add: CountDownLatch_new_def latch_defs in32_def numeral_2_eq_2)
  from sched_mon_run [OF this] have r: "mon_run latch_exec (CountDownLatch_new 1)
      [Call 0 Latch_wait, Sleep 0, Call 1 Latch_countDown, Return 1 Latch_countDown None]
      \<lparr>shared = \<lparr>count = 0\<rparr>, threads = th_of [Ready Latch_wait, Away]\<rparr>" .
  have e: "countdowns [Call 0 Latch_wait, Sleep 0, Call 1 Latch_countDown, Return 1 Latch_countDown None] = 1"
    by (simp add: countdowns_def)
  have "count (shared \<lparr>shared = \<lparr>count = 0\<rparr>, threads = th_of [Ready Latch_wait, Away :: (latch_condition, latch_op) status]\<rparr>) = 0"
    using latch_opens [OF r] e by simp
  with r e show ?thesis by (force simp: th_of_def)
qed

end
