(* ===== verification/Thread.thy ===== *)
theory Thread
  imports BlockingQueue
begin

text \<open>
  \<open>base::CurrentThread\<close> (src/base/CurrentThread.h, Thread.cc) and \<open>base::Thread\<close>
  (src/base/Thread.h, Thread.cc). What the system calls return is an argument. The new thread and its
  creator meet at a latch made with 1: the creator's \<open>wait\<close> ends after the thread's
  \<open>countDown\<close>, so that \<open>start\<close> is a function of what the thread did before it.
\<close>

section \<open>CurrentThread\<close>

record thread_locals =
  t_cachedTid :: int
  t_tidString :: string
  t_tidStringLength :: int
  t_threadName :: string

definition thread_locals_new :: thread_locals where
  "thread_locals_new = \<lparr>t_cachedTid = 0, t_tidString = [], t_tidStringLength = 6, t_threadName = ''unknown''\<rparr>"

text \<open>\<open>snprintf\<close> returns the length of the whole text, cut or not.\<close>

definition cacheTid :: "int \<Rightarrow> thread_locals \<Rightarrow> thread_locals" where
  "cacheTid gettid loc =
     (if t_cachedTid loc = 0
      then let s = fmt_d 5 gettid @ '' ''
           in loc\<lparr>t_cachedTid := gettid, t_tidString := snprintf_to 32 s, t_tidStringLength := int (length s)\<rparr>
      else loc)"

definition current_tid :: "int \<Rightarrow> thread_locals \<Rightarrow> int \<times> thread_locals" where
  "current_tid gettid loc =
     (let loc = (if t_cachedTid loc = 0 then cacheTid gettid loc else loc) in (t_cachedTid loc, loc))"

definition tidString :: "thread_locals \<Rightarrow> string" where
  "tidString loc = t_tidString loc"

definition tidStringLength :: "thread_locals \<Rightarrow> int" where
  "tidStringLength loc = t_tidStringLength loc"

definition thread_name :: "thread_locals \<Rightarrow> string" where
  "thread_name loc = t_threadName loc"

definition isMainThread :: "int \<Rightarrow> int \<Rightarrow> thread_locals \<Rightarrow> bool \<times> thread_locals" where
  "isMainThread gettid getpid loc = (let (t, loc) = current_tid gettid loc in (t = getpid, loc))"

definition sleepUsec :: "int \<Rightarrow> timespec" where
  "sleepUsec usec =
     (let ts = \<lparr>tv_sec = 0, tv_nsec = 0\<rparr>;
          ts = ts\<lparr>tv_sec := div64 usec 1000000\<rparr>
      in ts\<lparr>tv_nsec := mul64 (mod64 usec 1000000) 1000\<rparr>)"

definition afterFork :: "int \<Rightarrow> thread_locals \<Rightarrow> thread_locals" where
  "afterFork gettid loc = snd (current_tid gettid (loc\<lparr>t_cachedTid := 0, t_threadName := ''main''\<rparr>))"

definition ThreadNameInitializer :: "int \<Rightarrow> thread_locals \<Rightarrow> thread_locals" where
  "ThreadNameInitializer gettid loc = snd (current_tid gettid (loc\<lparr>t_threadName := ''main''\<rparr>))"

section \<open>Thread\<close>

record 'f Thread =
  th_started :: bool
  th_joined :: bool
  th_pthreadId :: int
  th_tid :: int
  th_func :: 'f
  th_name :: string
  th_latch :: CountDownLatch

definition setDefaultName :: "int \<Rightarrow> 'f Thread \<Rightarrow> int \<times> 'f Thread" where
  "setDefaultName numCreated th =
     (let (numCreated, num) = incrementAndGet numCreated
      in (numCreated,
          if th_name th = [] then th\<lparr>th_name := snprintf_to 32 (''Thread'' @ dec_int num)\<rparr> else th))"

definition Thread_new :: "'f \<Rightarrow> string \<Rightarrow> int \<Rightarrow> int \<times> 'f Thread" where
  "Thread_new func n numCreated =
     setDefaultName numCreated \<lparr>th_started = False, th_joined = False, th_pthreadId = 0, th_tid = 0,
       th_func = func, th_name = n, th_latch = CountDownLatch_new 1\<rparr>"

text \<open>What the thread does up to \<open>func_\<close>; how \<open>func_\<close> ends decides how the thread ends.\<close>

definition announce :: "int \<Rightarrow> thread_locals \<Rightarrow> 'f Thread \<Rightarrow> (thread_locals \<times> 'f Thread) res" where
  "announce gettid loc th =
     (let (t, loc) = current_tid gettid loc; th = th\<lparr>th_tid := t\<rparr>
      in case countDown (th_latch th) of
           Done l r ns \<Rightarrow>
             Inr (loc\<lparr>t_threadName := (if th_name th = [] then ''g5c_thread'' else th_name th)\<rparr>, th\<lparr>th_latch := l\<rparr>)
         | Failed e \<Rightarrow> Inl e
         | Wait_on c \<Rightarrow> Inl Undefined)"

datatype func_outcome = Func_returns | Throws_Exception | Throws_std_exception | Throws_other

datatype thread_end = Thread_ends | Thread_aborts | Thread_rethrows

definition runInThread_end :: "func_outcome \<Rightarrow> thread_locals \<Rightarrow> thread_end \<times> thread_locals" where
  "runInThread_end f loc =
     (case f of
        Func_returns \<Rightarrow> (Thread_ends, loc\<lparr>t_threadName := ''finished''\<rparr>)
      | Throws_Exception \<Rightarrow> (Thread_aborts, loc\<lparr>t_threadName := ''crashed''\<rparr>)
      | Throws_std_exception \<Rightarrow> (Thread_aborts, loc\<lparr>t_threadName := ''crashed''\<rparr>)
      | Throws_other \<Rightarrow> (Thread_rethrows, loc\<lparr>t_threadName := ''crashed''\<rparr>))"

text \<open>
  \<open>created\<close> is the handle of the new thread and its \<open>gettid\<close>, or \<open>None\<close> when
  \<open>pthread_create\<close> fails. A wait that could not end would be \<open>Undefined\<close>.
\<close>

definition Thread_start :: "(int \<times> int) option \<Rightarrow> 'f Thread \<Rightarrow> 'f Thread res" where
  "Thread_start created th =
     cassert (\<not> th_started th)
       (let th = th\<lparr>th_started := True\<rparr>
        in case created of
             None \<Rightarrow> Inr (th\<lparr>th_started := False\<rparr>)
           | Some (pthreadId, gettid) \<Rightarrow>
               bind_r (announce gettid thread_locals_new (th\<lparr>th_pthreadId := pthreadId\<rparr>)) (\<lambda>(loc, th).
                 case latch_wait (th_latch th) of
                   Done l r ns \<Rightarrow> cassert (0 < th_tid th) (Inr (th\<lparr>th_latch := l\<rparr>))
                 | _ \<Rightarrow> Inl Undefined))"

definition Thread_join :: "int \<Rightarrow> 'f Thread \<Rightarrow> (int \<times> 'f Thread) res" where
  "Thread_join pthread_join th =
     cassert (th_started th) (cassert (\<not> th_joined th) (Inr (pthread_join, th\<lparr>th_joined := True\<rparr>)))"

text \<open>The handle the destructor detaches, if any.\<close>

definition Thread_delete :: "'f Thread \<Rightarrow> int option" where
  "Thread_delete th = (if th_started th \<and> \<not> th_joined th then Some (th_pthreadId th) else None)"

lemma announce_fresh:
  assumes "count (th_latch th) = 1"
  shows "\<exists>loc. announce g thread_locals_new th = Inr (loc, th\<lparr>th_tid := g, th_latch := \<lparr>count = 0\<rparr>\<rparr>)"
proof -
  have "th_latch th = \<lparr>count = 1\<rparr>" using assms by (cases "th_latch th") simp
  then show ?thesis
    by (simp add: announce_def current_tid_def cacheTid_def thread_locals_new_def countDown_def in32_def Let_def)
qed

lemma start_join:
  assumes "Thread_new func n created_before = (created_after, th)"
    and "\<And>h t. created = Some (h, t) \<Longrightarrow> 0 < t"
  shows "\<exists>th'. Thread_start created th = Inr th' \<and>
    (case created of
       None \<Rightarrow> th' = th \<and> Thread_join r th' = Inl AssertionFailed
     | Some (h, t) \<Rightarrow> th_started th' \<and> th_tid th' = t \<and> th_pthreadId th' = h \<and> count (th_latch th') = 0 \<and>
         (\<exists>th''. Thread_join r th' = Inr (r, th'') \<and> Thread_join r th'' = Inl AssertionFailed \<and> Thread_delete th'' = None))"
proof -
  have th: "\<not> th_started th" "\<not> th_joined th" "count (th_latch th) = 1"
    using assms(1) by (auto simp: Thread_new_def setDefaultName_def CountDownLatch_new_def Let_def split: if_splits prod.splits)
  show ?thesis
  proof (cases created)
    case None
    then show ?thesis
      using th by (auto simp: Thread_start_def Thread_join_def intro: Thread.equality)
  next
    case (Some ht)
    obtain h t where ht: "ht = (h, t)" by (cases ht)
    have "0 < t" using assms(2) Some ht by simp
    let ?th = "th\<lparr>th_started := True, th_pthreadId := h\<rparr>"
    from announce_fresh [of ?th t] th(3) obtain loc where
      "announce t thread_locals_new ?th = Inr (loc, ?th\<lparr>th_tid := t, th_latch := \<lparr>count = 0\<rparr>\<rparr>)" by auto
    with \<open>0 < t\<close> th have "Thread_start created th = Inr (?th\<lparr>th_tid := t, th_latch := \<lparr>count = 0\<rparr>\<rparr>)"
      by (simp add: Thread_start_def Some ht latch_wait_def)
    with th show ?thesis by (simp add: Some ht Thread_join_def Thread_delete_def)
  qed
qed

section \<open>Properties\<close>

text \<open>
  \<open>start\<close> of a fresh thread returns with the thread's positive id in place, or, when
  \<open>pthread_create\<close> failed, with the thread as it was, silently. After that \<open>join\<close> passes its
  assertions exactly when the creation succeeded, and only once.
\<close>

theorem thread_start_join:
  assumes "Thread_new func n created_before = (created_after, th)"
    and "\<And>h t. created = Some (h, t) \<Longrightarrow> 0 < t"
  shows "\<exists>th'. Thread_start created th = Inr th' \<and>
    (case created of
       None \<Rightarrow> th' = th \<and> Thread_join r th' = Inl AssertionFailed
     | Some (h, t) \<Rightarrow> th_started th' \<and> th_tid th' = t \<and> th_pthreadId th' = h \<and> count (th_latch th') = 0 \<and>
         (\<exists>th''. Thread_join r th' = Inr (r, th'') \<and> Thread_join r th'' = Inl AssertionFailed \<and> Thread_delete th'' = None))"
  by (rule start_join [OF assms])

theorem thread_start_join_witness:
  "\<exists>th th'. Thread_new () [] 4 = (5, th) \<and> th_name th = ''Thread5'' \<and> Thread_start (Some (99, 1234)) th = Inr th' \<and>
    th_tid th' = 1234"
proof -
  define th where "th = snd (Thread_new () [] 4)"
  have "fst (Thread_new () [] 4) = 5" "th_name (snd (Thread_new () [] 4)) = ''Thread5''" by code_simp+
  then have th: "Thread_new () [] 4 = (5, th)" "th_name th = ''Thread5''"
    by (simp_all add: th_def prod_eq_iff)
  with thread_start_join [OF th(1), of "Some (99, 1234)"] show ?thesis by auto
qed

end
