(* ===== verification/ThreadPool.thy ===== *)
theory ThreadPool
  imports Thread "HOL-Library.Multiset"
begin

text \<open>
  \<open>base::ThreadPool\<close> (src/base/ThreadPool.h, ThreadPool.cc): the monitor with its two conditions,
  and the loop of the workers around it. A task is a name, an empty \<open>std::function\<close> is
  \<open>None\<close>. Tasks are started, what they do is not part of the model.
\<close>

section \<open>The monitor\<close>

record 'f ThreadPool =
  tp_queue :: "'f option list"
  maxQueueSize :: nat
  tp_running :: bool
  tp_threads :: nat

definition ThreadPool_new :: "'f ThreadPool" where
  "ThreadPool_new = \<lparr>tp_queue = [], maxQueueSize = 0, tp_running = False, tp_threads = 0\<rparr>"

definition setMaxQueueSize :: "int \<Rightarrow> 'f ThreadPool \<Rightarrow> 'f ThreadPool" where
  "setMaxQueueSize maxSize p = p\<lparr>maxQueueSize := nat (maxSize mod 2 ^ 64)\<rparr>"

text \<open>
  The loop of \<open>start\<close> and the joins of \<open>stop\<close>. What \<open>pthread_create\<close> gives for each
  worker is an argument. The last component of \<open>start\<close>'s result tells whether the init callback
  has been called in the caller.
\<close>

fun start_workers ::
  "string \<Rightarrow> (nat \<Rightarrow> (int \<times> int) option) \<Rightarrow> nat list \<Rightarrow> int \<Rightarrow> (int \<times> unit Thread list) res" where
  "start_workers name created [] num = Inr (num, [])"
| "start_workers name created (i # is) num =
     (let id = snprintf_to 32 (dec_int (add32 (int i) 1));
          (num, th) = Thread_new () (name @ id) num
      in bind_r (Thread_start (created i) th) (\<lambda>th.
         bind_r (start_workers name created is num) (\<lambda>(num, ths). Inr (num, th # ths))))"

definition pool_start ::
  "string \<Rightarrow> (nat \<Rightarrow> (int \<times> int) option) \<Rightarrow> bool \<Rightarrow> int \<Rightarrow> int \<Rightarrow> 'f ThreadPool \<Rightarrow>
    (int \<times> unit Thread list \<times> 'f ThreadPool \<times> bool) res" where
  "pool_start name created has_init numThreads num p =
     cassert (tp_threads p = 0)
       (let p = p\<lparr>tp_running := True\<rparr>
        in if numThreads < 0 then Inl LengthError
           else bind_r (start_workers name created [0..<nat numThreads] num) (\<lambda>(num, ths).
             Inr (num, ths, p\<lparr>tp_threads := length ths\<rparr>, numThreads = 0 \<and> has_init)))"

fun join_workers :: "unit Thread list \<Rightarrow> unit Thread list res" where
  "join_workers [] = Inr []"
| "join_workers (th # ths) =
     bind_r (Thread_join 0 th) (\<lambda>(r, th). bind_r (join_workers ths) (\<lambda>ths. Inr (th # ths)))"

text \<open>Whether the destructor calls \<open>stop\<close>.\<close>

definition pool_delete_stops :: "'f ThreadPool \<Rightarrow> bool" where
  "pool_delete_stops p = tp_running p"

datatype pool_condition = NotEmpty | NotFull

datatype 'f pool_op = Pool_run "'f option" | Pool_take | Pool_stop | Pool_size

datatype 'f pool_result = Ran_here "'f option" | Rejected | Accepted | Taken "'f option" | Stopped | Size nat

type_synonym 'f pool_outcome = "('f ThreadPool, pool_condition, 'f pool_result) outcome"

definition isFull :: "'f ThreadPool \<Rightarrow> bool" where
  "isFull p \<longleftrightarrow> 0 < maxQueueSize p \<and> maxQueueSize p \<le> length (tp_queue p)"

definition pool_run_task :: "'f option \<Rightarrow> 'f ThreadPool \<Rightarrow> 'f pool_outcome" where
  "pool_run_task task p =
     (if tp_threads p = 0 then Done p (Ran_here task) []
      else if isFull p \<and> tp_running p then Wait_on NotFull
      else if \<not> tp_running p then Done p Rejected []
      else if isFull p then Failed AssertionFailed
      else Done (p\<lparr>tp_queue := tp_queue p @ [task]\<rparr>) Accepted [Notify NotEmpty])"

definition pool_take :: "'f ThreadPool \<Rightarrow> 'f pool_outcome" where
  "pool_take p =
     (if tp_queue p = [] \<and> tp_running p then Wait_on NotEmpty
      else if tp_queue p \<noteq> []
      then Done (p\<lparr>tp_queue := tl (tp_queue p)\<rparr>) (Taken (hd (tp_queue p)))
             (if 0 < maxQueueSize p then [Notify NotFull] else [])
      else Done p (Taken None) [])"

text \<open>The guarded part of \<open>stop\<close>; the joins come after it.\<close>

definition pool_stop :: "'f ThreadPool \<Rightarrow> 'f pool_outcome" where
  "pool_stop p = Done (p\<lparr>tp_running := False\<rparr>) Stopped [NotifyAll NotEmpty, NotifyAll NotFull]"

definition pool_queueSize :: "'f ThreadPool \<Rightarrow> 'f pool_outcome" where
  "pool_queueSize p = Done p (Size (length (tp_queue p))) []"

text \<open>
  How the function of a worker ends, when the init callback or a task ends in this way; what it
  rethrows reaches the handlers of the thread that runs it.
\<close>

definition pool_runInThread_end :: "func_outcome \<Rightarrow> thread_end" where
  "pool_runInThread_end f =
     (case f of
        Func_returns \<Rightarrow> Thread_ends
      | Throws_Exception \<Rightarrow> Thread_aborts
      | Throws_std_exception \<Rightarrow> Thread_aborts
      | Throws_other \<Rightarrow> Thread_rethrows)"

definition worker_end :: "func_outcome \<Rightarrow> thread_locals \<Rightarrow> thread_end \<times> thread_locals" where
  "worker_end f loc =
     (case pool_runInThread_end f of
        Thread_ends \<Rightarrow> runInThread_end Func_returns loc
      | Thread_aborts \<Rightarrow> (Thread_aborts, loc)
      | Thread_rethrows \<Rightarrow> runInThread_end Throws_other loc)"

lemma worker_end_iff: "fst (worker_end f loc) = Thread_ends \<longleftrightarrow> f = Func_returns"
  by (cases f) (simp_all add: worker_end_def pool_runInThread_end_def runInThread_end_def)

fun pool_exec :: "'f pool_op \<Rightarrow> 'f ThreadPool \<Rightarrow> 'f pool_outcome" where
  "pool_exec (Pool_run task) p = pool_run_task task p"
| "pool_exec Pool_take p = pool_take p"
| "pool_exec Pool_stop p = pool_stop p"
| "pool_exec Pool_size p = pool_queueSize p"

lemmas pool_defs = pool_run_task_def pool_take_def pool_stop_def pool_queueSize_def

definition pool_ok :: "'f ThreadPool \<Rightarrow> bool" where
  "pool_ok p \<longleftrightarrow> (0 < maxQueueSize p \<longrightarrow> length (tp_queue p) \<le> maxQueueSize p)"

lemma pool_exec_ok: "pool_ok p \<Longrightarrow> pool_exec op p = Done p' r ns \<Longrightarrow> pool_ok p'"
  by (cases op) (auto simp: pool_ok_def pool_defs isFull_def split: if_splits)

interpretation pool_notEmpty: condition pool_exec NotEmpty "\<lambda>op. op = Pool_take" "\<lambda>p. length (tp_queue p)"
  "\<lambda>p. \<not> tp_running p" pool_ok
proof unfold_locales
  fix s :: "'f ThreadPool" and op
  assume "pool_exec op s = Wait_on NotEmpty"
  then show "op = Pool_take \<and> length (tp_queue s) = 0 \<and> \<not> \<not> tp_running s"
    by (cases op) (auto simp: pool_defs split: if_splits)
next
  fix s s' :: "'f ThreadPool" and op r ns
  assume "pool_exec op s = Done s' r ns" "NotifyAll NotEmpty \<notin> set ns" "\<not> \<not> tp_running s"
  then show "\<not> \<not> tp_running s' \<and> length (tp_queue s') + (if op = Pool_take then 1 else 0) \<le>
      length (tp_queue s) + count_list ns (Notify NotEmpty)"
    by (cases op) (auto simp: pool_defs split: if_splits)
next
  fix s :: "'f ThreadPool" and op d
  assume "pool_exec op s = Wait_on d" "op = Pool_take"
  then show "d = NotEmpty" by (auto simp: pool_defs split: if_splits)
qed (rule pool_exec_ok)

interpretation pool_notFull: condition pool_exec NotFull "\<lambda>op. \<exists>task. op = Pool_run task"
  "\<lambda>p. maxQueueSize p - length (tp_queue p)" "\<lambda>p. \<not> tp_running p \<or> maxQueueSize p = 0 \<or> tp_threads p = 0" pool_ok
proof unfold_locales
  fix s :: "'f ThreadPool" and op
  assume "pool_exec op s = Wait_on NotFull"
  then show "(\<exists>task. op = Pool_run task) \<and> maxQueueSize s - length (tp_queue s) = 0 \<and>
      \<not> (\<not> tp_running s \<or> maxQueueSize s = 0 \<or> tp_threads s = 0)"
    by (cases op) (auto simp: pool_defs isFull_def split: if_splits)
next
  fix s s' :: "'f ThreadPool" and op r ns
  assume "pool_exec op s = Done s' r ns" "NotifyAll NotFull \<notin> set ns"
    "\<not> (\<not> tp_running s \<or> maxQueueSize s = 0 \<or> tp_threads s = 0)"
  then show "\<not> (\<not> tp_running s' \<or> maxQueueSize s' = 0 \<or> tp_threads s' = 0) \<and>
      maxQueueSize s' - length (tp_queue s') + (if \<exists>task. op = Pool_run task then 1 else 0) \<le>
      maxQueueSize s - length (tp_queue s) + count_list ns (Notify NotFull)"
    by (cases op) (auto simp: pool_defs isFull_def split: if_splits)
next
  fix s :: "'f ThreadPool" and op d
  assume "pool_exec op s = Wait_on d" "\<exists>task. op = Pool_run task"
  then show "d = NotFull" by (auto simp: pool_defs split: if_splits)
qed (rule pool_exec_ok)

section \<open>The workers\<close>

text \<open>
  \<open>runInThread\<close>: the threads below \<open>n\<close> test \<open>running_\<close> without the lock, take, run what they
  took, and test again. The other threads are the callers of \<open>run\<close>, \<open>stop\<close> and
  \<open>queueSize\<close>.
\<close>

datatype 'f worker = Testing | Taking | Holding "'f option" | Exited

record 'f Pool =
  pmon :: "('f ThreadPool, pool_condition, 'f pool_op) Monitor"
  workers :: "nat \<Rightarrow> 'f worker"
  executed :: "'f list"
  accepted :: "'f option list"

inductive pool_step :: "nat \<Rightarrow> nat \<Rightarrow> 'f Pool \<Rightarrow> 'f Pool \<Rightarrow> bool" for n where
  loop_again: "t < n \<Longrightarrow> workers p t = Testing \<Longrightarrow> tp_running (shared (pmon p)) \<Longrightarrow>
     mon_step pool_exec (pmon p) (Call t Pool_take) m \<Longrightarrow>
     pool_step n t p (p\<lparr>pmon := m, workers := (workers p)(t := Taking)\<rparr>)"
| loop_ends: "t < n \<Longrightarrow> workers p t = Testing \<Longrightarrow> \<not> tp_running (shared (pmon p)) \<Longrightarrow>
     pool_step n t p (p\<lparr>workers := (workers p)(t := Exited)\<rparr>)"
| waiting: "t < n \<Longrightarrow> workers p t = Taking \<Longrightarrow> e = Sleep t \<or> e = Wake t \<Longrightarrow>
     mon_step pool_exec (pmon p) e m \<Longrightarrow> pool_step n t p (p\<lparr>pmon := m\<rparr>)"
| taken: "t < n \<Longrightarrow> workers p t = Taking \<Longrightarrow> mon_step pool_exec (pmon p) (Return t Pool_take (Taken x)) m \<Longrightarrow>
     pool_step n t p (p\<lparr>pmon := m, workers := (workers p)(t := Holding x)\<rparr>)"
| run: "t < n \<Longrightarrow> workers p t = Holding x \<Longrightarrow>
     pool_step n t p (p\<lparr>workers := (workers p)(t := Testing),
       executed := executed p @ (case x of None \<Rightarrow> [] | Some f \<Rightarrow> [f])\<rparr>)"
| client: "n \<le> event_thread e \<Longrightarrow> (\<And>t. e \<noteq> Call t Pool_take) \<Longrightarrow> mon_step pool_exec (pmon p) e m \<Longrightarrow>
     pool_step n (event_thread e) p (p\<lparr>pmon := m,
       accepted := accepted p @ (case e of Return t (Pool_run task) Accepted \<Rightarrow> [task] | _ \<Rightarrow> [])\<rparr>)"

definition pool_init :: "'f ThreadPool \<Rightarrow> 'f Pool" where
  "pool_init s = \<lparr>pmon = \<lparr>shared = s, threads = \<lambda>_. Away\<rparr>, workers = \<lambda>_. Testing, executed = [], accepted = tp_queue s\<rparr>"

inductive pool_reach :: "nat \<Rightarrow> 'f ThreadPool \<Rightarrow> 'f Pool \<Rightarrow> bool" for n s where
  init: "pool_reach n s (pool_init s)"
| step: "pool_reach n s p \<Longrightarrow> pool_step n t p p' \<Longrightarrow> pool_reach n s p'"

text \<open>The monitor of a reachable pool is the state of a run of the monitor.\<close>

lemma pool_step_mon: "pool_step n t p p' \<Longrightarrow> pmon p' = pmon p \<or> (\<exists>e. mon_step pool_exec (pmon p) e (pmon p'))"
  by (induction rule: pool_step.induct) auto

lemma pool_reach_run:
  assumes "pool_reach n s p"
  shows "\<exists>es. mon_run pool_exec s es (pmon p)"
  using assms
proof (induction rule: pool_reach.induct)
  case init
  show ?case by (auto simp: pool_init_def intro: mon_run.init)
next
  case (step p t p')
  from pool_step_mon [OF step.hyps(2)] step.IH show ?case by (auto intro: mon_run.step)
qed

section \<open>Tasks are neither lost nor duplicated\<close>

definition tasks :: "'f option list \<Rightarrow> 'f list" where
  "tasks xs = concat (map (\<lambda>x. case x of None \<Rightarrow> [] | Some f \<Rightarrow> [f]) xs)"

lemma tasks_simps [simp]:
  "tasks [] = []" "tasks (None # xs) = tasks xs" "tasks (Some f # xs) = f # tasks xs" "tasks (xs @ ys) = tasks xs @ tasks ys"
  by (simp_all add: tasks_def)

fun held :: "'f worker \<Rightarrow> 'f multiset" where
  "held (Holding (Some f)) = {#f#}"
| "held _ = {#}"

definition pool_inv :: "nat \<Rightarrow> 'f ThreadPool \<Rightarrow> 'f Pool \<Rightarrow> bool" where
  "pool_inv n s p \<longleftrightarrow>
     (\<forall>t < n. op_of (threads (pmon p) t) = (if workers p t = Taking then Some Pool_take else None)) \<and>
     (\<forall>t \<ge> n. op_of (threads (pmon p) t) \<noteq> Some Pool_take) \<and>
     mset (tasks (accepted p)) =
       mset (executed p) + (\<Sum>t<n. held (workers p t)) + mset (tasks (tp_queue (shared (pmon p)))) \<and>
     maxQueueSize (shared (pmon p)) = maxQueueSize s \<and> tp_threads (shared (pmon p)) = tp_threads s"

lemma sum_update:
  fixes f :: "'a \<Rightarrow> 'b multiset" and t n :: nat
  assumes "t < n"
  shows "(\<Sum>u<n. f ((w(t := x)) u)) + f (w t) = (\<Sum>u<n. f (w u)) + f x"
proof -
  have "(\<Sum>u \<in> {..<n} - {t}. f ((w(t := x)) u)) = (\<Sum>u \<in> {..<n} - {t}. f (w u))"
    by (rule sum.cong) auto
  moreover have "(\<Sum>u<n. g u) = g t + (\<Sum>u \<in> {..<n} - {t}. g u)" for g :: "nat \<Rightarrow> 'b multiset"
    by (rule sum.remove) (simp_all add: assms)
  ultimately show ?thesis by (metis (no_types, lifting) add.assoc add.commute fun_upd_same)
qed

lemma worker_tasks:
  fixes t n :: nat
  assumes "t < n" "M = E + (\<Sum>u<n. held (w u)) + Q" "E' + held x + Q' = E + held (w t) + Q"
  shows "M = E' + (\<Sum>u<n. held ((w(t := x)) u)) + Q'"
proof -
  have "M + held (w t) = E + held (w t) + Q + (\<Sum>u<n. held (w u))" using assms(2) by (simp add: ac_simps)
  also have "\<dots> = E' + Q' + ((\<Sum>u<n. held (w u)) + held x)" using assms(3) by (simp add: ac_simps)
  also have "\<dots> = E' + Q' + ((\<Sum>u<n. held ((w(t := x)) u)) + held (w t))" using sum_update [OF assms(1), of held w x] by simp
  finally show ?thesis by (simp add: ac_simps)
qed

lemma client_tasks:
  assumes "pool_exec op s = Done s' r ns" "op \<noteq> Pool_take"
  shows "tasks (tp_queue s') = tasks (tp_queue s) @ tasks (case (op, r) of (Pool_run task, Accepted) \<Rightarrow> [task] | _ \<Rightarrow> []) \<and>
    maxQueueSize s' = maxQueueSize s \<and> tp_threads s' = tp_threads s"
  using assms by (cases op) (auto simp: pool_defs split: if_splits)

lemma take_tasks:
  assumes "pool_exec Pool_take s = Done s' (Taken x) ns"
  shows "mset (tasks (tp_queue s)) = held (Holding x) + mset (tasks (tp_queue s')) \<and>
    maxQueueSize s' = maxQueueSize s \<and> tp_threads s' = tp_threads s"
proof (cases "tp_queue s")
  case (Cons y ys)
  with assms show ?thesis by (cases y) (auto simp: pool_defs)
qed (use assms in \<open>auto simp: pool_defs split: if_splits\<close>)

lemma pool_inv_step:
  assumes inv: "pool_inv n s p" and "pool_step n t p p'"
  shows "pool_inv n s p'"
  using assms(2)
proof (cases rule: pool_step.cases)
  case (loop_again m)
  note o = mon_step_op_of [OF loop_again(5)] and sh = mon_step_shared [OF loop_again(5)]
  have "mset (tasks (accepted p)) = mset (executed p) +
      (\<Sum>u<n. held (((workers p)(t := Taking)) u)) + mset (tasks (tp_queue (shared m)))"
    by (rule worker_tasks [OF loop_again(2)]) (use inv sh loop_again(3) in \<open>auto simp: pool_inv_def\<close>)
  with inv o sh loop_again(1,2) show ?thesis by (auto simp: pool_inv_def)
next
  case loop_ends
  have "mset (tasks (accepted p)) = mset (executed p) +
      (\<Sum>u<n. held (((workers p)(t := Exited)) u)) + mset (tasks (tp_queue (shared (pmon p))))"
    by (rule worker_tasks [OF loop_ends(2)]) (use inv loop_ends(3) in \<open>auto simp: pool_inv_def\<close>)
  with inv loop_ends(1-3) show ?thesis by (auto simp: pool_inv_def)
next
  case (waiting e m)
  note o = mon_step_op_of [OF waiting(5)] and sh = mon_step_shared [OF waiting(5)]
  have "op_of (threads m u) = op_of (threads (pmon p) u)" for u using o [of u] waiting(4) by auto
  moreover have "shared m = shared (pmon p)" using sh waiting(4) by auto
  ultimately show ?thesis using inv waiting(1) by (simp add: pool_inv_def)
next
  case (taken x m)
  note o = mon_step_op_of [OF taken(4)]
  from mon_step_shared [OF taken(4)] obtain ns where
    "pool_exec Pool_take (shared (pmon p)) = Done (shared m) (Taken x) ns" by auto
  note q = take_tasks [OF this]
  have "mset (tasks (accepted p)) = mset (executed p) +
      (\<Sum>u<n. held (((workers p)(t := Holding x)) u)) + mset (tasks (tp_queue (shared m)))"
    by (rule worker_tasks [OF taken(2)]) (use inv q taken(3) in \<open>auto simp: pool_inv_def\<close>)
  with inv o q taken(1,2) show ?thesis by (auto simp: pool_inv_def)
next
  case (run x)
  have "mset (tasks (accepted p)) = mset (executed p @ (case x of None \<Rightarrow> [] | Some f \<Rightarrow> [f])) +
      (\<Sum>u<n. held (((workers p)(t := Testing)) u)) + mset (tasks (tp_queue (shared (pmon p))))"
    by (rule worker_tasks [OF run(2)]) (use inv run(3) in \<open>auto simp: pool_inv_def split: option.split\<close>)
  with inv run(1-3) show ?thesis by (auto simp: pool_inv_def)
next
  case (client e m)
  note o = mon_step_op_of [OF client(5)]
  have ops: "op_of (threads m u) = op_of (threads (pmon p) u)" if "u < n" for u
    using o [of u] that client(3) by auto
  have no_take: "op_of (threads m u) \<noteq> Some Pool_take" if "n \<le> u" for u
    using o [of u] that inv client(4) by (cases e) (auto simp: pool_inv_def split: if_splits)
  have "tasks (tp_queue (shared m)) = tasks (tp_queue (shared (pmon p))) @
      tasks (case e of Return t (Pool_run task) Accepted \<Rightarrow> [task] | _ \<Rightarrow> []) \<and>
    maxQueueSize (shared m) = maxQueueSize (shared (pmon p)) \<and> tp_threads (shared m) = tp_threads (shared (pmon p))"
  proof (cases e)
    case (Return u op r)
    with mon_step_shared [OF client(5)] obtain ns where
      r: "threads (pmon p) u = Ready op" "pool_exec op (shared (pmon p)) = Done (shared m) r ns" by auto
    have "op \<noteq> Pool_take" using inv r(1) client(3) Return by (auto simp: pool_inv_def)
    from client_tasks [OF r(2) this] Return show ?thesis by (auto split: pool_op.splits pool_result.splits)
  qed (use mon_step_shared [OF client(5)] in auto)
  with inv ops no_take client(2) show ?thesis by (auto simp: pool_inv_def)
qed


lemma pool_reach_inv:
  assumes "pool_reach n s p"
  shows "pool_inv n s p"
  using assms
proof (induction rule: pool_reach.induct)
  case init
  show ?case by (simp add: pool_inv_def pool_init_def)
next
  case (step p t p')
  then show ?case by (intro pool_inv_step [OF _ step.hyps(2)])
qed

section \<open>A small pool\<close>

text \<open>One worker, thread 0, and a queue of one; thread 1 is the caller.\<close>

definition demo_pool :: "nat ThreadPool" where
  "demo_pool = \<lparr>tp_queue = [], maxQueueSize = 1, tp_running = True, tp_threads = 1\<rparr>"

lemma demo_pool_started:
  "\<exists>ths. pool_start ''pool'' (\<lambda>i. Some (int i + 50, int i + 100)) False 1 0 (setMaxQueueSize 1 ThreadPool_new) =
     Inr (1, ths, demo_pool, False)"
  by (simp add: pool_start_def setMaxQueueSize_def ThreadPool_new_def demo_pool_def Let_def Thread_new_def
      setDefaultName_def incrementAndGet_def addAndGet_def getAndAdd_def add32_def Thread_start_def announce_def
      current_tid_def cacheTid_def thread_locals_new_def countDown_def latch_wait_def CountDownLatch_new_def in32_def)

lemma client_sched:
  assumes "pool_reach n s \<lparr>pmon = \<lparr>shared = sh, threads = th_of l\<rparr>, workers = w, executed = ex, accepted = ac\<rparr>"
    and "sched1 pool_exec mv (sh, l) = Some (e, sh', l')" "n \<le> event_thread e" "\<And>t. e \<noteq> Call t Pool_take"
  shows "pool_reach n s \<lparr>pmon = \<lparr>shared = sh', threads = th_of l'\<rparr>, workers = w, executed = ex,
    accepted = ac @ (case e of Return t (Pool_run task) Accepted \<Rightarrow> [task] | _ \<Rightarrow> [])\<rparr>"
proof -
  let ?p = "\<lparr>pmon = \<lparr>shared = sh, threads = th_of l\<rparr>, workers = w, executed = ex, accepted = ac\<rparr>"
  from pool_step.client [of n e ?p, OF assms(3,4)] sched1_step [OF assms(2)]
  have "pool_step n (event_thread e) ?p \<lparr>pmon = \<lparr>shared = sh', threads = th_of l'\<rparr>, workers = w, executed = ex,
    accepted = ac @ (case e of Return t (Pool_run task) Accepted \<Rightarrow> [task] | _ \<Rightarrow> [])\<rparr>" by auto
  with assms(1) show ?thesis by (rule pool_reach.step)
qed

lemma demo_pool_init:
  "pool_reach 1 demo_pool \<lparr>pmon = \<lparr>shared = demo_pool, threads = th_of [Away, Away]\<rparr>, workers = \<lambda>_. Testing, executed = [], accepted = []\<rparr>"
proof -
  have "th_of [Away, Away] = (\<lambda>_. Away :: (pool_condition, nat pool_op) status)"
    by (auto simp: th_of_def less_Suc_eq)
  then show ?thesis using pool_reach.init [of 1 demo_pool] by (simp add: pool_init_def demo_pool_def)
qed

text \<open>The caller has queued a task, and has stopped the pool.\<close>

lemma demo_pool_queued:
  "pool_reach 1 demo_pool \<lparr>pmon = \<lparr>shared = demo_pool\<lparr>tp_queue := [Some 5]\<rparr>, threads = th_of [Away, Away]\<rparr>,
     workers = \<lambda>_. Testing, executed = [], accepted = [Some 5]\<rparr>"
  using client_sched [OF client_sched [OF demo_pool_init, of "Enter 1 (Pool_run (Some 5))" "Call 1 (Pool_run (Some 5))"
      demo_pool "[Away, Ready (Pool_run (Some 5))]"], of "Attempt 1" "Return 1 (Pool_run (Some 5)) Accepted"
      "demo_pool\<lparr>tp_queue := [Some 5]\<rparr>" "[Away, Away]"]
  by (simp add: demo_pool_def pool_defs isFull_def)

lemma demo_pool_stopped:
  "pool_reach 1 demo_pool \<lparr>pmon = \<lparr>shared = demo_pool\<lparr>tp_queue := [Some 5], tp_running := False\<rparr>, threads = th_of [Away, Away]\<rparr>,
     workers = \<lambda>_. Testing, executed = [], accepted = [Some 5]\<rparr>"
  using client_sched [OF client_sched [OF demo_pool_queued, of "Enter 1 Pool_stop" "Call 1 Pool_stop"
      "demo_pool\<lparr>tp_queue := [Some 5]\<rparr>" "[Away, Ready Pool_stop]"], of "Attempt 1" "Return 1 Pool_stop Stopped"
      "demo_pool\<lparr>tp_queue := [Some 5], tp_running := False\<rparr>" "[Away, Away]"]
  by (simp add: demo_pool_def pool_defs)

text \<open>The worker sleeps on the empty queue.\<close>

lemma demo_pool_asleep:
  "pool_reach 1 demo_pool \<lparr>pmon = \<lparr>shared = demo_pool, threads = th_of [Blocked NotEmpty Pool_take, Away]\<rparr>,
     workers = (\<lambda>_. Testing)(0 := Taking), executed = [], accepted = []\<rparr>"
proof -
  let ?p0 = "\<lparr>pmon = \<lparr>shared = demo_pool, threads = th_of [Away, Away]\<rparr>, workers = \<lambda>_. Testing, executed = [], accepted = []\<rparr>"
  let ?m1 = "\<lparr>shared = demo_pool, threads = th_of [Ready Pool_take, Away]\<rparr>"
  let ?m2 = "\<lparr>shared = demo_pool, threads = th_of [Blocked NotEmpty Pool_take, Away]\<rparr>"
  have "mon_step pool_exec (pmon ?p0) (Call 0 Pool_take) ?m1"
    by (simp, rule sched1_step [of _ "Enter 0 Pool_take"]) simp
  from pool_step.loop_again [of 0 1 ?p0, OF _ _ _ this]
  have 1: "pool_step 1 0 ?p0 (?p0\<lparr>pmon := ?m1, workers := (\<lambda>_. Testing)(0 := Taking)\<rparr>)" by (simp add: demo_pool_def)
  have "mon_step pool_exec ?m1 (Sleep 0) ?m2"
    by (rule sched1_step [of _ "Attempt 0"]) (simp add: pool_defs demo_pool_def)
  with pool_step.waiting [of 0 1 "?p0\<lparr>pmon := ?m1, workers := (\<lambda>_. Testing)(0 := Taking)\<rparr>" "Sleep 0" ?m2]
  have "pool_step 1 0 (?p0\<lparr>pmon := ?m1, workers := (\<lambda>_. Testing)(0 := Taking)\<rparr>)
      (?p0\<lparr>pmon := ?m2, workers := (\<lambda>_. Testing)(0 := Taking)\<rparr>)" by simp
  from pool_reach.step [OF pool_reach.step [OF demo_pool_init 1] this] show ?thesis by simp
qed

section \<open>Properties\<close>

text \<open>
  C13. No task is lost, duplicated or invented: in every state of a pool of \<open>n\<close> workers, whatever the
  interleaving, the tasks that \<open>run\<close> has queued are exactly those that were run, those a worker
  has taken and not yet run, and those still in the queue.
\<close>

theorem pool_tasks_conserved:
  assumes "pool_reach n s p"
  shows "mset (tasks (accepted p)) =
    mset (executed p) + (\<Sum>t<n. held (workers p t)) + mset (tasks (tp_queue (shared (pmon p))))"
  using pool_reach_inv [OF assms] by (simp add: pool_inv_def)

theorem pool_tasks_conserved_witness:
  "\<exists>p :: nat Pool. pool_reach 1 demo_pool p \<and> tasks (accepted p) = [5] \<and>
    mset (tasks (accepted p)) =
      mset (executed p) + (\<Sum>t<1. held (workers p t)) + mset (tasks (tp_queue (shared (pmon p))))"
  by (rule exI, intro conjI, rule demo_pool_queued, simp, rule pool_tasks_conserved, rule demo_pool_queued)

text \<open>
  A bound on the queue is kept: with \<open>maxQueueSize_ > 0\<close> the queue never grows past it, and the
  assertion of \<open>run\<close> never fails.
\<close>

theorem pool_queue_bounded:
  assumes "pool_reach n s p" "tp_queue s = []" "0 < maxQueueSize s"
  shows "length (tp_queue (shared (pmon p))) \<le> maxQueueSize s \<and> pool_exec op (shared (pmon p)) \<noteq> Failed e"
proof -
  from pool_reach_run [OF assms(1)] obtain es where "mon_run pool_exec s es (pmon p)" by blast
  moreover have "pool_ok s" using assms(2) by (simp add: pool_ok_def)
  ultimately have "pool_ok (shared (pmon p))" using pool_notEmpty.run_no_lost_wakeup by blast
  moreover have "maxQueueSize (shared (pmon p)) = maxQueueSize s"
    using pool_reach_inv [OF assms(1)] by (simp add: pool_inv_def)
  moreover have "pool_exec op (shared (pmon p)) \<noteq> Failed e" by (cases op) (auto simp: pool_defs)
  ultimately show ?thesis using assms(3) by (auto simp: pool_ok_def)
qed

theorem pool_queue_bounded_witness:
  "\<exists>p. pool_reach 1 demo_pool p \<and> length (tp_queue (shared (pmon p))) = 1 \<and> length (tp_queue (shared (pmon p))) \<le> 1"
proof -
  have s: "tp_queue demo_pool = []" "0 < maxQueueSize demo_pool" "maxQueueSize demo_pool = 1"
    by (simp_all add: demo_pool_def)
  from pool_queue_bounded [OF demo_pool_queued s(1,2)] s(3) demo_pool_queued show ?thesis by force
qed

text \<open>
  C14. Nobody sleeps in vain: a worker sleeps only while the pool runs, and if the queue is not empty then,
  another worker is awake to take; a caller of \<open>run\<close> sleeps only while the pool runs, and if
  the queue has room, another caller is awake to fill it.
\<close>

theorem pool_wakes:
  assumes "pool_reach n s p" "tp_queue s = []" "threads (pmon p) t = Blocked c op"
  shows "tp_running (shared (pmon p)) \<and>
    (c = NotEmpty \<longrightarrow> t < n \<and> workers p t = Taking \<and>
       (tp_queue (shared (pmon p)) \<noteq> [] \<longrightarrow> (\<exists>u < n. threads (pmon p) u = Ready Pool_take))) \<and>
    (c = NotFull \<longrightarrow> length (tp_queue (shared (pmon p))) < maxQueueSize s \<longrightarrow>
       (\<exists>u task. threads (pmon p) u = Ready (Pool_run task)))"
proof -
  from pool_reach_run [OF assms(1)] obtain es where r: "mon_run pool_exec s es (pmon p)" by blast
  have ok: "pool_ok s" using assms(2) by (simp add: pool_ok_def)
  have inv: "pool_inv n s p" by (rule pool_reach_inv [OF assms(1)])
  have n: "u < n" if "op_of (threads (pmon p) u) = Some Pool_take" for u
    using inv that unfolding pool_inv_def by (meson not_le)
  show ?thesis
  proof (cases c)
    case NotEmpty
    from pool_notEmpty.sleeper_justified [OF r ok assms(3) [unfolded NotEmpty]]
    have s: "tp_running (shared (pmon p))" "op = Pool_take"
      "tp_queue (shared (pmon p)) \<noteq> [] \<longrightarrow> (\<exists>u. threads (pmon p) u = Ready Pool_take)" by auto
    have t: "op_of (threads (pmon p) t) = Some Pool_take" using assms(3) s(2) by simp
    have "t < n" by (rule n [OF t])
    moreover have "workers p t = Taking"
      using inv t \<open>t < n\<close> by (auto simp: pool_inv_def split: if_splits)
    moreover have "\<exists>u < n. threads (pmon p) u = Ready Pool_take" if "threads (pmon p) u = Ready Pool_take" for u
      using n [of u] that by auto
    ultimately show ?thesis using s NotEmpty by blast
  next
    case NotFull
    from pool_notFull.sleeper_justified [OF r ok assms(3) [unfolded NotFull]] inv NotFull show ?thesis
      by (auto simp: pool_inv_def)
  qed
qed

theorem pool_wakes_witness:
  "\<exists>p. pool_reach 1 demo_pool p \<and> threads (pmon p) 0 = Blocked NotEmpty Pool_take \<and>
    tp_running (shared (pmon p)) \<and> workers p 0 = Taking"
proof -
  define p where "p = \<lparr>pmon = \<lparr>shared = demo_pool, threads = th_of [Blocked NotEmpty Pool_take, Away]\<rparr>,
     workers = (\<lambda>_. Testing)(0 := Taking), executed = [], accepted = []\<rparr>"
  have r: "pool_reach 1 demo_pool p" unfolding p_def by (rule demo_pool_asleep)
  have "threads (pmon p) 0 = Blocked NotEmpty Pool_take" by (simp add: p_def th_of_def)
  with pool_wakes [OF r _ this] r show ?thesis by (auto simp: demo_pool_def)
qed

text \<open>The steps a worker has before it leaves a pool that no longer runs.\<close>

fun to_exit :: "'f worker \<Rightarrow> nat" where
  "to_exit Exited = 0"
| "to_exit Testing = 1"
| "to_exit (Holding x) = 2"
| "to_exit Taking = 3"

text \<open>
  C15. \<open>stop\<close> can join its workers: once \<open>running_\<close> is false, each worker that has not left its
  loop can take a step by itself, every step of a worker brings it nearer to its exit, and when all
  of them have left, the tasks still in the queue are never run.
\<close>

theorem pool_stop_joins:
  assumes "pool_reach n s p" "tp_queue s = []" "\<not> tp_running (shared (pmon p))"
  shows "(\<forall>t < n. workers p t \<noteq> Exited \<longrightarrow> (\<exists>p'. pool_step n t p p')) \<and>
    (\<forall>t p'. t < n \<and> pool_step n t p p' \<longrightarrow> to_exit (workers p' t) < to_exit (workers p t)) \<and>
    (\<forall>t p'. (\<forall>u < n. workers p u = Exited) \<and> pool_step n t p p' \<longrightarrow>
       executed p' = executed p \<and> workers p' = workers p)"
proof -
  have inv: "pool_inv n s p" by (rule pool_reach_inv [OF assms(1)])
  have awake: "threads (pmon p) t \<noteq> Blocked c op" for t c op
    using pool_wakes [OF assms(1,2)] assms(3) by blast
  have not_run: "exec_op \<noteq> Wait_on c" if "pool_exec Pool_take (shared (pmon p)) = exec_op" for exec_op c
    using that assms(3) by (auto simp: pool_defs split: if_splits)
  have "\<exists>p'. pool_step n t p p'" if t: "t < n" and w: "workers p t \<noteq> Exited" for t
  proof (cases "workers p t")
    case Testing
    with t assms(3) show ?thesis by (blast intro: pool_step.loop_ends)
  next
    case Taking
    with inv t have "op_of (threads (pmon p) t) = Some Pool_take" by (simp add: pool_inv_def)
    with awake have r: "threads (pmon p) t = Ready Pool_take" by (cases "threads (pmon p) t") auto
    obtain s' x ns where e: "pool_exec Pool_take (shared (pmon p)) = Done s' (Taken x) ns"
      using assms(3) by (cases "tp_queue (shared (pmon p)) = []") (simp_all add: pool_defs)
    obtain th where "notifies ns ((threads (pmon p))(t := Away)) th" using notifies_total by blast
    from mon_step.return [of "pmon p" t Pool_take pool_exec s' "Taken x" ns th, OF r e this] t Taking show ?thesis by (blast intro: pool_step.taken)
  next
    case (Holding x)
    with t show ?thesis by (blast intro: pool_step.run)
  qed (use w in simp)
  moreover have "to_exit (workers p' t) < to_exit (workers p t)" if t: "t < n" and st: "pool_step n t p p'" for t p'
    using st
  proof (cases rule: pool_step.cases)
    case (waiting e m)
    from waiting(5) show ?thesis
      by (cases rule: mon_step.cases) (use waiting(2-4) inv awake not_run in \<open>auto simp: pool_inv_def\<close>)
  next
    case (client e m)
    with t show ?thesis by simp
  qed (use assms(3) in auto)
  moreover have "executed p' = executed p \<and> workers p' = workers p"
    if "\<forall>u < n. workers p u = Exited" "pool_step n t p p'" for t p'
    using that(2,1) by (cases rule: pool_step.cases) auto
  ultimately show ?thesis by blast
qed


theorem pool_stop_joins_witness:
  "\<exists>p. pool_reach 1 demo_pool p \<and> tp_queue (shared (pmon p)) = [Some 5] \<and> (\<exists>p'. pool_step 1 0 p p')"
proof -
  define p where "p = \<lparr>pmon = \<lparr>shared = demo_pool\<lparr>tp_queue := [Some 5], tp_running := False\<rparr>, threads = th_of [Away, Away]\<rparr>,
     workers = \<lambda>_. Testing, executed = [], accepted = [Some 5]\<rparr>"
  have r: "pool_reach 1 demo_pool p" unfolding p_def by (rule demo_pool_stopped)
  have "tp_queue demo_pool = []" "\<not> tp_running (shared (pmon p))" "workers p 0 \<noteq> Exited" "tp_queue (shared (pmon p)) = [Some 5]"
    by (simp_all add: p_def demo_pool_def)
  with pool_stop_joins [OF r] r show ?thesis by auto
qed


lemma start_workers_joins:
  assumes "\<And>i h t. created i = Some (h, t) \<Longrightarrow> 0 < t"
  shows "\<exists>num' ths. start_workers name created is num = Inr (num', ths) \<and> length ths = length is \<and>
    (if \<exists>i \<in> set is. created i = None then join_workers ths = Inl AssertionFailed
     else \<exists>ths'. join_workers ths = Inr ths')"
proof (induction "is" arbitrary: num)
  case (Cons i "is")
  let ?id = "snprintf_to 32 (dec_int (add32 (int i) 1))"
  obtain num1 th where th: "Thread_new () (name @ ?id) num = (num1, th)" by fastforce
  have "\<exists>th'. Thread_start (created i) th = Inr th' \<and>
      (case created i of None \<Rightarrow> th' = th \<and> Thread_join 0 th' = Inl AssertionFailed
       | Some (h, t) \<Rightarrow> \<exists>th''. Thread_join 0 th' = Inr (0, th''))"
    using start_join [OF th, of "created i" 0] assms by (auto split: option.splits)
  then obtain th' where 1: "Thread_start (created i) th = Inr th'"
    "if created i = None then Thread_join 0 th' = Inl AssertionFailed else \<exists>th''. Thread_join 0 th' = Inr (0, th'')"
    by (auto split: option.splits)
  from Cons [of num1] obtain num' ths where 2: "start_workers name created is num1 = Inr (num', ths)" "length ths = length is"
    "if \<exists>i \<in> set is. created i = None then join_workers ths = Inl AssertionFailed else \<exists>ths'. join_workers ths = Inr ths'"
    by blast
  show ?case using th 1 2 by (auto simp del: not_None_eq split: if_splits)
qed simp

text \<open>
  A worker that could not be created is noticed only at the end: \<open>start\<close> returns, and
  \<open>stop\<close> then joins all workers exactly if every creation succeeded; if one failed, the assertion
  of \<open>join\<close> aborts the program.
\<close>

theorem pool_start_failures:
  assumes "tp_threads p = 0" "0 \<le> n" "\<And>i h t. created i = Some (h, t) \<Longrightarrow> 0 < t"
  shows "\<exists>num' ths p' b. pool_start name created has_init n num p = Inr (num', ths, p', b) \<and>
    tp_running p' \<and> tp_threads p' = nat n \<and>
    (join_workers ths = Inl AssertionFailed \<longleftrightarrow> (\<exists>i < nat n. created i = None)) \<and>
    ((\<exists>ths'. join_workers ths = Inr ths') \<longleftrightarrow> (\<forall>i < nat n. created i \<noteq> None))"
proof -
  have "\<exists>num' ths. start_workers name created [0..<nat n] num = Inr (num', ths) \<and> length ths = length [0..<nat n] \<and>
      (if \<exists>i \<in> set [0..<nat n]. created i = None then join_workers ths = Inl AssertionFailed
       else \<exists>ths'. join_workers ths = Inr ths')"
    by (rule start_workers_joins) (rule assms(3))
  then obtain num' ths where
    "start_workers name created [0..<nat n] num = Inr (num', ths)" "length ths = nat n"
    "if \<exists>i \<in> {0..<nat n}. created i = None then join_workers ths = Inl AssertionFailed
     else \<exists>ths'. join_workers ths = Inr ths'" by auto
  moreover have "(\<exists>i \<in> {0..<nat n}. created i = None) \<longleftrightarrow> (\<exists>i < nat n. created i = None)" by auto
  ultimately show ?thesis using assms(1,2)
    by (auto simp: pool_start_def Let_def simp del: not_None_eq split: if_splits)
qed

theorem pool_start_failures_witness:
  "\<exists>num' ths p' b. pool_start ''pool'' (\<lambda>i. if i = 1 then None else Some (int i + 50, int i + 100)) False 2 0 ThreadPool_new =
      Inr (num', ths, p' :: nat ThreadPool, b) \<and> tp_running p' \<and> join_workers ths = Inl AssertionFailed"
proof -
  let ?created = "\<lambda>i. if i = 1 then None else Some (int i + 50, int i + 100)"
  have "tp_threads ThreadPool_new = 0" by (simp add: ThreadPool_new_def)
  from pool_start_failures [OF this, of 2 ?created "''pool''" False 0]
  show ?thesis by (force split: if_splits)
qed

end
