(* ===== verification/LoopThreads.thy ===== *)
theory LoopThreads
  imports Thread
begin

text \<open>
  \<open>net::EventLoopThread\<close> and \<open>net::EventLoopThreadPool\<close> (src/net/EventLoopThread.h,
  EventLoopThread.cc, EventLoopThreadPool.h, EventLoopThreadPool.cc). An event loop is its
  address; the loop of each new thread is an argument. The thread's function holds its mutex only to
  publish the address, so that the pair is a monitor with one condition.
\<close>

section \<open>EventLoopThread\<close>

record EventLoopThread =
  elt_loop :: "nat option"
  elt_exiting :: bool

definition EventLoopThread_new :: EventLoopThread where
  "EventLoopThread_new = \<lparr>elt_loop = None, elt_exiting = False\<rparr>"

datatype elt_condition = Elt_cond

datatype elt_op = Elt_startLoop | Elt_publish nat | Elt_retire

type_synonym elt_outcome = "(EventLoopThread, elt_condition, nat option) outcome"

text \<open>The guarded parts: of \<open>startLoop\<close>, and the two of \<open>threadFunc\<close>.\<close>

definition startLoop :: "EventLoopThread \<Rightarrow> elt_outcome" where
  "startLoop s = (if elt_loop s = None then Wait_on Elt_cond else Done s (elt_loop s) [])"

definition publish :: "nat \<Rightarrow> EventLoopThread \<Rightarrow> elt_outcome" where
  "publish loop s = Done (s\<lparr>elt_loop := Some loop\<rparr>) None [Notify Elt_cond]"

definition retire :: "EventLoopThread \<Rightarrow> elt_outcome" where
  "retire s = Done (s\<lparr>elt_loop := None\<rparr>) None []"

fun elt_exec :: "elt_op \<Rightarrow> EventLoopThread \<Rightarrow> elt_outcome" where
  "elt_exec Elt_startLoop s = startLoop s"
| "elt_exec (Elt_publish loop) s = publish loop s"
| "elt_exec Elt_retire s = retire s"

lemmas elt_defs = startLoop_def publish_def retire_def

text \<open>Whether the destructor joins the thread.\<close>

definition EventLoopThread_delete :: "EventLoopThread \<Rightarrow> EventLoopThread \<times> bool" where
  "EventLoopThread_delete s = (let s = s\<lparr>elt_exiting := True\<rparr> in (s, elt_loop s \<noteq> None))"

section \<open>EventLoopThreadPool\<close>

record EventLoopThreadPool =
  baseLoop :: nat
  elp_name :: string
  elp_started :: bool
  numThreads :: int
  next_loop :: int
  thread_names :: "string list"
  loops :: "nat list"

definition EventLoopThreadPool_new :: "nat \<Rightarrow> string \<Rightarrow> EventLoopThreadPool" where
  "EventLoopThreadPool_new base name =
     \<lparr>baseLoop = base, elp_name = name, elp_started = False, numThreads = 0, next_loop = 0, thread_names = [], loops = []\<rparr>"

definition setThreadNum :: "int \<Rightarrow> EventLoopThreadPool \<Rightarrow> EventLoopThreadPool" where
  "setThreadNum n p = p\<lparr>numThreads := n\<rparr>"

text \<open>
  \<open>loop_of i\<close> is the address that \<open>startLoop\<close> of the \<open>i\<close>-th new thread returns. The second
  component of the result lists the loops on which the init callback has been called.
\<close>

fun start_loops :: "(nat \<Rightarrow> nat) \<Rightarrow> nat list \<Rightarrow> EventLoopThreadPool \<Rightarrow> EventLoopThreadPool" where
  "start_loops loop_of [] p = p"
| "start_loops loop_of (i # is) p =
     (let buf = snprintf_to (length (elp_name p) + 32) (elp_name p @ dec_int (int i))
      in start_loops loop_of is (p\<lparr>thread_names := thread_names p @ [buf], loops := loops p @ [loop_of i]\<rparr>))"

definition elp_start :: "(nat \<Rightarrow> nat) \<Rightarrow> bool \<Rightarrow> EventLoopThreadPool \<Rightarrow> (EventLoopThreadPool \<times> nat list) res" where
  "elp_start loop_of has_cb p =
     cassert (\<not> elp_started p)
       (let p = start_loops loop_of [0..<nat (numThreads p)] (p\<lparr>elp_started := True\<rparr>)
        in Inr (p, if numThreads p = 0 \<and> has_cb then [baseLoop p] else if has_cb then loops p else []))"

text \<open>Reading \<open>loops_\<close> at an index outside it is undefined.\<close>

definition loop_at :: "nat list \<Rightarrow> nat \<Rightarrow> nat res" where
  "loop_at ls i = (if i < length ls then Inr (ls ! i) else Inl Undefined)"

definition getNextLoop :: "EventLoopThreadPool \<Rightarrow> (nat \<times> EventLoopThreadPool) res" where
  "getNextLoop p =
     cassert (elp_started p)
       (if loops p = [] then Inr (baseLoop p, p)
        else bind_r (loop_at (loops p) (nat (next_loop p mod 2 ^ 64))) (\<lambda>loop.
          let p = p\<lparr>next_loop := add32 (next_loop p) 1\<rparr>;
              p = (if length (loops p) \<le> nat (next_loop p mod 2 ^ 64) then p\<lparr>next_loop := 0\<rparr> else p)
          in Inr (loop, p)))"

definition getLoopForHash :: "nat \<Rightarrow> EventLoopThreadPool \<Rightarrow> nat res" where
  "getLoopForHash hashCode p =
     (if loops p = [] then Inr (baseLoop p) else loop_at (loops p) (hashCode mod length (loops p)))"

definition getAllLoops :: "EventLoopThreadPool \<Rightarrow> nat list res" where
  "getAllLoops p = cassert (elp_started p) (Inr (if loops p = [] then [baseLoop p] else loops p))"

text \<open>\<open>n\<close> calls of \<open>getNextLoop\<close>.\<close>

fun next_loops :: "nat \<Rightarrow> EventLoopThreadPool \<Rightarrow> (nat list \<times> EventLoopThreadPool) res" where
  "next_loops 0 p = Inr ([], p)"
| "next_loops (Suc n) p =
     bind_r (getNextLoop p) (\<lambda>(l, p). bind_r (next_loops n p) (\<lambda>(ls, p). Inr (l # ls, p)))"

section \<open>Lemmas\<close>

lemma start_loops_ok:
  "loops (start_loops loop_of is p) = loops p @ map loop_of is \<and> elp_started (start_loops loop_of is p) = elp_started p \<and>
    baseLoop (start_loops loop_of is p) = baseLoop p \<and> next_loop (start_loops loop_of is p) = next_loop p \<and>
    numThreads (start_loops loop_of is p) = numThreads p"
  by (induction "is" arbitrary: p) (simp_all add: Let_def)

lemma getNextLoop_ok:
  assumes "elp_started p" "loops p \<noteq> []" "length (loops p) < 2 ^ 31" "next_loop p = int (k mod length (loops p))"
  shows "getNextLoop p = Inr (loops p ! (k mod length (loops p)), p\<lparr>next_loop := int (Suc k mod length (loops p))\<rparr>)"
proof -
  let ?n = "length (loops p)" and ?i = "k mod length (loops p)"
  have i: "?i < ?n" using assms(2) by simp
  then have small: "Suc ?i < 2 ^ 32" using assms(3) by simp
  have m: "nat (next_loop p mod 2 ^ 64) = ?i" using small by (simp add: assms(4))
  have a: "add32 (next_loop p) 1 = int (Suc ?i)" using i assms(3) by (simp add: add32_def assms(4))
  have m2: "nat (int (Suc ?i) mod 2 ^ 64) = Suc ?i" using small by simp
  have get: "getNextLoop p = Inr (loops p ! ?i,
      if ?n \<le> Suc ?i then p\<lparr>next_loop := 0\<rparr> else p\<lparr>next_loop := int (Suc ?i)\<rparr>)"
    unfolding getNextLoop_def m a loop_at_def if_P [OF i] Let_def
    using m2 by (simp add: assms(1,2) del: of_nat_Suc)
  show ?thesis
  proof (cases "Suc ?i = ?n")
    case True
    then show ?thesis unfolding get by (simp add: mod_Suc)
  next
    case False
    with i show ?thesis unfolding get by (simp add: mod_Suc)
  qed
qed

lemma next_loops_ok:
  assumes "elp_started p" "loops p \<noteq> []" "length (loops p) < 2 ^ 31" "next_loop p = int (k mod length (loops p))"
  shows "\<exists>p'. next_loops n p = Inr (map (\<lambda>i. loops p ! (i mod length (loops p))) [k..<k + n], p') \<and>
    p' = p\<lparr>next_loop := int ((k + n) mod length (loops p))\<rparr>"
  using assms
proof (induction n arbitrary: p k)
  case (Suc n)
  let ?p = "p\<lparr>next_loop := int (Suc k mod length (loops p))\<rparr>"
  note g = getNextLoop_ok [OF Suc.prems]
  from Suc.IH [of ?p "Suc k"] Suc.prems obtain p' where
    "next_loops n ?p = Inr (map (\<lambda>i. loops p ! (i mod length (loops p))) [Suc k..<Suc k + n], p')"
    "p' = p\<lparr>next_loop := int ((k + Suc n) mod length (loops p))\<rparr>" by auto
  moreover have "[k..<k + Suc n] = k # [Suc k..<Suc k + n]" by (simp add: upt_rec)
  ultimately show ?case using g by (simp del: upt_Suc)
qed simp

section \<open>Properties\<close>

text \<open>
  \<open>getNextLoop\<close> deals the loops out in turn: after the start of \<open>n > 0\<close> threads the
  \<open>i\<close>-th call returns the loop of thread \<open>i mod n\<close>, however many calls are made, and no
  read of \<open>loops_\<close> is out of range.
\<close>

theorem loops_in_turn:
  assumes "elp_start loop_of has_cb p = Inr (p1, called)" "loops p = []" "next_loop p = 0"
    and "0 < numThreads p" "numThreads p < 2 ^ 31"
  shows "\<exists>p'. next_loops m p1 = Inr (map (\<lambda>i. loop_of (i mod nat (numThreads p))) [0..<m], p')"
proof -
  have p1: "p1 = start_loops loop_of [0..<nat (numThreads p)] (p\<lparr>elp_started := True\<rparr>)"
    using assms(1) by (auto simp: elp_start_def cassert_def Let_def split: if_splits)
  have l: "loops p1 = map loop_of [0..<nat (numThreads p)]" "elp_started p1" "next_loop p1 = 0"
    using assms(2,3) by (simp_all add: p1 start_loops_ok)
  have "loops p1 \<noteq> []" "length (loops p1) < 2 ^ 31" using assms(4,5) by (simp_all add: l)
  from next_loops_ok [OF l(2) this, of 0 m] obtain p' where
    "next_loops m p1 = Inr (map (\<lambda>i. loops p1 ! (i mod length (loops p1))) [0..<m], p')" using l(3) by auto
  moreover have "map (\<lambda>i. loops p1 ! (i mod length (loops p1))) [0..<m] = map (\<lambda>i. loop_of (i mod nat (numThreads p))) [0..<m]"
    using assms(4) by (simp add: l)
  ultimately show ?thesis by simp
qed

theorem loops_in_turn_witness:
  "\<exists>p' p1. elp_start (\<lambda>i. 100 + i) False (setThreadNum 2 (EventLoopThreadPool_new 7 ''io'')) = Inr (p1, []) \<and>
    next_loops 5 p1 = Inr ([100, 101, 100, 101, 100], p')"
proof -
  let ?p = "setThreadNum 2 (EventLoopThreadPool_new 7 ''io'')"
  obtain p1 where s: "elp_start (\<lambda>i. 100 + i) False ?p = Inr (p1, [])"
    by (simp add: elp_start_def setThreadNum_def EventLoopThreadPool_new_def Let_def start_loops_ok)
  have "loops ?p = []" "next_loop ?p = 0" "0 < numThreads ?p" "numThreads ?p < 2 ^ 31" "numThreads ?p = 2"
    by (simp_all add: setThreadNum_def EventLoopThreadPool_new_def)
  from loops_in_turn [OF s this(1-4), of 5] this(5) obtain p' where
    "next_loops 5 p1 = Inr (map (\<lambda>i. 100 + i mod nat 2) [0..<5], p')" by auto
  moreover have "map (\<lambda>i. 100 + i mod nat 2) [0..<5] = [100, 101, 100, 101, 100]" by code_simp
  ultimately show ?thesis using s by auto
qed

section \<open>Starting a loop\<close>

text \<open>
  The calls an \<open>EventLoopThread\<close> sees: \<open>startLoop\<close> comes from one thread, since it asserts that it is the
  first, and the thread's own second part, after \<open>loop()\<close>, is never reached, since that loop does not return
  (\<open>EventLoop.loop_never_returns\<close>).
\<close>

definition elt_protocol :: "(elt_op, nat option) event list \<Rightarrow> bool" where
  "elt_protocol es \<longleftrightarrow>
     (\<forall>t op. Call t op \<in> set es \<longrightarrow> op \<noteq> Elt_retire \<and> (op = Elt_startLoop \<longrightarrow> t = 0))"

definition published :: "nat \<Rightarrow> (elt_op, nat option) event list \<Rightarrow> bool" where
  "published l es \<longleftrightarrow> (\<exists>t. Return t (Elt_publish l) None \<in> set es)"

definition elt_threads_ok :: "(EventLoopThread, elt_condition, elt_op) Monitor \<Rightarrow> bool" where
  "elt_threads_ok m \<longleftrightarrow>
     (\<forall>t op. op_of (threads m t) = Some op \<longrightarrow> op \<noteq> Elt_retire \<and> (op = Elt_startLoop \<longrightarrow> t = 0)) \<and>
     (\<forall>t c op. threads m t = Blocked c op \<longrightarrow> op = Elt_startLoop \<and> elt_loop (shared m) = None)"

lemma published_snoc [simp]:
  "published l [] \<longleftrightarrow> False"
  "published l (es @ [e]) \<longleftrightarrow> published l es \<or> (\<exists>t. e = Return t (Elt_publish l) None)"
  by (auto simp: published_def)

lemma elt_threads_ready:
  "elt_threads_ok m \<Longrightarrow> threads m t = Ready op \<Longrightarrow> op \<noteq> Elt_retire \<and> (op = Elt_startLoop \<longrightarrow> t = 0)"
  unfolding elt_threads_ok_def by (metis op_of.simps(2))

lemma elt_threads_blocked: "elt_threads_ok m \<Longrightarrow> threads m t = Blocked c op \<Longrightarrow> t = 0 \<and> op = Elt_startLoop"
  unfolding elt_threads_ok_def by (metis op_of.simps(3))

text \<open>A single signal is enough for a single sleeper.\<close>

lemma notify_single:
  assumes "notified (Notify Elt_cond) th th'" "\<And>t c op. th t = Blocked c op \<Longrightarrow> t = 0"
  shows "th' t \<noteq> Blocked c op"
proof
  assume b: "th' t = Blocked c op"
  have c: "c = Elt_cond" by (cases c)
  from assms(1) show False
  proof (cases rule: notified.cases)
    case (one u op')
    with b have "t \<noteq> u" "th t = Blocked c op" by (auto split: if_splits)
    with assms(2) one show False by metis
  next
    case one_none
    with b c show False by simp
  qed
qed

lemma elt_threads_run:
  assumes "mon_run elt_exec EventLoopThread_new es m" "elt_protocol es"
  shows "elt_threads_ok m"
  using assms
proof (induction rule: mon_run.induct)
  case init
  then show ?case by (simp add: elt_threads_ok_def)
next
  case (step es m e m')
  then have ok: "elt_threads_ok m" and e: "\<And>t op. e = Call t op \<Longrightarrow> op \<noteq> Elt_retire \<and> (op = Elt_startLoop \<longrightarrow> t = 0)"
    by (auto simp: elt_protocol_def)
  have who: "op \<noteq> Elt_retire \<and> (op = Elt_startLoop \<longrightarrow> t = 0)" if "op_of (threads m' t) = Some op" for t op
    using that mon_step_op_of [OF step.hyps(2), of t] ok e
    by (auto simp: elt_threads_ok_def split: if_splits event.splits)
  have "op = Elt_startLoop \<and> elt_loop (shared m') = None" if b: "threads m' t = Blocked c op" for t c op
    using step.hyps(2)
  proof (cases rule: mon_step.cases)
    case (return u op' s r ns th)
    note ret = this
    have u: "op' \<noteq> Elt_retire" "op' = Elt_startLoop \<longrightarrow> u = 0" using elt_threads_ready [OF ok] return by blast+
    show ?thesis
    proof (cases op')
      case Elt_startLoop
      with ret have "th = (threads m)(u := Away)" "s = shared m"
        by (auto simp: elt_defs split: if_splits elim: notifies_NilE)
      with b ok ret Elt_startLoop show ?thesis by (auto simp: elt_threads_ok_def split: if_splits)
    next
      case (Elt_publish l)
      with ret have n: "notified (Notify Elt_cond) ((threads m)(u := Away)) th"
        by (auto simp: elt_defs elim!: notifies_ConsE notifies_NilE)
      have other: "v = 0" if "((threads m)(u := Away)) v = Blocked d x" for v d x
        using that elt_threads_blocked [OF ok] by (auto split: if_splits)
      have "th t \<noteq> Blocked c op"
        by (rule notify_single [OF n other])
      with b ret show ?thesis by simp
    next
      case Elt_retire
      with u show ?thesis by simp
    qed
  next
    case (sleep u op' d)
    then have "op' = Elt_startLoop \<and> elt_loop (shared m) = None" by (cases op') (auto simp: elt_defs split: if_splits)
    with b sleep ok show ?thesis by (auto simp: elt_threads_ok_def split: if_splits)
  qed (use b ok in \<open>auto simp: elt_threads_ok_def split: if_splits\<close>)
  with who show ?case by (auto simp: elt_threads_ok_def)
qed

lemma elt_loop_published:
  assumes "mon_run elt_exec EventLoopThread_new es m"
  shows "(\<forall>l. elt_loop (shared m) = Some l \<longrightarrow> published l es) \<and>
    (\<forall>t r. Return t Elt_startLoop r \<in> set es \<longrightarrow> (\<exists>l. r = Some l \<and> published l es))" (is "?P es (shared m)")
proof (rule run_invariant [OF assms, where P = ?P])
  fix es t op s s' r ns
  assume "?P es s" "elt_exec op s = Done s' r ns"
  then show "?P (es @ [Return t op r]) s'"
    by (cases op) (auto simp: elt_defs split: if_splits, blast+)
qed (auto simp: EventLoopThread_new_def)

lemma elt_loop_stays:
  assumes "mon_run elt_exec EventLoopThread_new es m"
  shows "(\<forall>t r. Return t Elt_retire r \<notin> set es) \<longrightarrow> published l es \<longrightarrow> elt_loop (shared m) \<noteq> None"
  by (rule run_invariant [OF assms, where
        P = "\<lambda>es s. (\<forall>t r. Return t Elt_retire r \<notin> set es) \<longrightarrow> published l es \<longrightarrow> elt_loop s \<noteq> None"])
    (auto simp: EventLoopThread_new_def elt_defs split: if_splits elim!: elt_exec.elims)

lemma elt_no_retire:
  assumes "mon_run elt_exec EventLoopThread_new es m" "elt_protocol es"
  shows "\<forall>t r. Return t Elt_retire r \<notin> set es"
  using assms
proof (induction rule: mon_run.induct)
  case (step es m e m')
  then have p: "elt_protocol es" by (auto simp: elt_protocol_def)
  have "e \<noteq> Return t Elt_retire r" for t r
    using mon_step_shared [OF step.hyps(2)] elt_threads_ready [OF elt_threads_run [OF step.hyps(1) p]] by fastforce
  with step.IH [OF p] show ?case by auto
qed simp



end
