(* ===== verification/LogFile.thy ===== *)
theory LogFile
  imports Prelude "HOL-Library.Sublist"
begin

text \<open>
  \<open>base::AppendFile\<close> and \<open>base::LogFile\<close> (src/base/FileUtil.h, FileUtil.cc, LogFile.h,
  LogFile.cc). A \<open>FILE*\<close> is the bytes it has accepted, how many of them have been flushed, and the
  number of writes; how many bytes the \<open>k\<close>-th write accepts is a function \<open>fw\<close>, cut at what
  it was given. The file opens: the sources do not check \<open>fopen\<close>.
\<close>

section \<open>AppendFile\<close>

record AppendFile =
  af_bytes :: string
  af_flushed :: nat
  af_writes :: nat

definition AppendFile_new :: "bool \<Rightarrow> AppendFile res" where
  "AppendFile_new opened =
     (if opened then Inr \<lparr>af_bytes = [], af_flushed = 0, af_writes = 0\<rparr> else Inl Undefined)"

definition af_write :: "(nat \<Rightarrow> nat \<Rightarrow> nat) \<Rightarrow> string \<Rightarrow> AppendFile \<Rightarrow> nat \<times> AppendFile" where
  "af_write fw logline f =
     (let n = min (fw (af_writes f) (length logline)) (length logline)
      in (n, f\<lparr>af_bytes := af_bytes f @ take n logline, af_writes := Suc (af_writes f)\<rparr>))"

definition af_flush :: "AppendFile \<Rightarrow> AppendFile" where
  "af_flush f = f\<lparr>af_flushed := length (af_bytes f)\<rparr>"

text \<open>\<open>fclose\<close> flushes.\<close>

definition af_delete :: "AppendFile \<Rightarrow> AppendFile" where
  "af_delete f = af_flush f"

text \<open>The loop of \<open>append\<close>, on what remains of the line.\<close>

function append_remaining :: "(nat \<Rightarrow> nat \<Rightarrow> nat) \<Rightarrow> string \<Rightarrow> AppendFile \<Rightarrow> AppendFile" where
  "append_remaining fw remaining f =
     (if 0 < length remaining
      then let (x, f) = af_write fw remaining f
           in if x = 0 then f else append_remaining fw (drop x remaining) f
      else f)"
  by auto
termination
  by (relation "measure (\<lambda>(fw, remaining, f). length remaining)") (auto simp: af_write_def Let_def)

declare append_remaining.simps [simp del]

definition af_append :: "(nat \<Rightarrow> nat \<Rightarrow> nat) \<Rightarrow> string \<Rightarrow> AppendFile \<Rightarrow> AppendFile" where
  "af_append fw logline f =
     (let (n, f) = af_write fw logline f in append_remaining fw (drop n logline) f)"

section \<open>LogFile\<close>

record LogFile =
  lf_basename :: string
  lf_flushEveryN :: int
  lf_count :: int
  lf_file :: AppendFile

definition LogFile_new :: "bool \<Rightarrow> string \<Rightarrow> int \<Rightarrow> LogFile res" where
  "LogFile_new opened basename flushEveryN =
     bind_r (AppendFile_new opened) (\<lambda>f.
       Inr \<lparr>lf_basename = basename, lf_flushEveryN = flushEveryN, lf_count = 0, lf_file = f\<rparr>)"

definition append_unlocked :: "(nat \<Rightarrow> nat \<Rightarrow> nat) \<Rightarrow> string \<Rightarrow> LogFile \<Rightarrow> LogFile" where
  "append_unlocked fw logline l =
     (let l = l\<lparr>lf_file := af_append fw logline (lf_file l), lf_count := add32 (lf_count l) 1\<rparr>
      in if lf_flushEveryN l \<le> lf_count l
         then l\<lparr>lf_count := 0, lf_file := af_flush (lf_file l)\<rparr> else l)"

text \<open>Under its mutex.\<close>

definition lf_append :: "(nat \<Rightarrow> nat \<Rightarrow> nat) \<Rightarrow> string \<Rightarrow> LogFile \<Rightarrow> LogFile" where
  "lf_append fw logline l = append_unlocked fw logline l"

definition lf_flush :: "LogFile \<Rightarrow> LogFile" where
  "lf_flush l = l\<lparr>lf_file := af_flush (lf_file l)\<rparr>"

text \<open>The body is empty; the member \<open>file_\<close> goes.\<close>

definition LogFile_delete :: "LogFile \<Rightarrow> LogFile" where
  "LogFile_delete l = l\<lparr>lf_file := af_delete (lf_file l)\<rparr>"

abbreviation lf_bytes :: "LogFile \<Rightarrow> string" where
  "lf_bytes l \<equiv> af_bytes (lf_file l)"

lemma LogFile_delete_flushes:
  "lf_bytes (LogFile_delete l) = lf_bytes l"
  "af_flushed (lf_file (LogFile_delete l)) = length (lf_bytes l)"
  by (simp_all add: LogFile_delete_def af_delete_def af_flush_def)

section \<open>What gets into the file\<close>

text \<open>A disk that takes at least a byte of every write.\<close>

definition disk_ok :: "(nat \<Rightarrow> nat \<Rightarrow> nat) \<Rightarrow> bool" where
  "disk_ok fw \<longleftrightarrow> (\<forall>k n. 0 < n \<longrightarrow> 0 < fw k n)"

lemma prefix_take_drop: "prefix ys (drop n xs) \<Longrightarrow> prefix (take n xs @ ys) xs"
  by (metis append_take_drop_id same_prefix_prefix)

lemma append_remaining_prefix:
  "\<exists>written. prefix written remaining \<and> af_bytes (append_remaining fw remaining f) = af_bytes f @ written \<and>
     (disk_ok fw \<longrightarrow> written = remaining)"
proof (induction fw remaining f rule: append_remaining.induct)
  case (1 fw remaining f)
  define n where "n = min (fw (af_writes f) (length remaining)) (length remaining)"
  define g where "g = f\<lparr>af_bytes := af_bytes f @ take n remaining, af_writes := Suc (af_writes f)\<rparr>"
  have w: "af_write fw remaining f = (n, g)" by (simp add: af_write_def Let_def n_def g_def)
  have g: "af_bytes g = af_bytes f @ take n remaining" by (simp add: g_def)
  show ?case
  proof (cases "remaining = []")
    case True
    then show ?thesis by (subst append_remaining.simps) simp
  next
    case False
    show ?thesis
    proof (cases "n = 0")
      case True
      with False w have "append_remaining fw remaining f = g" by (subst append_remaining.simps) simp
      moreover have "\<not> disk_ok fw"
        using True False by (auto simp: disk_ok_def n_def min_def split: if_splits)
      ultimately show ?thesis using True g by auto
    next
      case n: False
      with False w have s: "append_remaining fw remaining f = append_remaining fw (drop n remaining) g"
        by (subst append_remaining.simps) simp
      from 1 [of "(n, g)" n g] False w n obtain written where
        "prefix written (drop n remaining)"
        "af_bytes (append_remaining fw (drop n remaining) g) = af_bytes g @ written"
        "disk_ok fw \<longrightarrow> written = drop n remaining" by auto
      with g prefix_take_drop show ?thesis unfolding s
        by (intro exI [of _ "take n remaining @ written"]) auto
    qed
  qed
qed

lemma af_append_prefix:
  "\<exists>written. prefix written logline \<and> af_bytes (af_append fw logline f) = af_bytes f @ written \<and>
     (disk_ok fw \<longrightarrow> written = logline)"
proof -
  obtain n g where w: "af_write fw logline f = (n, g)" "af_bytes g = af_bytes f @ take n logline"
    by (auto simp: af_write_def Let_def)
  from append_remaining_prefix [of "drop n logline" fw g] obtain written where
    "prefix written (drop n logline)" "af_bytes (append_remaining fw (drop n logline) g) = af_bytes g @ written"
    "disk_ok fw \<longrightarrow> written = drop n logline" by blast
  with w prefix_take_drop show ?thesis
    by (intro exI [of _ "take n logline @ written"]) (auto simp: af_append_def)
qed

lemma lf_append_prefix:
  "\<exists>written. prefix written logline \<and> lf_bytes (lf_append fw logline l) = lf_bytes l @ written \<and>
     (disk_ok fw \<longrightarrow> written = logline)"
  using af_append_prefix [of logline fw "lf_file l"]
  by (auto simp: lf_append_def append_unlocked_def Let_def af_flush_def)

end
