(* ===== verification/AsyncLogging.thy ===== *)
theory AsyncLogging
  imports LogStream LogFile Thread
begin

text \<open>
  \<open>base::AsyncLogging\<close> (src/base/AsyncLogging.h, AsyncLogging.cc): the double-buffered log. The front end is the guarded body of \<open>append\<close>; the
  logging thread's round is its critical section and what it does after it, with the front end running in
  between. A \<open>shared_ptr\<close> has one owner at a time here, so that a buffer is a value. \<open>mem\<close> is
  what a new buffer's memory holds.
\<close>

section \<open>The front end\<close>

record AsyncLogging =
  flushInterval :: int
  al_running :: bool
  al_basename :: string
  al_current :: "FixedBuffer option"
  al_next :: "FixedBuffer option"
  al_buffers :: "FixedBuffer list"

definition AsyncLogging_new :: "string \<Rightarrow> string \<Rightarrow> int \<Rightarrow> AsyncLogging res" where
  "AsyncLogging_new mem basename interval =
     cassert (1 < length basename)
       (Inr \<lparr>flushInterval = interval, al_running = False, al_basename = basename,
         al_current = Some (fb_bzero (FixedBuffer_new mem)), al_next = Some (fb_bzero (FixedBuffer_new mem)),
         al_buffers = []\<rparr>)"

definition al_append :: "string \<Rightarrow> string \<Rightarrow> AsyncLogging \<Rightarrow> AsyncLogging res" where
  "al_append mem logline s =
     (case al_current s of
        None \<Rightarrow> Inl Undefined
      | Some cur \<Rightarrow>
          if fb_avail cur > wrap32 (int (length logline))
          then bind_r (fb_append logline cur) (\<lambda>cur. Inr (s\<lparr>al_current := Some cur\<rparr>))
          else
            let s = s\<lparr>al_buffers := al_buffers s @ [cur]\<rparr>;
                cur = (case al_next s of Some b \<Rightarrow> b | None \<Rightarrow> FixedBuffer_new mem);
                s = s\<lparr>al_next := None\<rparr>
            in bind_r (fb_append logline cur) (\<lambda>cur. Inr (s\<lparr>al_current := Some cur\<rparr>)))"

definition al_stop :: "AsyncLogging \<Rightarrow> AsyncLogging" where
  "al_stop s = s\<lparr>al_running := False\<rparr>"

definition al_delete :: "AsyncLogging \<Rightarrow> AsyncLogging" where
  "al_delete s = (if al_running s then al_stop s else s)"

lemma al_delete_stop: "al_delete s = al_stop s"
  by (cases s) (simp add: al_delete_def al_stop_def)

section \<open>The logging thread\<close>

record Backend =
  newBuffer1 :: "FixedBuffer option"
  newBuffer2 :: "FixedBuffer option"
  buffersToWrite :: "FixedBuffer list"
  log_output :: LogFile

definition backend_new :: "string \<Rightarrow> bool \<Rightarrow> AsyncLogging \<Rightarrow> Backend res" where
  "backend_new mem opened s =
     cassert (al_running s)
       (bind_r (LogFile_new opened (al_basename s) 1024) (\<lambda>out.
         Inr \<lparr>newBuffer1 = Some (fb_bzero (FixedBuffer_new mem)), newBuffer2 = Some (fb_bzero (FixedBuffer_new mem)),
           buffersToWrite = [], log_output = out\<rparr>))"

definition is_empty_buffer :: "FixedBuffer option \<Rightarrow> bool" where
  "is_empty_buffer b = (case b of None \<Rightarrow> False | Some x \<Rightarrow> fb_length x = 0)"

text \<open>
  The assertions of a round and its critical section, after the wait if there was one. A null
  \<open>currentBuffer_\<close> would be dereferenced when it is written.
\<close>

definition backend_swap :: "AsyncLogging \<Rightarrow> Backend \<Rightarrow> (AsyncLogging \<times> Backend) res" where
  "backend_swap s b =
     cassert (is_empty_buffer (newBuffer1 b)) (cassert (is_empty_buffer (newBuffer2 b)) (cassert (buffersToWrite b = [])
       (case al_current s of
          None \<Rightarrow> Inl Undefined
        | Some cur \<Rightarrow>
            let s = s\<lparr>al_buffers := al_buffers s @ [cur], al_current := newBuffer1 b\<rparr>;
                b = b\<lparr>newBuffer1 := None, buffersToWrite := al_buffers s\<rparr>;
                s = s\<lparr>al_buffers := []\<rparr>
            in Inr (if al_next s = None then (s\<lparr>al_next := newBuffer2 b\<rparr>, b\<lparr>newBuffer2 := None\<rparr>) else (s, b)))))"

fun write_buffers :: "(nat \<Rightarrow> nat \<Rightarrow> nat) \<Rightarrow> FixedBuffer list \<Rightarrow> LogFile \<Rightarrow> LogFile res" where
  "write_buffers fw [] out = Inr out"
| "write_buffers fw (x # xs) out =
     bind_r (vec_load 0 (nat (fb_length x)) (fb_data x)) (\<lambda>data. write_buffers fw xs (lf_append fw data out))"

definition refill :: "FixedBuffer option \<Rightarrow> FixedBuffer list \<Rightarrow> (FixedBuffer option \<times> FixedBuffer list) res" where
  "refill buf bufs =
     (case buf of
        Some b \<Rightarrow> Inr (Some b, bufs)
      | None \<Rightarrow> cassert (bufs \<noteq> []) (Inr (Some (fb_reset (last bufs)), butlast bufs)))"

definition backend_write :: "(nat \<Rightarrow> nat \<Rightarrow> nat) \<Rightarrow> Backend \<Rightarrow> Backend res" where
  "backend_write fw b =
     cassert (buffersToWrite b \<noteq> [])
       (let bufs = (if 25 < length (buffersToWrite b) then take 2 (buffersToWrite b) else buffersToWrite b)
        in bind_r (write_buffers fw bufs (log_output b)) (\<lambda>out.
           let bufs = (if 2 < length bufs then take 2 bufs else bufs)
           in bind_r (refill (newBuffer1 b) bufs) (\<lambda>(b1, bufs).
              bind_r (refill (newBuffer2 b) bufs) (\<lambda>(b2, bufs).
                Inr (b\<lparr>newBuffer1 := b1, newBuffer2 := b2, buffersToWrite := [], log_output := lf_flush out\<rparr>)))))"

section \<open>Runs\<close>

text \<open>
  What can happen, in any order: a line is logged, the logging thread makes the first or the second half of
  a round, \<open>stop\<close> clears \<open>running_\<close>, the thread leaves its loop. What is not possible in a state
  changes nothing. \<open>logged\<close> is the history of lines, \<open>overflowed\<close> tells whether buffers have been erased.
\<close>

datatype al_action = Log string | Swap | Write | Stop | Leave

datatype al_stage = Looping | Writing | Left

record LogSystem =
  frontend :: AsyncLogging
  backend :: Backend
  stage :: al_stage
  logged :: string
  overflowed :: bool

fun al_step :: "string \<Rightarrow> (nat \<Rightarrow> nat \<Rightarrow> nat) \<Rightarrow> al_action \<Rightarrow> LogSystem \<Rightarrow> LogSystem res" where
  "al_step mem fw (Log l) s =
     bind_r (al_append mem l (frontend s)) (\<lambda>f. Inr (s\<lparr>frontend := f, logged := logged s @ l\<rparr>))"
| "al_step mem fw Swap s =
     (if stage s = Looping \<and> al_running (frontend s)
      then bind_r (backend_swap (frontend s) (backend s)) (\<lambda>(f, b). Inr (s\<lparr>frontend := f, backend := b, stage := Writing\<rparr>))
      else Inr s)"
| "al_step mem fw Write s =
     (if stage s = Writing
      then bind_r (backend_write fw (backend s)) (\<lambda>b.
        Inr (s\<lparr>backend := b, stage := Looping, overflowed := overflowed s \<or> 25 < length (buffersToWrite (backend s))\<rparr>))
      else Inr s)"
| "al_step mem fw Stop s = Inr (s\<lparr>frontend := al_stop (frontend s)\<rparr>)"
| "al_step mem fw Leave s =
     (if stage s = Looping \<and> \<not> al_running (frontend s)
      then Inr (s\<lparr>backend := (backend s)\<lparr>log_output := lf_flush (log_output (backend s))\<rparr>, stage := Left\<rparr>)
      else Inr s)"

fun al_run :: "string \<Rightarrow> (nat \<Rightarrow> nat \<Rightarrow> nat) \<Rightarrow> al_action list \<Rightarrow> LogSystem \<Rightarrow> LogSystem res" where
  "al_run mem fw [] s = Inr s"
| "al_run mem fw (a # as) s = bind_r (al_step mem fw a s) (al_run mem fw as)"

definition al_start :: "string \<Rightarrow> string \<Rightarrow> int \<Rightarrow> LogSystem res" where
  "al_start mem basename interval =
     bind_r (AsyncLogging_new mem basename interval) (\<lambda>f.
       let f = f\<lparr>al_running := True\<rparr>
       in bind_r (backend_new mem True f) (\<lambda>b.
         Inr \<lparr>frontend = f, backend = b, stage = Looping, logged = [], overflowed = False\<rparr>))"

section \<open>The invariant\<close>

definition buf_ok :: "FixedBuffer \<Rightarrow> bool" where
  "buf_ok b \<longleftrightarrow> fb_wf b \<and> length (fb_data b) = kLargeBuffer"

definition fresh :: "FixedBuffer \<Rightarrow> bool" where
  "fresh b \<longleftrightarrow> buf_ok b \<and> fb_cur b = 0"

definition texts :: "FixedBuffer list \<Rightarrow> string" where
  "texts bs = concat (map fb_text bs)"

definition pending :: "LogSystem \<Rightarrow> string" where
  "pending s = texts (buffersToWrite (backend s)) @ texts (al_buffers (frontend s)) @
     (case al_current (frontend s) of None \<Rightarrow> [] | Some c \<Rightarrow> fb_text c)"

definition front_ok :: "AsyncLogging \<Rightarrow> bool" where
  "front_ok f \<longleftrightarrow> (\<exists>c. al_current f = Some c \<and> buf_ok c) \<and> list_all buf_ok (al_buffers f) \<and>
     (case al_next f of None \<Rightarrow> al_buffers f \<noteq> [] | Some b \<Rightarrow> fresh b)"

definition back_ok :: "al_stage \<Rightarrow> Backend \<Rightarrow> bool" where
  "back_ok st b \<longleftrightarrow>
     (if st = Writing
      then newBuffer1 b = None \<and> buffersToWrite b \<noteq> [] \<and> list_all buf_ok (buffersToWrite b) \<and>
        (case newBuffer2 b of None \<Rightarrow> 2 \<le> length (buffersToWrite b) | Some x \<Rightarrow> fresh x)
      else (\<exists>x. newBuffer1 b = Some x \<and> fresh x) \<and> (\<exists>x. newBuffer2 b = Some x \<and> fresh x) \<and> buffersToWrite b = [])"

definition al_inv :: "(nat \<Rightarrow> nat \<Rightarrow> nat) \<Rightarrow> LogSystem \<Rightarrow> bool" where
  "al_inv fw s \<longleftrightarrow> front_ok (frontend s) \<and> back_ok (stage s) (backend s) \<and>
     subseq (lf_bytes (log_output (backend s)) @ pending s) (logged s) \<and>
     (disk_ok fw \<and> \<not> overflowed s \<longrightarrow> lf_bytes (log_output (backend s)) @ pending s = logged s)"

lemma fb_append_room:
  assumes "buf_ok b" "length l < fb_room b"
  shows "\<exists>b'. fb_append l b = Inr b' \<and> buf_ok b' \<and> fb_text b' = fb_text b @ l"
proof -
  have "length l < 2 ^ 31" using assms by (simp add: buf_ok_def fb_room_def kLargeBuffer_def)
  from fb_append_atomic [OF _ this, of b] assms obtain b' where
    b: "fb_append l b = Inr b'" "fb_wf b'" "fb_text b' = fb_text b @ l" by (auto simp: buf_ok_def)
  from b(1) have "length (fb_data b') = length (fb_data b)"
    by (auto simp: fb_append_def fb_write_def fb_add_def res_simps dest: vec_store_length split: if_splits)
  with b assms(1) show ?thesis by (auto simp: buf_ok_def)
qed

lemma fresh_facts:
  assumes "fresh b"
  shows "fb_text b = []" "fb_room b = kLargeBuffer" "fb_length b = 0"
  using assms by (simp_all add: fresh_def fb_text_def fb_room_def fb_length_def buf_ok_def)

lemma fresh_new: "length mem = kLargeBuffer \<Longrightarrow> fresh (FixedBuffer_new mem) \<and> fresh (fb_bzero (FixedBuffer_new mem))"
  by (simp add: fresh_def buf_ok_def fb_wf_def FixedBuffer_new_def fb_bzero_def kLargeBuffer_def)

lemma texts_simps [simp]: "texts [] = []" "texts (b # bs) = fb_text b @ texts bs" "texts (bs @ cs) = texts bs @ texts cs"
  by (simp_all add: texts_def)

lemma al_append_ok:
  assumes "front_ok f" "length mem = kLargeBuffer" "length l < kLargeBuffer"
  shows "\<exists>f'. al_append mem l f = Inr f' \<and> front_ok f' \<and> al_running f' = al_running f \<and>
    (\<exists>c c'. al_current f = Some c \<and> al_current f' = Some c' \<and>
      texts (al_buffers f') @ fb_text c' = texts (al_buffers f) @ fb_text c @ l)"
proof -
  from assms(1) obtain c where c: "al_current f = Some c" "buf_ok c" by (auto simp: front_ok_def)
  have w: "wrap32 (int (length l)) = int (length l)" using assms(3) by (simp add: kLargeBuffer_def)
  have av: "fb_avail c = int (fb_room c)" using c(2) by (simp add: buf_ok_def fb_avail_room)
  show ?thesis
  proof (cases "length l < fb_room c")
    case True
    from fb_append_room [OF c(2) this] obtain c' where
      "fb_append l c = Inr c'" "buf_ok c'" "fb_text c' = fb_text c @ l" by blast
    with c assms(1) True show ?thesis
      by (auto simp: al_append_def w av front_ok_def split: option.splits)
  next
    case False
    define n where "n = (case al_next f of Some b \<Rightarrow> b | None \<Rightarrow> FixedBuffer_new mem)"
    have n: "fresh n" using assms(1) fresh_new [OF assms(2)] by (auto simp: n_def front_ok_def split: option.splits)
    with assms(3) fresh_facts [OF n] fb_append_room [of n l] obtain c' where
      "fb_append l n = Inr c'" "buf_ok c'" "fb_text c' = l" by (auto simp: fresh_def)
    with c assms(1) False show ?thesis
      by (simp add: al_append_def w av front_ok_def Let_def flip: n_def)
  qed
qed


lemma backend_swap_ok:
  assumes "front_ok f" "back_ok Looping b"
  shows "\<exists>f' b'. backend_swap f b = Inr (f', b') \<and> front_ok f' \<and> back_ok Writing b' \<and> al_running f' = al_running f \<and>
    log_output b' = log_output b \<and>
    (\<exists>c c'. al_current f = Some c \<and> al_current f' = Some c' \<and> al_buffers f' = [] \<and> fb_text c' = [] \<and>
      buffersToWrite b' = al_buffers f @ [c])"
proof -
  from assms(1) obtain c where c: "al_current f = Some c" "buf_ok c" "list_all buf_ok (al_buffers f)"
    "case al_next f of None \<Rightarrow> al_buffers f \<noteq> [] | Some b \<Rightarrow> fresh b" by (auto simp: front_ok_def)
  from assms(2) obtain x y where b: "newBuffer1 b = Some x" "fresh x" "newBuffer2 b = Some y" "fresh y"
    "buffersToWrite b = []" by (auto simp: back_ok_def)
  have e: "is_empty_buffer (Some x)" "is_empty_buffer (Some y)"
    using fresh_facts(3) b by (simp_all add: is_empty_buffer_def)
  have ok: "buf_ok x" "fb_text x = []" using b(2) fresh_facts by (simp_all add: fresh_def)
  show ?thesis
  proof (cases "al_next f")
    case None
    then have "2 \<le> length (al_buffers f @ [c])" using c(4) by (cases "al_buffers f") simp_all
    with None c b e ok show ?thesis
      by (simp add: backend_swap_def Let_def front_ok_def back_ok_def)
  next
    case (Some z)
    with c b e ok show ?thesis
      by (simp add: backend_swap_def Let_def front_ok_def back_ok_def)
  qed
qed

lemma write_buffers_ok:
  assumes "list_all buf_ok bufs"
  shows "\<exists>out' written. write_buffers fw bufs out = Inr out' \<and> lf_bytes out' = lf_bytes out @ written \<and>
    subseq written (texts bufs) \<and> (disk_ok fw \<longrightarrow> written = texts bufs)"
  using assms
proof (induction bufs arbitrary: out)
  case (Cons b bufs)
  have l: "vec_load 0 (nat (fb_length b)) (fb_data b) = Inr (fb_text b)"
    using Cons.prems by (simp add: buf_ok_def fb_wf_def fb_length_def fb_text_def)
  obtain w where w: "prefix w (fb_text b)" "lf_bytes (lf_append fw (fb_text b) out) = lf_bytes out @ w"
    "disk_ok fw \<longrightarrow> w = fb_text b"
    using lf_append_prefix [of "fb_text b" fw out] by blast
  from Cons.IH [of "lf_append fw (fb_text b) out"] Cons.prems obtain out' ws where
    ws: "write_buffers fw bufs (lf_append fw (fb_text b) out) = Inr out'"
      "lf_bytes out' = lf_bytes (lf_append fw (fb_text b) out) @ ws" "subseq ws (texts bufs)"
      "disk_ok fw \<longrightarrow> ws = texts bufs" by auto
  from w(1) have "subseq w (fb_text b)" by (rule prefix_imp_subseq)
  with ws(3) have "subseq (w @ ws) (texts (b # bufs))" by (simp add: list_emb_append_mono)
  with l w ws show ?case by (intro exI [of _ out'] exI [of _ "w @ ws"]) simp
qed simp

lemma fresh_reset: "buf_ok b \<Longrightarrow> fresh (fb_reset b)"
  by (simp add: buf_ok_def fresh_def fb_wf_def fb_reset_def)

lemma backend_write_ok:
  assumes "back_ok Writing b"
  shows "\<exists>b' written. backend_write fw b = Inr b' \<and> back_ok Looping b' \<and>
    lf_bytes (log_output b') = lf_bytes (log_output b) @ written \<and> subseq written (texts (buffersToWrite b)) \<and>
    (disk_ok fw \<and> length (buffersToWrite b) \<le> 25 \<longrightarrow> written = texts (buffersToWrite b))"
proof -
  let ?all = "buffersToWrite b"
  let ?bufs = "if 25 < length ?all then take 2 ?all else ?all"
  from assms have b: "newBuffer1 b = None" "?all \<noteq> []" "list_all buf_ok ?all"
    "case newBuffer2 b of None \<Rightarrow> 2 \<le> length ?all | Some x \<Rightarrow> fresh x" by (auto simp: back_ok_def)
  have "list_all buf_ok ?bufs" using b(3) by (auto simp: list_all_iff dest: in_set_takeD)
  from write_buffers_ok [OF this, of fw "log_output b"] obtain out' written where
    w: "write_buffers fw ?bufs (log_output b) = Inr out'" "lf_bytes out' = lf_bytes (log_output b) @ written"
      "subseq written (texts ?bufs)" "disk_ok fw \<longrightarrow> written = texts ?bufs" by blast
  have "texts (take 2 ?all) @ texts (drop 2 ?all) = texts ?all"
    by (metis append_take_drop_id texts_simps(3))
  then have "prefix (texts (take 2 ?all)) (texts ?all)" by (metis prefixI)
  then have "subseq (texts ?bufs) (texts ?all)" by (simp add: prefix_imp_subseq)
  with w(3) have sub: "subseq written (texts ?all)" using subseq_order.trans by blast
  define two where "two = (if 2 < length ?bufs then take 2 ?bufs else ?bufs)"
  have two: "two \<noteq> []" "list_all buf_ok two" "2 \<le> length ?all \<Longrightarrow> length two = 2"
    using b(2,3) by (auto simp: two_def list_all_iff dest!: in_set_takeD)
  from two(1,2) have r1: "fresh (fb_reset (last two))" by (intro fresh_reset) (simp add: list_all_iff)
  show ?thesis
  proof (cases "newBuffer2 b")
    case None
    with b(4) two(3) have l: "length two = 2" by simp
    then have bl: "butlast two \<noteq> []" by (cases two) auto
    with two(2) have "buf_ok (last (butlast two))"
      by (metis in_set_butlastD last_in_set list_all_iff)
    with w sub b None r1 two(1) bl fresh_reset show ?thesis
      by (auto simp: backend_write_def Let_def refill_def back_ok_def lf_flush_def af_flush_def simp flip: two_def)
  next
    case (Some x)
    with w sub b r1 two(1) show ?thesis
      by (auto simp: backend_write_def Let_def refill_def back_ok_def lf_flush_def af_flush_def simp flip: two_def)
  qed
qed

lemma al_step_inv:
  assumes inv: "al_inv fw s" and mem: "length mem = kLargeBuffer"
    and line: "\<And>l. a = Log l \<Longrightarrow> length l < kLargeBuffer"
  shows "\<exists>s'. al_step mem fw a s = Inr s' \<and> al_inv fw s'"
proof -
  from inv have f: "front_ok (frontend s)" and b: "back_ok (stage s) (backend s)"
    and sub: "subseq (lf_bytes (log_output (backend s)) @ pending s) (logged s)"
    and eq: "disk_ok fw \<and> \<not> overflowed s \<longrightarrow> lf_bytes (log_output (backend s)) @ pending s = logged s"
    by (auto simp: al_inv_def)
  show ?thesis
  proof (cases a)
    case (Log l)
    from al_append_ok [OF f mem line [OF Log]] obtain f' c c' where
      f': "al_append mem l (frontend s) = Inr f'" "front_ok f'" "al_current (frontend s) = Some c" "al_current f' = Some c'"
      "texts (al_buffers f') @ fb_text c' = texts (al_buffers (frontend s)) @ fb_text c @ l" by auto
    let ?s = "s\<lparr>frontend := f', logged := logged s @ l\<rparr>"
    have "pending ?s = pending s @ l" using f' by (simp add: pending_def)
    with f' b sub eq show ?thesis by (simp add: Log al_inv_def list_emb_append_mono flip: append_assoc)
  next
    case Swap
    show ?thesis
    proof (cases "stage s = Looping \<and> al_running (frontend s)")
      case True
      with backend_swap_ok [OF f, of "backend s"] b obtain f' b' c c' where
        s': "backend_swap (frontend s) (backend s) = Inr (f', b')" "front_ok f'" "back_ok Writing b'"
        "log_output b' = log_output (backend s)" "al_current (frontend s) = Some c" "al_current f' = Some c'"
        "al_buffers f' = []" "fb_text c' = []" "buffersToWrite b' = al_buffers (frontend s) @ [c]" by auto
      have "buffersToWrite (backend s) = []" using b True by (simp add: back_ok_def)
      with s' have "pending (s\<lparr>frontend := f', backend := b', stage := Writing\<rparr>) = pending s"
        by (simp add: pending_def)
      with True s' sub eq show ?thesis by (simp add: Swap al_inv_def)
    qed (use inv in \<open>auto simp: Swap\<close>)
  next
    case Write
    show ?thesis
    proof (cases "stage s = Writing")
      case True
      with backend_write_ok [of "backend s" fw] b obtain b' w where
        w: "backend_write fw (backend s) = Inr b'" "back_ok Looping b'"
        "lf_bytes (log_output b') = lf_bytes (log_output (backend s)) @ w" "subseq w (texts (buffersToWrite (backend s)))"
        "disk_ok fw \<and> length (buffersToWrite (backend s)) \<le> 25 \<longrightarrow> w = texts (buffersToWrite (backend s))" by auto
      let ?s = "s\<lparr>backend := b', stage := Looping, overflowed := overflowed s \<or> 25 < length (buffersToWrite (backend s))\<rparr>"
      have "buffersToWrite b' = []" using w(2) by (simp add: back_ok_def)
      then have p: "pending s = texts (buffersToWrite (backend s)) @ pending ?s" by (simp add: pending_def)
      have "subseq (lf_bytes (log_output b') @ pending ?s) (lf_bytes (log_output (backend s)) @ pending s)"
        unfolding p w(3) using w(4) by (simp add: list_emb_append_mono)
      with sub have "subseq (lf_bytes (log_output b') @ pending ?s) (logged s)" using subseq_order.trans by blast
      moreover have "lf_bytes (log_output b') @ pending ?s = logged s" if "disk_ok fw" "\<not> overflowed ?s"
        using eq w(5) that unfolding p w(3) by simp
      ultimately show ?thesis using True w f by (simp add: Write al_inv_def)
    qed (use inv in \<open>auto simp: Write\<close>)
  next
    case Stop
    with f b sub eq show ?thesis
      by (auto simp: al_inv_def al_stop_def front_ok_def pending_def split: option.splits)
  next
    case Leave
    show ?thesis
    proof (cases "stage s = Looping \<and> \<not> al_running (frontend s)")
      case True
      with f b sub eq show ?thesis
        by (simp add: Leave al_inv_def back_ok_def pending_def lf_flush_def af_flush_def)
    qed (use inv in \<open>auto simp: Leave\<close>)
  qed
qed

lemma al_run_inv:
  assumes "al_inv fw s" "length mem = kLargeBuffer" "\<And>l. Log l \<in> set as \<Longrightarrow> length l < kLargeBuffer"
  shows "\<exists>s'. al_run mem fw as s = Inr s' \<and> al_inv fw s'"
  using assms
proof (induction "as" arbitrary: s)
  case (Cons a "as")
  from al_step_inv [OF Cons.prems(1,2), of a] Cons.prems(3) obtain s1 where
    "al_step mem fw a s = Inr s1" "al_inv fw s1" by (metis list.set_intros(1))
  with Cons show ?case by auto
qed simp

lemma al_start_ok:
  assumes "length mem = kLargeBuffer" "1 < length name"
  shows "\<exists>s. al_start mem name k = Inr s \<and> al_inv fw s \<and> logged s = [] \<and> stage s = Looping \<and>
    al_running (frontend s) \<and> lf_bytes (log_output (backend s)) = []"
  using fresh_new [OF assms(1)] assms(2) fresh_facts(1)
  by (simp add: al_start_def AsyncLogging_new_def backend_new_def LogFile_new_def AppendFile_new_def Let_def
      al_inv_def front_ok_def back_ok_def fresh_def pending_def disk_ok_def)

lemma al_run_logged:
  "al_run mem fw as s = Inr s' \<Longrightarrow> logged s' = logged s @ concat (map (\<lambda>a. case a of Log l \<Rightarrow> l | _ \<Rightarrow> []) as)"
proof (induction "as" arbitrary: s)
  case (Cons a "as")
  then obtain s1 where s: "al_step mem fw a s = Inr s1" "al_run mem fw as s1 = Inr s'" by (auto simp: res_simps)
  have "logged s1 = logged s @ (case a of Log l \<Rightarrow> l | _ \<Rightarrow> [])"
    using s(1) by (cases a) (auto simp: res_simps split: if_splits)
  with Cons.IH [OF s(2)] show ?case by simp
qed simp

text \<open>The lines of a run; the latch operations of \<open>start\<close> and of the logging thread.\<close>

definition lines_of :: "al_action list \<Rightarrow> string" where
  "lines_of as = concat (map (\<lambda>a. case a of Log l \<Rightarrow> l | _ \<Rightarrow> []) as)"

definition start_latch_calls :: "latch_op list" where
  "start_latch_calls = [Latch_wait]"

definition threadFunc_latch_calls :: "latch_op list" where
  "threadFunc_latch_calls = []"

lemma only_waits:
  assumes "mon_run latch_exec (CountDownLatch_new 1) es m"
    and "\<And>t op. Call t op \<in> set es \<Longrightarrow> op = Latch_wait"
  shows "count (shared m) = 1 \<and> (\<forall>t op. op_of (threads m t) = Some op \<longrightarrow> op = Latch_wait) \<and>
    (\<forall>t op r. Return t op r \<notin> set es)"
  using assms
proof (induction rule: mon_run.induct)
  case init
  show ?case by (simp add: CountDownLatch_new_def)
next
  case (step es m e m')
  have prem: "op = Latch_wait" if "Call t op \<in> set es" for t op using step.prems [of t op] that by simp
  have ih: "count (shared m) = 1" "\<And>t op. op_of (threads m t) = Some op \<Longrightarrow> op = Latch_wait"
    "\<And>t op r. Return t op r \<notin> set es"
    using step.IH [OF prem] by auto
  have no: "e \<noteq> Return t op r" for t op r
  proof
    assume e: "e = Return t op r"
    with mon_step_shared [OF step.hyps(2)] obtain ns where
      r: "threads m t = Ready op" "latch_exec op (shared m) = Done (shared m') r ns" by auto
    with ih(2) [of t op] ih(1) show False by (simp add: latch_wait_def)
  qed
  have "shared m' = shared m" using mon_step_shared [OF step.hyps(2)] no by (cases e) auto
  moreover have "op = Latch_wait" if "op_of (threads m' t) = Some op" for t op
  proof (cases e)
    case (Call u op')
    with step.prems [of u op'] have "op' = Latch_wait" by simp
    with that ih(2) mon_step_op_of [OF step.hyps(2), of t] Call show ?thesis by (auto split: if_splits)
  next
    case (Return u op' r)
    with no show ?thesis by blast
  qed (use that ih(2) mon_step_op_of [OF step.hyps(2), of t] in \<open>auto split: if_splits\<close>)
  moreover have "Return t op r \<notin> set (es @ [e])" for t op r using ih(3) [of t op r] no [of t op r] by auto
  ultimately show ?case using ih(1) by simp
qed

section \<open>Properties\<close>





text \<open>
  \<open>start\<close> never returns: it waits on a latch made with 1 that neither \<open>start\<close> nor the
  logging thread counts down, so that in no run, however long, a \<open>wait\<close> on it has returned. The first
  \<open>LOG\<close> of a program, which calls \<open>start\<close>, hangs.
\<close>

theorem log_start_hangs:
  assumes "mon_run latch_exec (CountDownLatch_new 1) es m"
    and "\<And>t op. Call t op \<in> set es \<Longrightarrow> op \<in> set (start_latch_calls @ threadFunc_latch_calls)"
  shows "\<forall>t r. Return t Latch_wait r \<notin> set es"
  using only_waits [OF assms(1)] assms(2) by (simp add: start_latch_calls_def threadFunc_latch_calls_def)

theorem log_start_hangs_witness:
  "mon_run latch_exec (CountDownLatch_new 1) [Call 0 Latch_wait, Sleep 0] \<lparr>shared = \<lparr>count = 1\<rparr>, threads = th_of [Blocked Latch_condition Latch_wait]\<rparr> \<and>
    (\<forall>t r. Return t Latch_wait r \<notin> set [Call 0 Latch_wait, Sleep 0 :: (latch_op, int option) event])"
proof -
  have "sched latch_exec [Enter 0 Latch_wait, Attempt 0] (CountDownLatch_new 1, replicate 1 Away) =
      Some ([Call 0 Latch_wait, Sleep 0], \<lparr>count = 1\<rparr>, [Blocked Latch_condition Latch_wait])"
    by (simp add: CountDownLatch_new_def latch_defs)
  from sched_mon_run [OF this] have r: "mon_run latch_exec (CountDownLatch_new 1) [Call 0 Latch_wait, Sleep 0]
      \<lparr>shared = \<lparr>count = 1\<rparr>, threads = th_of [Blocked Latch_condition Latch_wait]\<rparr>" .
  from log_start_hangs [OF r] r show ?thesis by (auto simp: start_latch_calls_def)
qed

end
