(* ===== verification/Logging.thy ===== *)
theory Logging
  imports AsyncLogging Date
begin

text \<open>
  \<open>base::Logger\<close> (src/base/Logging.h, Logging.cc): one log entry, from the temporary that
  \<open>LOG\<close> makes to the text its destructor hands to the log, and the log all entries share. The
  broken-down local time is an argument.
\<close>

section \<open>Logger\<close>

record Logger =
  lg_stream :: LogStream
  lg_line :: int
  lg_basename :: string

text \<open>\<open>strftime\<close> with this format writes nothing when the text and its NUL do not fit.\<close>

definition strftime_log :: "nat \<Rightarrow> tm \<Rightarrow> string" where
  "strftime_log sz t =
     (let s = dec_int (tm_year t + 1900) @ ''-'' @ fmt_0d 2 (tm_mon t + 1) @ ''-'' @ fmt_0d 2 (tm_mday t) @ '' '' @
            fmt_0d 2 (tm_hour t) @ '':'' @ fmt_0d 2 (tm_min t) @ '':'' @ fmt_0d 2 (tm_sec t) @ [CHR 0x0A]
      in if length s < sz then s else [])"

definition formatTime :: "tm \<Rightarrow> Logger \<Rightarrow> Logger res" where
  "formatTime p_time lg =
     bind_r (shl_cstr (Some (strftime_log 26 p_time)) (lg_stream lg)) (\<lambda>b. Inr (lg\<lparr>lg_stream := b\<rparr>))"

definition Logger_new :: "string \<Rightarrow> tm \<Rightarrow> string \<Rightarrow> int \<Rightarrow> Logger res" where
  "Logger_new mem p_time filename line =
     formatTime p_time \<lparr>lg_stream = FixedBuffer_new mem, lg_line = line, lg_basename = filename\<rparr>"

text \<open>The text that the destructor passes to \<open>output\<close>.\<close>

definition Logger_delete :: "Logger \<Rightarrow> string res" where
  "Logger_delete lg =
     bind_r (shl_cstr (Some '' -- '') (lg_stream lg)) (\<lambda>b.
     bind_r (shl_string (lg_basename lg) b) (\<lambda>b.
     bind_r (shl_cstr (Some '':'') b) (\<lambda>b.
     bind_r (shl_int (lg_line lg) b) (\<lambda>b.
     bind_r (shl_char (CHR 0x0A) b) (\<lambda>buf.
       vec_load 0 (nat (fb_length buf)) (fb_data buf))))))"

text \<open>\<open>LOG << item << ... ;\<close>\<close>

definition log_entry :: "string \<Rightarrow> tm \<Rightarrow> string \<Rightarrow> int \<Rightarrow> log_item list \<Rightarrow> string res" where
  "log_entry mem p_time filename line items =
     bind_r (Logger_new mem p_time filename line) (\<lambda>lg.
     bind_r (stream.puts items (lg_stream lg)) (\<lambda>b. Logger_delete (lg\<lparr>lg_stream := b\<rparr>)))"

section \<open>The text of an entry\<close>

definition entry_items :: "tm \<Rightarrow> string \<Rightarrow> int \<Rightarrow> log_item list \<Rightarrow> log_item list" where
  "entry_items p_time filename line items =
     CStr_item (Some (strftime_log 26 p_time)) # items @
     [CStr_item (Some '' -- ''), Str_item filename, CStr_item (Some '':''), Int_item line, Char_item (CHR 0x0A)]"

lemma log_entry_puts:
  "log_entry mem p_time filename line items =
     bind_r (stream.puts (entry_items p_time filename line items) (FixedBuffer_new mem)) (\<lambda>buf.
       vec_load 0 (nat (fb_length buf)) (fb_data buf))"
  by (simp add: log_entry_def Logger_new_def formatTime_def Logger_delete_def entry_items_def stream.puts_append bind_r_assoc)

lemma strftime_log_short: "length (strftime_log 26 p_time) < 26"
  by (simp add: strftime_log_def Let_def)

text \<open>The text of the time has no NUL.\<close>

lemma no_nul_dec: "CHR 0x00 \<notin> set (dec_nat n)" "CHR 0x00 \<notin> set (dec_int x)" "CHR 0x00 \<notin> set (fmt_0d w x)"
  using dec_nat_digits [of "CHR 0x00"] by (auto simp: dec_int_def fmt_0d_def)

lemma strftime_log_text: "item_text (CStr_item (Some (strftime_log 26 p_time))) = strftime_log 26 p_time"
  by (auto simp: takeWhile_eq_all_conv strftime_log_def Let_def dest!: no_nul_dec [THEN notE, rotated])

section \<open>The log behind all entries\<close>

text \<open>
  \<open>pthread_once\<close>: the first thread that comes runs the routine, the others wait until it has
  returned. Of \<open>AsyncLogger_\<close> the state has the file name, the latch of its \<open>start\<close>, as a
  monitor, and what was appended.
\<close>

datatype once = Once_new | Once_running nat | Once_done

record log_globals =
  gl_once :: once
  gl_logFileName :: string
  gl_AsyncLogger :: "string option"
  gl_latch :: "(CountDownLatch, latch_condition, latch_op) Monitor"
  gl_appended :: "string list"

definition log_globals_init :: log_globals where
  "log_globals_init =
     \<lparr>gl_once = Once_new, gl_logFileName = ''./g5.log'', gl_AsyncLogger = None,
      gl_latch = \<lparr>shared = CountDownLatch_new 1, threads = \<lambda>_. Away\<rparr>, gl_appended = []\<rparr>"

definition setLogFileName :: "string \<Rightarrow> log_globals \<Rightarrow> log_globals" where
  "setLogFileName filename g = g\<lparr>gl_logFileName := filename\<rparr>"

definition getLogFileName :: "log_globals \<Rightarrow> string" where
  "getLogFileName g = gl_logFileName g"

text \<open>Thread \<open>t\<close> has entered \<open>start\<close> and called \<open>wait\<close>, which made the latch \<open>m\<close>.\<close>

definition once_init :: "nat \<Rightarrow> (CountDownLatch, latch_condition, latch_op) Monitor \<Rightarrow> log_globals \<Rightarrow> log_globals" where
  "once_init t m g = g\<lparr>gl_once := Once_running t, gl_AsyncLogger := Some (getLogFileName g), gl_latch := m\<rparr>"

text \<open>\<open>None\<close> while the routine has not returned.\<close>

definition log_output :: "string \<Rightarrow> log_globals \<Rightarrow> log_globals option" where
  "log_output msg g = (if gl_once g = Once_done then Some (g\<lparr>gl_appended := gl_appended g @ [msg]\<rparr>) else None)"

inductive log_run :: "(latch_op, int option) event list \<Rightarrow> log_globals \<Rightarrow> bool" where
  log_none: "log_run [] log_globals_init"
| log_name: "log_run es g \<Longrightarrow> log_run es (setLogFileName f g)"
| log_first: "log_run es g \<Longrightarrow> gl_once g = Once_new \<Longrightarrow> op \<in> set start_latch_calls \<Longrightarrow>
    mon_step latch_exec (gl_latch g) (Call t op) m \<Longrightarrow> log_run (es @ [Call t op]) (once_init t m g)"
| log_thread: "log_run es g \<Longrightarrow> op \<in> set threadFunc_latch_calls \<Longrightarrow>
    mon_step latch_exec (gl_latch g) (Call t op) m \<Longrightarrow> log_run (es @ [Call t op]) (g\<lparr>gl_latch := m\<rparr>)"
| log_sleep: "log_run es g \<Longrightarrow> mon_step latch_exec (gl_latch g) e m \<Longrightarrow> e = Sleep t \<or> e = Wake t \<Longrightarrow>
    log_run (es @ [e]) (g\<lparr>gl_latch := m\<rparr>)"
| log_return: "log_run es g \<Longrightarrow> mon_step latch_exec (gl_latch g) (Return t op r) m \<Longrightarrow>
    log_run (es @ [Return t op r])
      (g\<lparr>gl_latch := m, gl_once := (if gl_once g = Once_running t then Once_done else gl_once g)\<rparr>)"
| log_append: "log_run es g \<Longrightarrow> log_output msg g = Some g' \<Longrightarrow> log_run es g'"

lemma log_run_stuck:
  "log_run es g \<Longrightarrow> mon_run latch_exec (CountDownLatch_new 1) es (gl_latch g) \<and>
    (\<forall>t op. Call t op \<in> set es \<longrightarrow> op = Latch_wait) \<and> gl_appended g = [] \<and> gl_once g \<noteq> Once_done"
proof (induction rule: log_run.induct)
  case log_none
  then show ?case using mon_run.init [of latch_exec "CountDownLatch_new 1"] by (simp add: log_globals_init_def)
next
  case (log_first es g op t m)
  then show ?case using mon_run.step by (fastforce simp: once_init_def start_latch_calls_def)
next
  case (log_thread es g op t m)
  then show ?case by (simp add: threadFunc_latch_calls_def)
next
  case (log_sleep es g e m t)
  then show ?case using mon_run.step by fastforce
next
  case (log_return es g t op r m)
  then have "mon_run latch_exec (CountDownLatch_new 1) (es @ [Return t op r]) m" using mon_run.step by fastforce
  moreover have "op' = Latch_wait" if "Call t' op' \<in> set (es @ [Return t op r])" for t' op'
    using that log_return.IH by auto
  ultimately have "Return t op r \<notin> set (es @ [Return t op r])" using only_waits by blast
  then show ?case by simp
qed (auto simp: setLogFileName_def log_output_def)

section \<open>Properties\<close>

text \<open>
  An entry is built without a fault and is short enough for the log; when its parts fit the small
  buffer with the 32 bytes a number needs, its text is the time, what was inserted, and the file and line
  it comes from, to the end of the line.
\<close>

theorem log_entry_text:
  assumes "length mem = kSmallBuffer" "list_all item_ok items" "length filename < 2 ^ 31" "in32 line"
  shows "\<exists>entry. log_entry mem p_time filename line items = Inr entry \<and> length entry < kLargeBuffer \<and>
    (length (concat (map item_text items)) + length filename + 80 \<le> kSmallBuffer \<longrightarrow>
       entry = strftime_log 26 p_time @ concat (map item_text items) @ '' -- '' @ filename @ '':'' @
         dec_int line @ [CHR 0x0A])"
proof -
  let ?items = "entry_items p_time filename line items"
  have new: "fb_wf (FixedBuffer_new mem)" "fb_text (FixedBuffer_new mem) = []" "fb_room (FixedBuffer_new mem) = kSmallBuffer"
    using assms(1) by (simp_all add: fb_wf_def FixedBuffer_new_def fb_text_def fb_room_def kSmallBuffer_def)
  have "length (strftime_log 26 p_time) < 2 ^ 31" using strftime_log_short [of p_time] by simp
  then have ok: "list_all item_ok ?items" using assms(2-4) by (simp add: entry_items_def in32_def)
  obtain b where b: "stream.puts ?items (FixedBuffer_new mem) = Inr b" "fb_wf b"
    using stream.puts_subseq [OF new(1) ok] by auto
  have len: "length (fb_text b) \<le> kSmallBuffer" using stream_size [OF b(1) new(1) ok] new by simp
  have "log_entry mem p_time filename line items = Inr (fb_text b)"
    using b by (simp add: log_entry_puts fb_wf_def fb_length_def fb_text_def)
  moreover have "fb_text b = strftime_log 26 p_time @ concat (map item_text items) @ '' -- '' @ filename @ '':'' @
      dec_int line @ [CHR 0x0A]"
    if "length (concat (map item_text items)) + length filename + 80 \<le> kSmallBuffer"
  proof -
    have l: "length (dec_int line) \<le> 11"
    proof -
      have "nat (- line) < 10 ^ 10" "nat line < 10 ^ 10" using assms(4) by (auto simp: in32_def)
      then have "length (dec_nat (nat (- line))) \<le> 10" "length (dec_nat (nat line)) \<le> 10"
        using length_dec_nat_le by simp_all
      then show ?thesis by (simp add: dec_int_def)
    qed
    have t: "concat (map item_text ?items) = strftime_log 26 p_time @ concat (map item_text items) @ '' -- '' @ filename @ '':'' @
        dec_int line @ [CHR 0x0A]"
      using strftime_log_text [of p_time] by (simp add: entry_items_def)
    have "length (concat (map item_text ?items)) + 32 \<le> fb_room (FixedBuffer_new mem)"
      unfolding t new(3) using that l strftime_log_short [of p_time] by simp
    from stream.puts_fit [OF new(1) ok this b(1)] new(2) t show ?thesis by simp
  qed
  ultimately show ?thesis using len by (auto simp: kSmallBuffer_def kLargeBuffer_def)
qed

theorem log_entry_text_witness:
  "\<exists>t. log_entry (replicate 4000 CHR 0x00) t ''g5.cc'' 42 [Str_item ''fd = '', Int_item (- 7)] =
    Inr (strftime_log 26 t @ ''fd = -7 -- g5.cc:42'' @ [CHR 0x0A])"
proof -
  let ?items = "[Str_item ''fd = '', Int_item (- 7)]"
  have "dec_int (- 7) = ''-7''" "dec_int 42 = ''42''" by code_simp+
  then have "log_entry (replicate 4000 CHR 0x00) t ''g5.cc'' 42 ?items =
    Inr (strftime_log 26 t @ ''fd = -7 -- g5.cc:42'' @ [CHR 0x0A])" for t
    using log_entry_text [of "replicate 4000 CHR 0x00" ?items "''g5.cc''" 42 t] by (simp add: kSmallBuffer_def in32_def)
  then show ?thesis by blast
qed



end
