(* ===== verification/Any.thy ===== *)
theory Any
  imports Prelude
begin

text \<open>
  \<open>base::any\<close> (src/base/any.h): a value of any type behind a pointer to an object on the heap.
  Objects and heap are kept apart, so that aliasing, sharing, leaks and double deletions are
  states of the model. A failing operation leaves the memory it reached with its fault. The header
  spells \<open>placeholder\<close> and \<open>type_info\<close> in two ways each; the model reads both as the one class.
\<close>

section \<open>Memory\<close>

text \<open>A holder has the type it was instantiated with. \<open>Temporary\<close> is the object an expression makes.\<close>

record ('t, 'v) holder =
  holder_type :: 't
  held :: 'v

datatype 'x obj = Named 'x | Temporary

record ('x, 't, 'v) any_mem =
  any_content :: "'x obj \<Rightarrow> nat option option"
  any_heap :: "nat \<Rightarrow> ('t, 'v) holder option"

datatype 't type_info = Void | Typeid 't

type_synonym ('x, 't, 'v) any_res = "(fault \<times> ('x, 't, 'v) any_mem) + ('x, 't, 'v) any_mem"

section \<open>Constructors and destructor\<close>

definition any_default :: "'x obj \<Rightarrow> ('x, 't, 'v) any_mem \<Rightarrow> ('x, 't, 'v) any_res" where
  "any_default x m = Inr (m\<lparr>any_content := (any_content m)(x \<mapsto> None)\<rparr>)"

definition new_holder ::
  "allocator \<Rightarrow> ('t, 'v) holder \<Rightarrow> 'x obj \<Rightarrow> ('x, 't, 'v) any_mem \<Rightarrow> ('x, 't, 'v) any_res" where
  "new_holder new h x m =
     (case operator_new new (dom (any_heap m)) of
        None \<Rightarrow> Inl (BadAlloc, m)
      | Some p \<Rightarrow> Inr (m\<lparr>any_content := (any_content m)(x \<mapsto> Some p), any_heap := (any_heap m)(p \<mapsto> h)\<rparr>))"

definition any_of_value :: "allocator \<Rightarrow> 'x obj \<Rightarrow> 't \<Rightarrow> 'v \<Rightarrow> ('x, 't, 'v) any_mem \<Rightarrow> ('x, 't, 'v) any_res" where
  "any_of_value new x t v m = new_holder new \<lparr>holder_type = t, held = v\<rparr> x m"

definition clone :: "allocator \<Rightarrow> nat \<Rightarrow> 'x obj \<Rightarrow> ('x, 't, 'v) any_mem \<Rightarrow> ('x, 't, 'v) any_res" where
  "clone new p x m =
     (case any_heap m p of
        None \<Rightarrow> Inl (Undefined, m)
      | Some h \<Rightarrow> new_holder new \<lparr>holder_type = holder_type h, held = held h\<rparr> x m)"

definition any_copy :: "allocator \<Rightarrow> 'x obj \<Rightarrow> 'x obj \<Rightarrow> ('x, 't, 'v) any_mem \<Rightarrow> ('x, 't, 'v) any_res" where
  "any_copy new x other m =
     (case any_content m other of
        None \<Rightarrow> Inl (Undefined, m)
      | Some None \<Rightarrow> any_default x m
      | Some (Some p) \<Rightarrow> clone new p x m)"

definition any_delete :: "'x obj \<Rightarrow> ('x, 't, 'v) any_mem \<Rightarrow> ('x, 't, 'v) any_res" where
  "any_delete x m =
     (case any_content m x of
        None \<Rightarrow> Inl (Undefined, m)
      | Some None \<Rightarrow> Inr (m\<lparr>any_content := (any_content m)(x := None)\<rparr>)
      | Some (Some p) \<Rightarrow>
          if any_heap m p = None then Inl (Undefined, m)
          else Inr (m\<lparr>any_content := (any_content m)(x := None), any_heap := (any_heap m)(p := None)\<rparr>))"

section \<open>Modifiers\<close>

definition any_swap :: "'x obj \<Rightarrow> 'x obj \<Rightarrow> ('x, 't, 'v) any_mem \<Rightarrow> ('x, 't, 'v) any_res" where
  "any_swap this rhs m =
     (case (any_content m this, any_content m rhs) of
        (Some tmp, Some r) \<Rightarrow> Inr (m\<lparr>any_content := ((any_content m)(this \<mapsto> r))(rhs \<mapsto> tmp)\<rparr>)
      | _ \<Rightarrow> Inl (Undefined, m))"

text \<open>The temporary dies at the end of the full expression.\<close>

definition assign_value :: "allocator \<Rightarrow> 'x obj \<Rightarrow> 't \<Rightarrow> 'v \<Rightarrow> ('x, 't, 'v) any_mem \<Rightarrow> ('x, 't, 'v) any_res" where
  "assign_value new this t v m =
     bind_r (any_of_value new Temporary t v m) (\<lambda>m. bind_r (any_swap Temporary this m) (any_delete Temporary))"

definition assign :: "allocator \<Rightarrow> 'x obj \<Rightarrow> 'x obj \<Rightarrow> ('x, 't, 'v) any_mem \<Rightarrow> ('x, 't, 'v) any_res" where
  "assign new this rhs m =
     bind_r (any_copy new Temporary rhs m) (\<lambda>m. bind_r (any_swap Temporary this m) (any_delete Temporary))"

definition any_clear :: "'x obj \<Rightarrow> ('x, 't, 'v) any_mem \<Rightarrow> ('x, 't, 'v) any_res" where
  "any_clear this m =
     bind_r (any_default Temporary m) (\<lambda>m. bind_r (any_swap Temporary this m) (any_delete Temporary))"

section \<open>Queries\<close>

definition any_empty :: "'x obj \<Rightarrow> ('x, 't, 'v) any_mem \<Rightarrow> bool res" where
  "any_empty x m = (case any_content m x of None \<Rightarrow> Inl Undefined | Some c \<Rightarrow> Inr (c = None))"

definition any_type :: "'x obj \<Rightarrow> ('x, 't, 'v) any_mem \<Rightarrow> 't type_info res" where
  "any_type x m =
     (case any_content m x of
        None \<Rightarrow> Inl Undefined
      | Some None \<Rightarrow> Inr Void
      | Some (Some p) \<Rightarrow> (case any_heap m p of None \<Rightarrow> Inl Undefined | Some h \<Rightarrow> Inr (Typeid (holder_type h))))"

text \<open>The \<open>static_cast\<close> to a holder of another type is undefined.\<close>

definition any_cast :: "'t \<Rightarrow> 'x obj \<Rightarrow> ('x, 't, 'v) any_mem \<Rightarrow> 'v res" where
  "any_cast t x m =
     bind_r (any_type x m) (\<lambda>ty. cassert (ty = Typeid t)
       (case any_content m x of
          Some (Some p) \<Rightarrow>
            (case any_heap m p of
               Some h \<Rightarrow> if holder_type h = t then Inr (held h) else Inl Undefined
             | None \<Rightarrow> Inl Undefined)
        | _ \<Rightarrow> Inl Undefined))"

section \<open>The value semantics\<close>

text \<open>
  What a user of the class thinks of: named variables with no value, or a value and its type.
  \<open>any_exec\<close> is the class, \<open>any_spec\<close> the thought.
\<close>

datatype ('x, 't, 'v) any_op =
    Any_default 'x
  | Any_value 'x 't 'v
  | Any_copy 'x 'x
  | Any_delete 'x
  | Any_swap 'x 'x
  | Any_assign_value 'x 't 'v
  | Any_assign 'x 'x
  | Any_clear 'x

fun any_exec :: "allocator \<Rightarrow> ('x, 't, 'v) any_op \<Rightarrow> ('x, 't, 'v) any_mem \<Rightarrow> ('x, 't, 'v) any_res" where
  "any_exec new (Any_default x) = any_default (Named x)"
| "any_exec new (Any_value x t v) = any_of_value new (Named x) t v"
| "any_exec new (Any_copy x y) = any_copy new (Named x) (Named y)"
| "any_exec new (Any_delete x) = any_delete (Named x)"
| "any_exec new (Any_swap x y) = any_swap (Named x) (Named y)"
| "any_exec new (Any_assign_value x t v) = assign_value new (Named x) t v"
| "any_exec new (Any_assign x y) = assign new (Named x) (Named y)"
| "any_exec new (Any_clear x) = any_clear (Named x)"

type_synonym ('x, 't, 'v) any_values = "'x \<Rightarrow> ('t \<times> 'v) option option"

fun any_spec :: "('x, 't, 'v) any_op \<Rightarrow> ('x, 't, 'v) any_values \<Rightarrow> ('x, 't, 'v) any_values" where
  "any_spec (Any_default x) s = s(x \<mapsto> None)"
| "any_spec (Any_value x t v) s = s(x \<mapsto> Some (t, v))"
| "any_spec (Any_copy x y) s = s(x := s y)"
| "any_spec (Any_delete x) s = s(x := None)"
| "any_spec (Any_swap x y) s = s(x := s y, y := s x)"
| "any_spec (Any_assign_value x t v) s = s(x \<mapsto> Some (t, v))"
| "any_spec (Any_assign x y) s = s(x := s y)"
| "any_spec (Any_clear x) s = s(x \<mapsto> None)"

text \<open>What scoping in C++ guarantees: constructed objects are new, used ones alive.\<close>

fun any_scoped :: "('x, 't, 'v) any_op \<Rightarrow> 'x set \<Rightarrow> bool" where
  "any_scoped (Any_default x) A \<longleftrightarrow> x \<notin> A"
| "any_scoped (Any_value x t v) A \<longleftrightarrow> x \<notin> A"
| "any_scoped (Any_copy x y) A \<longleftrightarrow> x \<notin> A \<and> y \<in> A"
| "any_scoped (Any_delete x) A \<longleftrightarrow> x \<in> A"
| "any_scoped (Any_swap x y) A \<longleftrightarrow> x \<in> A \<and> y \<in> A"
| "any_scoped (Any_assign_value x t v) A \<longleftrightarrow> x \<in> A"
| "any_scoped (Any_assign x y) A \<longleftrightarrow> x \<in> A \<and> y \<in> A"
| "any_scoped (Any_clear x) A \<longleftrightarrow> x \<in> A"


section \<open>The class has the value semantics\<close>

text \<open>Each allocated holder belongs to exactly one object, and nothing dangles.\<close>

definition any_inv :: "('x, 't, 'v) any_mem \<Rightarrow> bool" where
  "any_inv m \<longleftrightarrow> (\<forall>p. any_heap m p \<noteq> None \<longleftrightarrow> (\<exists>x. any_content m x = Some (Some p))) \<and>
     (\<forall>x y p. any_content m x = Some (Some p) \<longrightarrow> any_content m y = Some (Some p) \<longrightarrow> x = y)"

definition obj_values :: "('x, 't, 'v) any_mem \<Rightarrow> 'x obj \<Rightarrow> ('t \<times> 'v) option option" where
  "obj_values m x =
     (case any_content m x of
        None \<Rightarrow> None
      | Some None \<Rightarrow> Some None
      | Some (Some p) \<Rightarrow> Some (map_option (\<lambda>h. (holder_type h, held h)) (any_heap m p)))"

definition implements ::
  "('x, 't, 'v) any_res \<Rightarrow> ('x, 't, 'v) any_mem \<Rightarrow> ('x obj \<Rightarrow> ('t \<times> 'v) option option) \<Rightarrow> bool" where
  "implements r m s \<longleftrightarrow>
     (case r of Inl (e, m') \<Rightarrow> e = BadAlloc \<and> m' = m | Inr m' \<Rightarrow> any_inv m' \<and> obj_values m' = s)"

lemma implements_simps [simp]:
  "implements (Inl (e, m')) m s \<longleftrightarrow> e = BadAlloc \<and> m' = m"
  "implements (Inr m') m s \<longleftrightarrow> any_inv m' \<and> obj_values m' = s"
  by (simp_all add: implements_def)

lemma alive_iff: "any_content m x = None \<longleftrightarrow> obj_values m x = None"
  by (simp add: obj_values_def split: option.splits)

lemma any_invD:
  assumes "any_inv m" "any_content m x = Some (Some p)"
  shows "\<exists>h. any_heap m p = Some h" "any_content m y = Some (Some p) \<Longrightarrow> y = x"
  using assms unfolding any_inv_def by (metis not_None_eq)+

lemma null_update:
  assumes "any_inv m" "\<And>p. any_content m x \<noteq> Some (Some p)" "\<And>p. c \<noteq> Some (Some p)"
  shows "implements (Inr (m\<lparr>any_content := (any_content m)(x := c)\<rparr>)) m
    ((obj_values m)(x := (case c of None \<Rightarrow> None | Some _ \<Rightarrow> Some None)))"
proof -
  let ?m = "m\<lparr>any_content := (any_content m)(x := c)\<rparr>"
  have "any_content ?m y = Some (Some p) \<longleftrightarrow> any_content m y = Some (Some p)" for y p
    using assms(2,3) by simp
  then have "any_inv ?m" using assms(1) unfolding any_inv_def by simp
  moreover have "obj_values ?m = (obj_values m)(x := (case c of None \<Rightarrow> None | Some _ \<Rightarrow> Some None))"
    using assms(3) by (auto simp: obj_values_def fun_eq_iff split: option.splits)
  ultimately show ?thesis by simp
qed

lemma default_implements:
  assumes "any_inv m" "obj_values m x = None"
  shows "implements (any_default x m) m ((obj_values m)(x \<mapsto> None))"
proof -
  have "any_content m x = None" using assms(2) alive_iff by metis
  then show ?thesis using null_update [OF assms(1), of x "Some None"] by (simp add: any_default_def)
qed

lemma new_holder_implements:
  assumes "any_inv m" "obj_values m x = None"
  shows "implements (new_holder new h x m) m ((obj_values m)(x \<mapsto> Some (holder_type h, held h)))"
proof (cases "operator_new new (dom (any_heap m))")
  case None
  then show ?thesis by (simp add: new_holder_def)
next
  case (Some p)
  have x: "any_content m x = None" using assms(2) alive_iff by metis
  have p: "any_heap m p = None" using operator_new [OF Some] by auto
  then have np: "any_content m y \<noteq> Some (Some p)" for y using assms(1) unfolding any_inv_def by metis
  let ?m = "m\<lparr>any_content := (any_content m)(x \<mapsto> Some p), any_heap := (any_heap m)(p \<mapsto> h)\<rparr>"
  have o: "any_content ?m y = Some (Some q) \<longleftrightarrow> y = x \<and> q = p \<or> any_content m y = Some (Some q)" for y q
    using x by auto
  have "any_inv ?m" using assms(1) np unfolding any_inv_def o by auto
  moreover have "obj_values ?m = (obj_values m)(x \<mapsto> Some (holder_type h, held h))"
    using np by (auto simp: obj_values_def fun_eq_iff split: option.splits)
  ultimately show ?thesis by (simp add: new_holder_def Some)
qed

lemma copy_implements:
  assumes "any_inv m" "obj_values m x = None" "obj_values m y \<noteq> None"
  shows "implements (any_copy new x y m) m ((obj_values m)(x := obj_values m y))"
proof (cases "any_content m y")
  case None
  then show ?thesis using assms(3) by (simp add: alive_iff)
next
  case (Some c)
  show ?thesis
  proof (cases c)
    case None
    then show ?thesis
      using default_implements [OF assms(1,2)] Some by (simp add: any_copy_def obj_values_def [of _ y])
  next
    case (Some p)
    with \<open>any_content m y = Some c\<close> any_invD(1) [OF assms(1)] obtain h where
      "any_content m y = Some (Some p)" "any_heap m p = Some h" by blast
    then show ?thesis
      using new_holder_implements [OF assms(1,2), of new h]
      by (cases h) (simp add: any_copy_def clone_def obj_values_def [of _ y])
  qed
qed

lemma delete_implements:
  assumes "any_inv m" "obj_values m x \<noteq> None"
  shows "implements (any_delete x m) m ((obj_values m)(x := None)) \<and> (\<exists>m'. any_delete x m = Inr m')"
proof (cases "any_content m x")
  case None
  then show ?thesis using assms(2) by (simp add: alive_iff)
next
  case (Some c)
  show ?thesis
  proof (cases c)
    case None
    with Some null_update [OF assms(1), of x None] show ?thesis by (simp add: any_delete_def)
  next
    case (Some p)
    with \<open>any_content m x = Some c\<close> have x: "any_content m x = Some (Some p)" by simp
    from any_invD [OF assms(1) x] obtain h where
      p: "any_heap m p = Some h" "\<And>y. any_content m y = Some (Some p) \<Longrightarrow> y = x" by blast
    let ?m = "m\<lparr>any_content := (any_content m)(x := None), any_heap := (any_heap m)(p := None)\<rparr>"
    have o: "any_content ?m y = Some (Some q) \<longleftrightarrow> q \<noteq> p \<and> any_content m y = Some (Some q)" for y q
      using p(2) [of y] x by (cases "y = x") auto
    have h: "any_heap ?m q \<noteq> None \<longleftrightarrow> q \<noteq> p \<and> any_heap m q \<noteq> None" for q by simp
    have "any_inv ?m"
      unfolding any_inv_def o h
    proof (intro conjI allI impI)
      show "q \<noteq> p \<and> any_heap m q \<noteq> None \<longleftrightarrow> (\<exists>z. q \<noteq> p \<and> any_content m z = Some (Some q))" for q
        using assms(1) by (simp add: any_inv_def)
      show "y = z" if "q \<noteq> p \<and> any_content m y = Some (Some q)" "q \<noteq> p \<and> any_content m z = Some (Some q)" for y z q
        using that any_invD(2) [OF assms(1)] by blast
    qed
    moreover have "obj_values ?m = (obj_values m)(x := None)"
      using p(2) by (auto simp: obj_values_def fun_eq_iff split: option.splits)
    ultimately show ?thesis by (simp add: any_delete_def x p)
  qed
qed

lemma swap_implements:
  assumes "any_inv m" "obj_values m x \<noteq> None" "obj_values m y \<noteq> None"
  shows "implements (any_swap x y m) m ((obj_values m)(x := obj_values m y, y := obj_values m x)) \<and>
    (\<exists>m'. any_swap x y m = Inr m')"
proof -
  obtain c d where cd: "any_content m x = Some c" "any_content m y = Some d"
    using assms(2,3) alive_iff [of m x] alive_iff [of m y] by auto
  let ?m = "m\<lparr>any_content := ((any_content m)(x \<mapsto> d))(y \<mapsto> c)\<rparr>"
  have "any_inv ?m"
    unfolding any_inv_def
  proof (intro conjI allI)
    fix p
    have o: "any_content ?m (if z = x then y else if z = y then x else z) = any_content m z" for z
      using cd by simp
    have "(\<exists>z. any_content ?m z = Some (Some p)) \<longleftrightarrow> (\<exists>z. any_content m z = Some (Some p))"
    proof
      assume "\<exists>z. any_content ?m z = Some (Some p)"
      then obtain z where "any_content ?m z = Some (Some p)" ..
      then have "any_content m (if z = x then y else if z = y then x else z) = Some (Some p)"
        using cd by (auto split: if_splits)
      then show "\<exists>z. any_content m z = Some (Some p)" ..
    next
      assume "\<exists>z. any_content m z = Some (Some p)"
      then show "\<exists>z. any_content ?m z = Some (Some p)" using o by metis
    qed
    then show "any_heap ?m p \<noteq> None \<longleftrightarrow> (\<exists>z. any_content ?m z = Some (Some p))"
      using assms(1) by (simp add: any_inv_def)
  next
    fix z w p
    show "any_content ?m z = Some (Some p) \<longrightarrow> any_content ?m w = Some (Some p) \<longrightarrow> z = w"
      using assms(1) cd by (auto dest: any_invD(2) split: if_splits)
  qed
  moreover have "obj_values ?m = (obj_values m)(x := obj_values m y, y := obj_values m x)"
    using cd by (auto simp: obj_values_def fun_eq_iff split: option.splits)
  ultimately show ?thesis using cd by (simp add: any_swap_def)
qed


text \<open>The expressions that go through a temporary.\<close>

lemma through_temporary:
  assumes "implements r m ((obj_values m)(Temporary \<mapsto> c))" "obj_values m Temporary = None"
    and "obj_values m (Named x) \<noteq> None"
  shows "implements (bind_r r (\<lambda>m. bind_r (any_swap Temporary (Named x) m) (any_delete Temporary))) m
    ((obj_values m)(Named x \<mapsto> c))"
proof (cases r)
  case (Inl a)
  then show ?thesis using assms(1) by (cases a) simp
next
  case (Inr m1)
  then have m1: "any_inv m1" "obj_values m1 = (obj_values m)(Temporary \<mapsto> c)" using assms(1) by simp_all
  with swap_implements [OF m1(1), of Temporary "Named x"] assms(3) obtain m2 where
    m2: "any_swap Temporary (Named x) m1 = Inr m2" "any_inv m2"
      "obj_values m2 = (obj_values m)(Temporary := obj_values m (Named x), Named x \<mapsto> c)"
    by auto
  with delete_implements [OF m2(2), of Temporary] assms(3) obtain m3 where
    m3: "any_delete Temporary m2 = Inr m3" "any_inv m3"
      "obj_values m3 = (obj_values m)(Temporary := None, Named x \<mapsto> c)"
    by (auto simp: fun_upd_twist)
  moreover have "(obj_values m)(Temporary := None) = obj_values m" using assms(2) by (simp add: fun_upd_idem)
  ultimately show ?thesis using Inr m2 by simp
qed

definition any_values :: "('x, 't, 'v) any_mem \<Rightarrow> ('x, 't, 'v) any_values" where
  "any_values m x = obj_values m (Named x)"

lemma any_values_upd:
  "obj_values m' = (obj_values m)(Named x := c) \<Longrightarrow> any_values m' = (any_values m)(x := c)"
  by (auto simp: any_values_def fun_eq_iff)

lemma exec_implements:
  assumes inv: "any_inv m" and tmp: "obj_values m Temporary = None" and sc: "any_scoped op (dom (any_values m))"
  shows "case any_exec new op m of
      Inl (e, m') \<Rightarrow> e = BadAlloc \<and> m' = m
    | Inr m' \<Rightarrow> any_inv m' \<and> obj_values m' Temporary = None \<and> any_values m' = any_spec op (any_values m)"
proof -
  have one: ?thesis
    if "implements (any_exec new op m) m ((obj_values m)(Named x := c))" "any_spec op (any_values m) = (any_values m)(x := c)"
    for x c
    using that tmp any_values_upd by (auto simp: implements_def split: sum.splits prod.splits)
  have dom: "x \<in> dom (any_values m) \<longleftrightarrow> obj_values m (Named x) \<noteq> None" for x
    by (simp add: any_values_def domIff)
  show ?thesis
  proof (cases op)
    case (Any_default x)
    then show ?thesis using one [of x "Some None"] default_implements [OF inv, of "Named x"] sc dom by simp
  next
    case (Any_value x t v)
    then show ?thesis
      using one [of x "Some (Some (t, v))"] new_holder_implements [OF inv, of "Named x" new "\<lparr>holder_type = t, held = v\<rparr>"] sc dom
      by (simp add: any_of_value_def)
  next
    case (Any_copy x y)
    then show ?thesis
      using one [of x "any_values m y"] copy_implements [OF inv, of "Named x" "Named y"] sc dom by (simp add: any_values_def)
  next
    case (Any_delete x)
    then show ?thesis using one [of x None] delete_implements [OF inv, of "Named x"] sc dom by simp
  next
    case (Any_swap x y)
    then obtain m' where m': "any_swap (Named x) (Named y) m = Inr m'" "any_inv m'"
      "obj_values m' = (obj_values m)(Named x := obj_values m (Named y), Named y := obj_values m (Named x))"
      using swap_implements [OF inv, of "Named x" "Named y"] sc dom by auto
    then have "any_values m' = (any_values m)(x := any_values m y, y := any_values m x)"
      by (auto simp: any_values_def fun_eq_iff)
    then show ?thesis using m' tmp Any_swap by simp
  next
    case (Any_assign_value x t v)
    then show ?thesis
      using one [of x "Some (Some (t, v))"] sc dom
        through_temporary [OF new_holder_implements [OF inv tmp, of new "\<lparr>holder_type = t, held = v\<rparr>", simplified] tmp]
      by (simp add: assign_value_def any_of_value_def)
  next
    case (Any_assign x y)
    then obtain c where c: "obj_values m (Named y) = Some c" "obj_values m (Named x) \<noteq> None"
      using sc dom by auto
    from copy_implements [OF inv tmp, of "Named y" new] c
    have "implements (any_copy new Temporary (Named y) m) m ((obj_values m)(Temporary \<mapsto> c))" by simp
    from through_temporary [OF this tmp c(2)] show ?thesis
      using one [of x "Some c"] Any_assign c by (simp add: assign_def any_values_def)
  next
    case (Any_clear x)
    then show ?thesis
      using one [of x "Some None"] sc dom through_temporary [OF default_implements [OF inv tmp] tmp]
      by (simp add: any_clear_def)
  qed
qed

text \<open>
  A program that uses the class: an operation either ends or throws, and in that case the program
  goes on with the memory it left.
\<close>

inductive any_reach ::
  "allocator \<Rightarrow> ('x, 't, 'v) any_values \<Rightarrow> ('x, 't, 'v) any_mem \<Rightarrow> bool" for new where
  reach_none: "any_reach new Map.empty \<lparr>any_content = Map.empty, any_heap = Map.empty\<rparr>"
| reach_op: "any_reach new s m \<Longrightarrow> any_scoped op (dom s) \<Longrightarrow> any_exec new op m = Inr m' \<Longrightarrow>
    any_reach new (any_spec op s) m'"
| reach_thrown: "any_reach new s m \<Longrightarrow> any_scoped op (dom s) \<Longrightarrow> any_exec new op m = Inl (e, m') \<Longrightarrow>
    any_reach new s m'"

lemma any_reach_inv:
  "any_reach new s m \<Longrightarrow> any_inv m \<and> obj_values m Temporary = None \<and> any_values m = s"
proof (induction rule: any_reach.induct)
  case reach_none
  then show ?case by (auto simp: any_inv_def obj_values_def any_values_def)
next
  case (reach_op s m op m')
  with exec_implements [of m op new] show ?case by simp
next
  case (reach_thrown s m op e m')
  with exec_implements [of m op new] show ?case by simp
qed

section \<open>Properties\<close>

text \<open>
  C21. However variables are made, copied, assigned (to themselves too), swapped, cleared and destroyed, each has the
  value and the type it would have if it were that value: no operation is undefined, and one that fails
  has run out of memory and changed nothing. Every holder on the heap belongs to
  exactly one variable, so none is leaked, shared or deleted twice.
\<close>

theorem any_is_a_value:
  assumes "any_reach new s m" "any_scoped op (dom s)"
  shows "any_values m = s \<and>
    (case any_exec new op m of
       Inl (e, m') \<Rightarrow> e = BadAlloc \<and> m' = m
     | Inr m' \<Rightarrow> any_values m' = any_spec op s \<and>
         (\<forall>p. any_heap m' p \<noteq> None \<longleftrightarrow> (\<exists>!x. any_content m' (Named x) = Some (Some p))))"
proof -
  from any_reach_inv [OF assms(1)] have inv: "any_inv m" "obj_values m Temporary = None" "any_values m = s" by simp_all
  have "any_heap m' p \<noteq> None \<longleftrightarrow> (\<exists>!x. any_content m' (Named x) = Some (Some p))"
    if "any_inv m'" "obj_values m' Temporary = None" for m' :: "('a, 'b, 'c) any_mem" and p
  proof -
    have "any_content m' Temporary = None" using that(2) alive_iff by metis
    then have "(\<exists>y. any_content m' y = Some (Some p)) \<longleftrightarrow> (\<exists>x. any_content m' (Named x) = Some (Some p))"
      by (metis obj.exhaust option.distinct(1))
    with that(1) show ?thesis unfolding any_inv_def by (metis obj.inject)
  qed
  with exec_implements [OF inv(1,2), of op new] assms(2) inv(3) show ?thesis
    by (auto split: sum.splits)
qed

text \<open>An int and a string, and the int assigned to itself and to the string.\<close>

definition demo_mem :: "(string, string, string) any_mem" where
  "demo_mem =
     \<lparr>any_content = [Named ''a'' \<mapsto> Some 16, Named ''b'' \<mapsto> Some 32],
      any_heap = [16 \<mapsto> \<lparr>holder_type = ''int'', held = ''7''\<rparr>, 32 \<mapsto> \<lparr>holder_type = ''string'', held = ''hi''\<rparr>]\<rparr>"

lemma demo_any:
  "any_reach three_slots [''a'' \<mapsto> Some (''int'', ''7''), ''b'' \<mapsto> Some (''string'', ''hi'')] demo_mem"
proof -
  let ?m = "\<lparr>any_content = [Named ''a'' \<mapsto> Some 16], any_heap = [16 \<mapsto> \<lparr>holder_type = ''int'', held = ''7''\<rparr>]\<rparr>
    :: (string, string, string) any_mem"
  have "any_exec three_slots (Any_value ''a'' ''int'' ''7'') \<lparr>any_content = Map.empty, any_heap = Map.empty\<rparr> = Inr ?m"
    by (simp add: any_of_value_def new_holder_def)
  from reach_op [OF reach_none _ this]
  have 1: "any_reach three_slots [''a'' \<mapsto> Some (''int'', ''7'')] ?m" by simp
  have "any_exec three_slots (Any_value ''b'' ''string'' ''hi'') ?m = Inr demo_mem"
    by (simp add: any_of_value_def new_holder_def demo_mem_def)
  from reach_op [OF 1 _ this] show ?thesis by simp
qed

theorem any_is_a_value_witness:
  "\<exists>m'. any_exec three_slots (Any_assign ''b'' ''a'') demo_mem = Inr m' \<and>
    any_values m' = [''a'' \<mapsto> Some (''int'', ''7''), ''b'' \<mapsto> Some (''int'', ''7'')]"
proof -
  have "\<exists>m'. any_exec three_slots (Any_assign ''b'' ''a'') demo_mem = Inr m'"
    by (simp add: assign_def any_copy_def clone_def new_holder_def any_swap_def any_delete_def demo_mem_def)
  with any_is_a_value [OF demo_any, of "Any_assign ''b'' ''a''"] show ?thesis by auto
qed

text \<open>
  C40. \<open>any_cast\<close> gives the value back exactly at the type it was stored with; at any other type, and for an
  empty variable, its assertion stops the program before the cast of the pointer.
\<close>

theorem any_cast_typed:
  assumes "any_reach new s m" "s x = Some c"
  shows "any_type (Named x) m = Inr (case c of None \<Rightarrow> Void | Some (t, v) \<Rightarrow> Typeid t) \<and>
    any_empty (Named x) m = Inr (c = None) \<and>
    any_cast t' (Named x) m =
      (case c of None \<Rightarrow> Inl AssertionFailed | Some (t, v) \<Rightarrow> if t = t' then Inr v else Inl AssertionFailed)"
proof -
  from any_reach_inv [OF assms(1)] assms(2) have inv: "any_inv m" "obj_values m (Named x) = Some c"
    by (auto simp: any_values_def)
  show ?thesis
  proof (cases "any_content m (Named x)")
    case None
    then show ?thesis using inv(2) by (simp add: obj_values_def)
  next
    case (Some p)
    then show ?thesis
      using inv(2) any_invD(1) [OF inv(1), of "Named x"]
      by (cases p) (auto simp: any_type_def any_empty_def any_cast_def obj_values_def cassert_def)
  qed
qed

theorem any_cast_typed_witness:
  "any_cast ''int'' (Named ''a'') demo_mem = Inr ''7'' \<and> any_cast ''string'' (Named ''a'') demo_mem = Inl AssertionFailed"
  using any_cast_typed [OF demo_any, of "''a''" _ "''int''"] any_cast_typed [OF demo_any, of "''a''" _ "''string''"]
  by simp

end
