(* ===== verification/ThreadLocal.thy ===== *)
theory ThreadLocal
  imports Prelude
begin

text \<open>
  \<open>base::ThreadLocal\<close> (src/base/ThreadLocal.h) and \<open>base::ThreadLocalSingleton\<close>
  (src/base/ThreadLocalSingleton.h): one object of a class per thread, made at its first use and
  deleted when the thread ends. The value that threads have for a key is part of the state; POSIX
  says what the library does with it at the end of a thread: it sets a value that is not \<open>NULL\<close> to
  \<open>NULL\<close> and calls the key's destructor with what it was. \<open>init\<close> is \<open>T()\<close>.
\<close>

section \<open>ThreadLocal\<close>

record ('i, 'v) ThreadLocal =
  tl_specific :: "'i \<Rightarrow> nat option"
  tl_objects :: "nat \<Rightarrow> 'v option"

definition ThreadLocal_new :: "('i, 'v) ThreadLocal" where
  "ThreadLocal_new = \<lparr>tl_specific = \<lambda>_. None, tl_objects = Map.empty\<rparr>"

text \<open>Deleting a key calls no destructor.\<close>

definition ThreadLocal_delete :: "('i, 'v) ThreadLocal \<Rightarrow> ('i, 'v) ThreadLocal" where
  "ThreadLocal_delete s = s\<lparr>tl_specific := \<lambda>_. None\<rparr>"

definition tl_value :: "allocator \<Rightarrow> 'v \<Rightarrow> 'i \<Rightarrow> ('i, 'v) ThreadLocal \<Rightarrow> (nat \<times> ('i, 'v) ThreadLocal) res" where
  "tl_value new init i s =
     (case tl_specific s i of
        Some perThreadValue \<Rightarrow> Inr (perThreadValue, s)
      | None \<Rightarrow>
          (case operator_new new (dom (tl_objects s)) of
             None \<Rightarrow> Inl BadAlloc
           | Some newObj \<Rightarrow>
               Inr (newObj, s\<lparr>tl_objects := (tl_objects s)(newObj \<mapsto> init),
                              tl_specific := (tl_specific s)(i \<mapsto> newObj)\<rparr>)))"

definition tl_destructor :: "nat \<Rightarrow> ('i, 'v) ThreadLocal \<Rightarrow> ('i, 'v) ThreadLocal res" where
  "tl_destructor obj s =
     (if tl_objects s obj = None then Inl Undefined else Inr (s\<lparr>tl_objects := (tl_objects s)(obj := None)\<rparr>))"

definition tl_thread_exit :: "'i \<Rightarrow> ('i, 'v) ThreadLocal \<Rightarrow> ('i, 'v) ThreadLocal res" where
  "tl_thread_exit i s =
     (case tl_specific s i of
        None \<Rightarrow> Inr s
      | Some x \<Rightarrow> tl_destructor x (s\<lparr>tl_specific := (tl_specific s)(i := None)\<rparr>))"

section \<open>ThreadLocalSingleton\<close>

text \<open>\<open>t_value_\<close> is a thread-local variable, beside the value the thread has for the key of \<open>deleter_\<close>.\<close>

record ('i, 'v) ThreadLocalSingleton =
  ts_t_value :: "'i \<Rightarrow> nat option"
  ts_specific :: "'i \<Rightarrow> nat option"
  ts_objects :: "nat \<Rightarrow> 'v option"

definition ThreadLocalSingleton_init :: "('i, 'v) ThreadLocalSingleton" where
  "ThreadLocalSingleton_init = \<lparr>ts_t_value = \<lambda>_. None, ts_specific = \<lambda>_. None, ts_objects = Map.empty\<rparr>"

definition deleter_set :: "'i \<Rightarrow> nat \<Rightarrow> ('i, 'v) ThreadLocalSingleton \<Rightarrow> ('i, 'v) ThreadLocalSingleton res" where
  "deleter_set i newObj s =
     cassert (ts_specific s i = None) (Inr (s\<lparr>ts_specific := (ts_specific s)(i \<mapsto> newObj)\<rparr>))"

definition ts_instance ::
  "allocator \<Rightarrow> 'v \<Rightarrow> 'i \<Rightarrow> ('i, 'v) ThreadLocalSingleton \<Rightarrow> (nat \<times> ('i, 'v) ThreadLocalSingleton) res" where
  "ts_instance new init i s =
     (case ts_t_value s i of
        Some p \<Rightarrow> Inr (p, s)
      | None \<Rightarrow>
          (case operator_new new (dom (ts_objects s)) of
             None \<Rightarrow> Inl BadAlloc
           | Some p \<Rightarrow>
               bind_r (deleter_set i p (s\<lparr>ts_objects := (ts_objects s)(p \<mapsto> init), ts_t_value := (ts_t_value s)(i \<mapsto> p)\<rparr>))
                 (\<lambda>s. Inr (p, s))))"

definition ts_pointer :: "'i \<Rightarrow> ('i, 'v) ThreadLocalSingleton \<Rightarrow> nat option" where
  "ts_pointer i s = ts_t_value s i"

definition ts_destructor :: "'i \<Rightarrow> nat \<Rightarrow> ('i, 'v) ThreadLocalSingleton \<Rightarrow> ('i, 'v) ThreadLocalSingleton res" where
  "ts_destructor i obj s =
     cassert (ts_t_value s i = Some obj)
       (if ts_objects s obj = None then Inl Undefined
        else Inr (s\<lparr>ts_objects := (ts_objects s)(obj := None), ts_t_value := (ts_t_value s)(i := None)\<rparr>))"

definition ts_thread_exit :: "'i \<Rightarrow> ('i, 'v) ThreadLocalSingleton \<Rightarrow> ('i, 'v) ThreadLocalSingleton res" where
  "ts_thread_exit i s =
     (case ts_specific s i of
        None \<Rightarrow> Inr s
      | Some x \<Rightarrow> ts_destructor i x (s\<lparr>ts_specific := (ts_specific s)(i := None)\<rparr>))"

section \<open>Threads that use their objects\<close>

text \<open>
  A thread takes the reference and changes the object through it, or ends. \<open>update\<close> replaces the
  objects of a state.
\<close>

datatype ('i, 'v) tls_event = Use 'i "'v \<Rightarrow> 'v" | Exit 'i

fun tls_step ::
  "('i \<Rightarrow> 's \<Rightarrow> (nat \<times> 's) res) \<Rightarrow> ('s \<Rightarrow> nat \<Rightarrow> 'v option) \<Rightarrow> ((nat \<Rightarrow> 'v option) \<Rightarrow> 's \<Rightarrow> 's) \<Rightarrow>
    ('i \<Rightarrow> 's \<Rightarrow> 's res) \<Rightarrow> ('i, 'v) tls_event \<Rightarrow> 's \<Rightarrow> 's res" where
  "tls_step get objs update leave (Use i f) s =
     bind_r (get i s) (\<lambda>(p, s).
       case objs s p of None \<Rightarrow> Inl Undefined | Some v \<Rightarrow> Inr (update ((objs s)(p \<mapsto> f v)) s))"
| "tls_step get objs update leave (Exit i) s = leave i s"

fun tls_run :: "(('i, 'v) tls_event \<Rightarrow> 's \<Rightarrow> 's res) \<Rightarrow> ('i, 'v) tls_event list \<Rightarrow> 's \<Rightarrow> 's res" where
  "tls_run step [] s = Inr s"
| "tls_run step (e # es) s = bind_r (step e s) (tls_run step es)"

definition tl_run :: "allocator \<Rightarrow> 'v \<Rightarrow> ('i, 'v) tls_event list \<Rightarrow> ('i, 'v) ThreadLocal \<Rightarrow> ('i, 'v) ThreadLocal res" where
  "tl_run new init = tls_run (tls_step (tl_value new init) tl_objects (\<lambda>m s. s\<lparr>tl_objects := m\<rparr>) tl_thread_exit)"

definition ts_run ::
  "allocator \<Rightarrow> 'v \<Rightarrow> ('i, 'v) tls_event list \<Rightarrow> ('i, 'v) ThreadLocalSingleton \<Rightarrow> ('i, 'v) ThreadLocalSingleton res" where
  "ts_run new init = tls_run (tls_step (ts_instance new init) ts_objects (\<lambda>m s. s\<lparr>ts_objects := m\<rparr>) ts_thread_exit)"

text \<open>A thread alone with its variable.\<close>

fun tls_spec :: "'v \<Rightarrow> 'i \<Rightarrow> ('i, 'v) tls_event list \<Rightarrow> 'v option \<Rightarrow> 'v option" where
  "tls_spec init i [] x = x"
| "tls_spec init i (Use j f # es) x =
     tls_spec init i es (if j = i then Some (f (case x of None \<Rightarrow> init | Some v \<Rightarrow> v)) else x)"
| "tls_spec init i (Exit j # es) x = tls_spec init i es (if j = i then None else x)"

section \<open>The contract of a per-thread object\<close>

text \<open>\<open>ptr\<close> is the address of the object of a thread.\<close>

locale per_thread =
  fixes get :: "'i \<Rightarrow> 's \<Rightarrow> (nat \<times> 's) res" and leave :: "'i \<Rightarrow> 's \<Rightarrow> 's res"
    and objs :: "'s \<Rightarrow> nat \<Rightarrow> 'v option" and update :: "(nat \<Rightarrow> 'v option) \<Rightarrow> 's \<Rightarrow> 's"
    and ptr :: "'s \<Rightarrow> 'i \<Rightarrow> nat option" and consistent :: "'s \<Rightarrow> bool" and init :: 'v
  assumes update: "objs (update m s) = m" "ptr (update m s) = ptr s" "consistent (update m s) = consistent s"
    and get_kept: "consistent s \<Longrightarrow> ptr s i = Some p \<Longrightarrow> get i s = Inr (p, s)"
    and get_new: "consistent s \<Longrightarrow> ptr s i = None \<Longrightarrow>
      (\<exists>p s'. get i s = Inr (p, s') \<and> consistent s' \<and> objs s p = None \<and> objs s' = (objs s)(p \<mapsto> init) \<and>
        ptr s' = (ptr s)(i \<mapsto> p)) \<or> get i s = Inl BadAlloc"
    and leave_none: "consistent s \<Longrightarrow> ptr s i = None \<Longrightarrow> leave i s = Inr s"
    and leave_some: "consistent s \<Longrightarrow> ptr s i = Some p \<Longrightarrow> objs s p \<noteq> None \<Longrightarrow>
      \<exists>s'. leave i s = Inr s' \<and> consistent s' \<and> objs s' = (objs s)(p := None) \<and> ptr s' = (ptr s)(i := None)"
begin

definition owned :: "'s \<Rightarrow> bool" where
  "owned s \<longleftrightarrow> consistent s \<and> (\<forall>p. objs s p \<noteq> None \<longleftrightarrow> (\<exists>i. ptr s i = Some p)) \<and>
     (\<forall>i j p. ptr s i = Some p \<longrightarrow> ptr s j = Some p \<longrightarrow> i = j)"

definition vals :: "'s \<Rightarrow> 'i \<Rightarrow> 'v option" where
  "vals s i = (case ptr s i of None \<Rightarrow> None | Some p \<Rightarrow> objs s p)"

lemma owned_ptr: "owned s \<Longrightarrow> ptr s i = Some p \<Longrightarrow> \<exists>v. objs s p = Some v"
  unfolding owned_def by (metis not_None_eq)

lemma vals_write:
  assumes "owned s" "ptr s i = Some p"
  shows "owned (update ((objs s)(p \<mapsto> v)) s)" "vals (update ((objs s)(p \<mapsto> v)) s) = (vals s)(i \<mapsto> v)"
proof -
  let ?s = "update ((objs s)(p \<mapsto> v)) s"
  have "objs ?s q \<noteq> None \<longleftrightarrow> objs s q \<noteq> None" for q using owned_ptr [OF assms] by (auto simp: update)
  then show "owned ?s" using assms(1) unfolding owned_def update by simp
  show "vals ?s = (vals s)(i \<mapsto> v)"
    using assms unfolding owned_def by (auto simp: vals_def update fun_eq_iff split: option.splits)
qed

lemma owned_get:
  assumes "owned s" "get i s = Inr (p, s')"
  shows "owned s'" "ptr s' i = Some p"
    "vals s' = (vals s)(i \<mapsto> (case vals s i of None \<Rightarrow> init | Some v \<Rightarrow> v))"
proof -
  have con: "consistent s" using assms(1) by (simp add: owned_def)
  have "owned s' \<and> ptr s' i = Some p \<and>
    vals s' = (vals s)(i \<mapsto> (case vals s i of None \<Rightarrow> init | Some v \<Rightarrow> v))"
  proof (cases "ptr s i")
    case (Some q)
    then have "q = p" "s' = s" using get_kept [OF con Some] assms(2) by simp_all
    with Some assms(1) owned_ptr [OF assms(1) Some] show ?thesis
      by (auto simp: vals_def fun_eq_iff)
  next
    case None
    with get_new [OF con None] assms(2) have n: "consistent s'" "objs s p = None" "objs s' = (objs s)(p \<mapsto> init)"
      "ptr s' = (ptr s)(i \<mapsto> p)" by auto
    have fresh: "ptr s j \<noteq> Some p" for j using assms(1) n(2) unfolding owned_def by metis
    have o: "ptr s' j = Some q \<longleftrightarrow> j = i \<and> q = p \<or> ptr s j = Some q" for j q
      using None by (auto simp: n(4))
    have "owned s'"
      using assms(1) n(1) fresh unfolding owned_def o by (auto simp: n(3))
    moreover have "vals s' = (vals s)(i \<mapsto> init)"
      using fresh by (auto simp: vals_def n(3,4) fun_eq_iff split: option.splits)
    ultimately show ?thesis using None n(4) by (simp add: vals_def)
  qed
  then show "owned s'" "ptr s' i = Some p"
    "vals s' = (vals s)(i \<mapsto> (case vals s i of None \<Rightarrow> init | Some v \<Rightarrow> v))" by simp_all
qed

lemma owned_leave:
  assumes "owned s"
  shows "\<exists>s'. leave i s = Inr s' \<and> owned s' \<and> vals s' = (vals s)(i := None)"
proof (cases "ptr s i")
  case None
  then have "(vals s)(i := None) = vals s" by (auto simp: vals_def fun_eq_iff)
  with None assms leave_none show ?thesis by (simp add: owned_def)
next
  case (Some p)
  from assms have con: "consistent s" by (simp add: owned_def)
  from leave_some [OF con Some] owned_ptr [OF assms Some] obtain s' where
    s': "leave i s = Inr s'" "consistent s'" "objs s' = (objs s)(p := None)" "ptr s' = (ptr s)(i := None)" by auto
  have only: "j = i" if "ptr s j = Some p" for j using assms Some that unfolding owned_def by metis
  have o: "ptr s' j = Some q \<longleftrightarrow> q \<noteq> p \<and> ptr s j = Some q" for j q
    using only [of j] Some by (cases "j = i") (auto simp: s'(4))
  have h: "objs s' q \<noteq> None \<longleftrightarrow> q \<noteq> p \<and> objs s q \<noteq> None" for q by (simp add: s'(3))
  have "owned s'"
    unfolding owned_def o h
  proof (intro conjI allI impI)
    show "consistent s'" by (rule s'(2))
    show "q \<noteq> p \<and> objs s q \<noteq> None \<longleftrightarrow> (\<exists>j. q \<noteq> p \<and> ptr s j = Some q)" for q
      using assms by (simp add: owned_def)
    show "j = k" if "q \<noteq> p \<and> ptr s j = Some q" "q \<noteq> p \<and> ptr s k = Some q" for j k q
      using that assms unfolding owned_def by blast
  qed
  moreover have "vals s' = (vals s)(i := None)"
    using only by (auto simp: vals_def s'(3,4) fun_eq_iff split: option.splits)
  ultimately show ?thesis using s'(1) by blast
qed

lemma run_private:
  assumes "owned s"
  shows "case tls_run (tls_step get objs update leave) es s of
      Inl e \<Rightarrow> e = BadAlloc
    | Inr s' \<Rightarrow> owned s' \<and> (\<forall>i. vals s' i = tls_spec init i es (vals s i))"
  using assms
proof (induction es arbitrary: s)
  case (Cons e es)
  show ?case
  proof (cases e)
    case (Exit j)
    from owned_leave [OF Cons.prems, of j] obtain s1 where
      "leave j s = Inr s1" "owned s1" "vals s1 = (vals s)(j := None)" by blast
    with Exit Cons.IH [of s1] show ?thesis by (auto split: sum.splits)
  next
    case (Use j f)
    show ?thesis
    proof (cases "get j s")
      case (Inl x)
      with get_new [of s j] get_kept [of s j] Cons.prems have "x = BadAlloc"
        by (cases "ptr s j") (auto simp: owned_def)
      with Inl Use show ?thesis by simp
    next
      case (Inr r)
      obtain p s1 where r: "r = (p, s1)" by (cases r)
      from owned_get [OF Cons.prems Inr [unfolded r]] have s1: "owned s1" "ptr s1 j = Some p"
        "vals s1 = (vals s)(j \<mapsto> (case vals s j of None \<Rightarrow> init | Some v \<Rightarrow> v))" .
      from owned_ptr [OF s1(1,2)] obtain v where v: "objs s1 p = Some v" ..
      then have "v = (case vals s j of None \<Rightarrow> init | Some v \<Rightarrow> v)"
        using s1(2,3) by (simp add: vals_def fun_eq_iff split: if_splits)
      with vals_write [OF s1(1,2), of "f v"] Cons.IH [of "update ((objs s1)(p \<mapsto> f v)) s1"] s1(3) Inr r v Use
      show ?thesis by (auto split: sum.splits)
    qed
  qed
qed simp

end

interpretation tl: per_thread "tl_value new init" tl_thread_exit tl_objects "\<lambda>m s. s\<lparr>tl_objects := m\<rparr>" tl_specific
    "\<lambda>_. True" init
  for new init
proof (unfold_locales, goal_cases)
  case (5 s i)
  then show ?case
    using operator_new [of new "dom (tl_objects s)"]
    by (cases "operator_new new (dom (tl_objects s))") (auto simp: tl_value_def)
qed (auto simp: tl_value_def tl_thread_exit_def tl_destructor_def)

interpretation ts: per_thread "ts_instance new init" ts_thread_exit ts_objects "\<lambda>m s. s\<lparr>ts_objects := m\<rparr>" ts_t_value
    "\<lambda>s. ts_specific s = ts_t_value s" init
  for new init
proof (unfold_locales, goal_cases)
  case (5 s i)
  then show ?case
    using operator_new [of new "dom (ts_objects s)"]
    by (cases "operator_new new (dom (ts_objects s))") (auto simp: ts_instance_def deleter_set_def)
qed (auto simp: ts_instance_def ts_thread_exit_def ts_destructor_def)

lemmas owned_defs = tl.owned_def ts.owned_def tl.vals_def ts.vals_def

section \<open>Properties\<close>



text \<open>
  The singleton gives each thread its own object in the same way; neither of its assertions fails, and
  what \<open>pointer()\<close> returns is the object the key's destructor will delete.
\<close>

theorem singleton_private:
  "case ts_run new init es ThreadLocalSingleton_init of
     Inl e \<Rightarrow> e = BadAlloc
   | Inr s \<Rightarrow>
       (\<forall>i. (case ts_pointer i s of None \<Rightarrow> None | Some p \<Rightarrow> ts_objects s p) = tls_spec init i es None) \<and>
       (\<forall>i. ts_specific s i = ts_pointer i s) \<and>
       (\<forall>p. ts_objects s p \<noteq> None \<longleftrightarrow> (\<exists>!i. ts_pointer i s = Some p))"
proof -
  have "ts.owned ThreadLocalSingleton_init" by (simp add: owned_defs ThreadLocalSingleton_init_def)
  from ts.run_private [OF this, where new = new and init = init and es = es] show ?thesis
    by (auto simp: ts_run_def owned_defs ThreadLocalSingleton_init_def ts_pointer_def split: sum.splits)
qed

theorem singleton_private_witness:
  "\<exists>s :: (nat, nat) ThreadLocalSingleton.
    ts_run three_slots 0 [Use 1 (\<lambda>n. n + 5), Exit 1, Use 2 (\<lambda>n. n + 7), Use 1 (\<lambda>n. n + 1)] ThreadLocalSingleton_init = Inr s \<and>
    (\<exists>p. ts_pointer 1 s = Some p \<and> ts_objects s p = Some 1)"
proof -
  let ?es = "[Use 1 (\<lambda>n. n + 5), Exit 1, Use 2 (\<lambda>n. n + 7), Use 1 (\<lambda>n. n + 1)] :: (nat, nat) tls_event list"
  obtain s where s: "ts_run three_slots 0 ?es ThreadLocalSingleton_init = Inr s"
    by (simp add: ts_run_def ts_instance_def deleter_set_def ts_thread_exit_def ts_destructor_def ThreadLocalSingleton_init_def)
  from singleton_private [where new = three_slots and init = 0 and es = ?es] s
  have "(case ts_pointer 1 s of None \<Rightarrow> None | Some p \<Rightarrow> ts_objects s p) = tls_spec 0 1 ?es None" by simp
  then show ?thesis using s by (auto split: option.splits)
qed

end
