(* ===== verification/Exception.thy ===== *)
theory Exception
  imports Prelude
begin

text \<open>
  \<open>CurrentThread::statckTrace\<close> (src/base/CurrentThread.cc) and \<open>base::Exception\<close>
  (src/base/Exception.h, Exception.cc). What \<open>backtrace_symbols\<close> returns is an argument, a list of C
  strings or \<open>None\<close>; so is \<open>abi::__cxa_demangle\<close>, which yields a text or a status that is not 0.
\<close>

section \<open>The stack trace\<close>

text \<open>One pass over a symbol: the positions of its last \<open>(\<close> and its last \<open>+\<close>.\<close>

fun scan_symbol :: "nat \<Rightarrow> string \<Rightarrow> nat option \<times> nat option \<Rightarrow> nat option \<times> nat option" where
  "scan_symbol p [] (left_par, plus_at) = (left_par, plus_at)"
| "scan_symbol p (c # cs) (left_par, plus_at) =
     scan_symbol (Suc p) cs
       (if c = CHR ''('' then (Some p, plus_at) else if c = CHR ''+'' then (left_par, Some p) else (left_par, plus_at))"

text \<open>
  The symbol is cut with a NUL at the \<open>+\<close> while the demangler reads what comes after the
  parenthesis, and mended afterwards.
\<close>

definition mangled_name :: "nat \<Rightarrow> nat \<Rightarrow> string \<Rightarrow> string" where
  "mangled_name left_par plus_at s = takeWhile (\<lambda>c. c \<noteq> CHR 0x00) (drop (left_par + 1) (s[plus_at := CHR 0x00]))"

definition trace_line :: "bool \<Rightarrow> (string \<Rightarrow> string option) \<Rightarrow> string \<Rightarrow> string" where
  "trace_line demangle cxa_demangle s =
     (let plain = s @ [CHR 0x0A]
      in if demangle
         then (case scan_symbol 0 s (None, None) of
                 (Some left_par, Some plus_at) \<Rightarrow>
                   (case cxa_demangle (mangled_name left_par plus_at s) of
                      Some demangled \<Rightarrow> take (left_par + 1) s @ demangled @ drop plus_at s @ [CHR 0x0A]
                    | None \<Rightarrow> plain)
               | _ \<Rightarrow> plain)
         else plain)"

text \<open>The loop starts at 1: the frame of the function itself is not part of the trace.\<close>

fun trace_lines :: "bool \<Rightarrow> (string \<Rightarrow> string option) \<Rightarrow> string list \<Rightarrow> string \<Rightarrow> string" where
  "trace_lines demangle cxa_demangle [] stack = stack"
| "trace_lines demangle cxa_demangle (s # strings) stack =
     trace_lines demangle cxa_demangle strings (stack @ trace_line demangle cxa_demangle s)"

definition statckTrace :: "bool \<Rightarrow> (string \<Rightarrow> string option) \<Rightarrow> string list option \<Rightarrow> string" where
  "statckTrace demangle cxa_demangle symbols =
     (case symbols of None \<Rightarrow> [] | Some strings \<Rightarrow> trace_lines demangle cxa_demangle (drop 1 strings) [])"

section \<open>Exception\<close>

record Exception =
  ex_message :: string
  ex_stack :: string

definition Exception_new :: "string list option \<Rightarrow> (string \<Rightarrow> string option) \<Rightarrow> string \<Rightarrow> Exception" where
  "Exception_new symbols cxa_demangle msg =
     \<lparr>ex_message = msg, ex_stack = statckTrace False cxa_demangle symbols\<rparr>"

definition c_str :: "string \<Rightarrow> string" where
  "c_str s = takeWhile (\<lambda>c. c \<noteq> CHR 0x00) s"

definition ex_what :: "Exception \<Rightarrow> string" where
  "ex_what ex = c_str (ex_message ex)"

definition ex_stackTrace :: "Exception \<Rightarrow> string" where
  "ex_stackTrace ex = c_str (ex_stack ex)"

section \<open>Scanning\<close>

lemma scan_symbol_append: "scan_symbol p (xs @ ys) r = scan_symbol (p + length xs) ys (scan_symbol p xs r)"
  by (induction xs arbitrary: p r) auto

lemma scan_symbol_no_paren:
  "CHR ''('' \<notin> set xs \<Longrightarrow> fst (scan_symbol p xs r) = fst r"
  by (induction xs arbitrary: p r) auto

lemma scan_symbol_no_plus:
  "CHR ''+'' \<notin> set xs \<Longrightarrow> snd (scan_symbol p xs r) = snd r"
  by (induction xs arbitrary: p r) auto

lemma scan_symbol_frame:
  assumes "CHR ''('' \<notin> set f" "CHR ''('' \<notin> set off" "CHR ''+'' \<notin> set off"
  shows "scan_symbol 0 (m @ ''('' @ f @ ''+'' @ off) (None, None) = (Some (length m), Some (length m + 1 + length f))"
proof -
  let ?r = "scan_symbol 0 m (None, None)"
  have 1: "scan_symbol (length m) ''('' ?r = (Some (length m), snd ?r)" by (cases ?r) simp
  have 2: "fst (scan_symbol (length m + 1) f (Some (length m), snd ?r)) = Some (length m)"
    by (simp add: scan_symbol_no_paren assms(1))
  then obtain q where q: "scan_symbol (length m + 1) f (Some (length m), snd ?r) = (Some (length m), q)"
    by (metis prod.collapse)
  have "scan_symbol 0 (m @ ''('' @ f @ ''+'' @ off) (None, None) =
      scan_symbol (length m + 2 + length f) off (Some (length m), Some (length m + 1 + length f))"
    using 1 q by (simp only: scan_symbol_append) (simp add: ac_simps)
  then show ?thesis
    by (metis scan_symbol_no_paren [OF assms(2)] scan_symbol_no_plus [OF assms(3)] fst_conv snd_conv prod.collapse)
qed

lemma trace_lines_concat:
  "trace_lines d cx strings stack = stack @ concat (map (trace_line d cx) strings)"
  by (induction strings arbitrary: stack) simp_all

section \<open>Properties\<close>

text \<open>A symbol as \<open>backtrace_symbols\<close> writes it: a module, and in parentheses a function and an offset.\<close>

definition frame_symbol :: "string \<times> string \<times> string \<Rightarrow> string" where
  "frame_symbol = (\<lambda>(m, f, off). m @ ''('' @ f @ ''+'' @ off)"

definition frame_ok :: "string \<times> string \<times> string \<Rightarrow> bool" where
  "frame_ok = (\<lambda>(m, f, off). CHR ''('' \<notin> set f \<and> CHR ''('' \<notin> set off \<and> CHR ''+'' \<notin> set off \<and>
     CHR 0x00 \<notin> set (m @ f @ off))"

text \<open>
  The trace has one line for each frame but its own, in order, and in each just the function name is
  replaced by what the demangler makes of it, whatever the module's name contains; a name it refuses stays, and
  an exception's trace is the symbols as they are.
\<close>

theorem stack_trace_demangles:
  assumes "list_all frame_ok frames"
  shows "statckTrace True cx (Some (own # map frame_symbol frames)) =
      concat (map (\<lambda>(m, f, off). frame_symbol (m, case cx f of None \<Rightarrow> f | Some d \<Rightarrow> d, off) @ [CHR 0x0A]) frames) \<and>
    ex_stackTrace (Exception_new (Some (own # map frame_symbol frames)) cx msg) =
      concat (map (\<lambda>fr. frame_symbol fr @ [CHR 0x0A]) frames)"
proof -
  have line: "trace_line True cx (frame_symbol (m, f, off)) =
      frame_symbol (m, case cx f of None \<Rightarrow> f | Some d \<Rightarrow> d, off) @ [CHR 0x0A]" if "frame_ok (m, f, off)" for m f off
  proof -
    let ?s = "m @ ''('' @ f @ ''+'' @ off"
    have "?s[length m + 1 + length f := CHR 0x00] = m @ ''('' @ f @ [CHR 0x00] @ off"
      by (simp add: list_update_append)
    then have "mangled_name (length m) (length m + 1 + length f) ?s = takeWhile (\<lambda>c. c \<noteq> CHR 0x00) (f @ [CHR 0x00] @ off)"
      by (simp add: mangled_name_def)
    also have "\<dots> = f" using that by (auto simp: frame_ok_def takeWhile_tail)
    finally have "mangled_name (length m) (length m + 1 + length f) ?s = f" .
    moreover have "scan_symbol 0 ?s (None, None) = (Some (length m), Some (length m + 1 + length f))"
      using that by (intro scan_symbol_frame) (auto simp: frame_ok_def)
    ultimately show ?thesis by (simp add: trace_line_def frame_symbol_def split: option.splits)
  qed
  have nul: "CHR 0x00 \<notin> set (concat (map (\<lambda>fr. frame_symbol fr @ [CHR 0x0A]) frames))"
    using assms by (induction frames) (auto simp: frame_symbol_def frame_ok_def)
  have plain: "map (trace_line False cx \<circ> frame_symbol) frames = map (\<lambda>fr. frame_symbol fr @ [CHR 0x0A]) frames"
    by (simp add: trace_line_def)
  have "concat (map (trace_line True cx) (map frame_symbol frames)) =
      concat (map (\<lambda>(m, f, off). frame_symbol (m, case cx f of None \<Rightarrow> f | Some d \<Rightarrow> d, off) @ [CHR 0x0A]) frames)"
    using assms line by (induction frames) auto
  moreover have "c_str (concat (map (\<lambda>fr. frame_symbol fr @ [CHR 0x0A]) frames)) =
      concat (map (\<lambda>fr. frame_symbol fr @ [CHR 0x0A]) frames)"
    unfolding c_str_def takeWhile_eq_all_conv using nul by metis
  ultimately show ?thesis
    by (simp add: statckTrace_def trace_lines_concat Exception_new_def ex_stackTrace_def plain)
qed

theorem stack_trace_demangles_witness:
  "statckTrace True (\<lambda>f. if f = ''_Z1fv'' then Some ''f()'' else None)
     (Some [''./a.out(_ZStv+0x1) [0x1]'', ''/opt/g++(x)/a.out(_Z1fv+0x14) [0x2]'', ''./a.out(main+0x9) [0x3]'']) =
   ''/opt/g++(x)/a.out(f()+0x14) [0x2]'' @ [CHR 0x0A] @ ''./a.out(main+0x9) [0x3]'' @ [CHR 0x0A]"
  using stack_trace_demangles [of "[(''/opt/g++(x)/a.out'', ''_Z1fv'', ''0x14) [0x2]''), (''./a.out'', ''main'', ''0x9) [0x3]'')]"
      "\<lambda>f. if f = ''_Z1fv'' then Some ''f()'' else None" "''./a.out(_ZStv+0x1) [0x1]''"]
  by (simp add: frame_symbol_def frame_ok_def)

end
