(* ===== verification/EchoServer.thy ===== *)
theory EchoServer
  imports TcpServer
begin

text \<open>
  The echo server (src/examples/echoserver/EchoServer.h, EchoServer.cc) on the whole of \<open>net\<close>: what the
  poller reports goes through \<open>Channel::handleEvent\<close> to the callbacks bound in \<open>TcpServer\<close> and
  \<open>TcpConnection\<close>, and the functors these queue run at the end of the round. The names of
  callbacks are the functions the code binds. What is printed is not modelled. As a history, every
  descriptor has the bytes read from it since it was accepted.
\<close>

section \<open>The server\<close>

datatype echo_fn =
    Bound_Acceptor_handleRead
  | Bound_newConnection
  | Bound_conn_handleRead int
  | Bound_conn_handleWrite int
  | Bound_connectEstablished int
  | Default_connection
  | Default_message
  | Echo_onConnection
  | Echo_onMessage

type_synonym Echo = "echo_fn Server \<times> (int \<Rightarrow> string)"

definition EchoServer_new :: "listen_calls \<Rightarrow> nat \<Rightarrow> echo_fn EventLoop \<Rightarrow> echo_fn Server res" where
  "EchoServer_new sys addr l =
     bind_r (TcpServer_new sys addr Bound_Acceptor_handleRead Bound_newConnection Default_connection Default_message l)
       (\<lambda>(tcpServer, l).
         Inr (server_setMessageCallback (Some Echo_onMessage)
               (server_setConnectionCallback (Some Echo_onConnection) tcpServer), l))"

definition EchoServer_start :: "echo_fn Server \<Rightarrow> echo_fn Server res" where
  "EchoServer_start s = start s"

definition echo_onConnection :: "echo_fn Conn \<Rightarrow> echo_fn Conn res" where
  "echo_onConnection conn = Inr conn"

text \<open>\<open>write\<close> is what the kernel answers to the \<open>write\<close> of so many bytes.\<close>

definition echo_onMessage :: "(nat \<Rightarrow> int) \<Rightarrow> echo_fn Conn \<Rightarrow> echo_fn Conn res" where
  "echo_onMessage write = (\<lambda>(conn, l).
     bind_r (retrieveAllAsString (tc_inputBuf conn)) (\<lambda>(msg, buf).
       send msg (write (length msg)) (conn\<lparr>tc_inputBuf := buf\<rparr>, l)))"

section \<open>A round of its loop\<close>

text \<open>
  The kernel's answers during the handling of one event; the allocator and the objects that live
  beside the connections; the time of the poll.
\<close>

record kernel =
  k_accept :: int
  k_read :: "int \<times> string"
  k_write :: "nat \<Rightarrow> int"

record echo_env =
  ee_new :: allocator
  ee_base :: "nat set"
  ee_now :: Timestamp

definition on_conn :: "int \<Rightarrow> (echo_fn Conn \<Rightarrow> echo_fn Conn res) \<Rightarrow> echo_fn Server \<Rightarrow> echo_fn Server res" where
  "on_conn fd f = (\<lambda>(s, l).
     case ts_connections s fd of
       None \<Rightarrow> Inl Undefined
     | Some c \<Rightarrow> bind_r (f (c, l)) (\<lambda>(c, l). Inr (s\<lparr>ts_connections := (ts_connections s)(fd \<mapsto> c)\<rparr>, l)))"

fun run_connectionCallback :: "echo_fn \<Rightarrow> echo_fn Conn \<Rightarrow> echo_fn Conn res" where
  "run_connectionCallback Echo_onConnection = echo_onConnection"
| "run_connectionCallback Default_connection = Inr"
| "run_connectionCallback _ = (\<lambda>_. Inl Undefined)"

fun run_messageCallback :: "kernel \<Rightarrow> echo_fn \<Rightarrow> Timestamp \<Rightarrow> echo_fn Conn \<Rightarrow> echo_fn Conn res" where
  "run_messageCallback k Echo_onMessage now = echo_onMessage (k_write k)"
| "run_messageCallback k Default_message now = (\<lambda>(c, l). bind_r (defaultMessageCallback c) (\<lambda>(out, c). Inr (c, l)))"
| "run_messageCallback k _ now = (\<lambda>_. Inl Undefined)"

definition live_objects :: "echo_env \<Rightarrow> echo_fn TcpServer \<Rightarrow> nat set" where
  "live_objects env s = ee_base env \<union> {a. \<exists>fd c. ts_connections s fd = Some c \<and> tc_addr c = a}"

fun run_newConnectionCallback :: "echo_env \<Rightarrow> echo_fn \<Rightarrow> int \<Rightarrow> Echo \<Rightarrow> Echo res" where
  "run_newConnectionCallback env Bound_newConnection sockfd ((s, l), got) =
     (case operator_new (ee_new env) (live_objects env s) of
        None \<Rightarrow> Inl BadAlloc
      | Some addr \<Rightarrow>
          bind_r (newConnection addr (Bound_conn_handleRead sockfd) (Bound_conn_handleWrite sockfd)
                    (Bound_connectEstablished sockfd) sockfd (s, l)) (\<lambda>w. Inr (w, got(sockfd := []))))"
| "run_newConnectionCallback env _ sockfd w = Inl Undefined"

text \<open>The timer queue of this loop is empty: its handler finds nothing expired.\<close>

fun echo_handler :: "echo_env \<Rightarrow> kernel \<Rightarrow> echo_fn handler \<Rightarrow> Echo \<Rightarrow> Echo res" where
  "echo_handler env k Wakeup_handleRead ((s, l), got) = Inr ((s, EventLoop_handleRead l), got)"
| "echo_handler env k TimerQueue_handleRead_cb w = Inr w"
| "echo_handler env k (Client Bound_Acceptor_handleRead) w =
     Acceptor_handleRead (run_newConnectionCallback env) (k_accept k) (ts_acceptor (fst (fst w))) w"
| "echo_handler env k (Client (Bound_conn_handleRead fd)) (sl, got) =
     (let (n, data) = k_read k
      in bind_r (on_conn fd (handleRead (run_messageCallback k) (ee_now env) n data) sl) (\<lambda>sl.
           Inr (sl, got(fd := got fd @ take (nat n) data))))"
| "echo_handler env k (Client (Bound_conn_handleWrite fd)) (sl, got) =
     bind_r (on_conn fd (\<lambda>c. handleWrite (k_write k (length (unsent c))) c) sl) (\<lambda>sl. Inr (sl, got))"
| "echo_handler env k (Client _) w = Inl Undefined"

fun run_bound :: "echo_fn \<Rightarrow> Echo \<Rightarrow> Echo res" where
  "run_bound (Bound_connectEstablished fd) (sl, got) =
     bind_r (server_connectEstablished run_connectionCallback fd sl) (\<lambda>sl. Inr (sl, got))"
| "run_bound _ w = Inl Undefined"

fun echo_functor :: "echo_fn Functor \<Rightarrow> Echo \<Rightarrow> Echo res" where
  "echo_functor (Call cb) w = invoke run_bound cb w"
| "echo_functor (AddTimerInLoop p) w = Inl Undefined"

fun echo_functors :: "echo_fn Functor list \<Rightarrow> Echo \<Rightarrow> Echo res" where
  "echo_functors [] w = Inr w"
| "echo_functors (f # fs) w = bind_r (echo_functor f w) (echo_functors fs)"

text \<open>Each reported event comes with the answers its handling gets.\<close>

fun echo_events :: "echo_env \<Rightarrow> (nat \<times> kernel) list \<Rightarrow> Echo \<Rightarrow> Echo res" where
  "echo_events env [] w = Inr w"
| "echo_events env ((addr, k) # channels) w =
     (case el_channels (snd (fst w)) addr of
        None \<Rightarrow> Inl Undefined
      | Some _ \<Rightarrow>
          bind_r (handleEvent (echo_handler env k) (\<lambda>w. the (el_channels (snd (fst w)) addr)) w)
            (echo_events env channels))"

definition echo_round :: "echo_env \<Rightarrow> (32 word \<times> nat \<times> kernel) list \<Rightarrow> Echo \<Rightarrow> Echo res" where
  "echo_round env ready = (\<lambda>((s, l), got).
     bind_r (Epoller_poll (map (\<lambda>(ev, addr, k). (ev, addr)) ready) (el_channels l) []) (\<lambda>(store, channels).
     bind_r (echo_events env (zip channels (map (snd \<circ> snd) ready)) ((s, l\<lparr>el_channels := store\<rparr>), got))
       (\<lambda>((s, l), got). echo_functors (el_pending l) ((s, l\<lparr>el_pending := []\<rparr>), got))))"

section \<open>Operations keep what channels are bound to\<close>

definition same_binding :: "'cb Channel \<Rightarrow> 'cb Channel \<Rightarrow> bool" where
  "same_binding a b \<longleftrightarrow> ch_fd a = ch_fd b \<and> ch_readCallback a = ch_readCallback b \<and>
     ch_writeCallback a = ch_writeCallback b"

definition bindings_kept :: "(nat \<Rightarrow> 'cb Channel option) \<Rightarrow> (nat \<Rightarrow> 'cb Channel option) \<Rightarrow> bool" where
  "bindings_kept m m' \<longleftrightarrow> (\<forall>a. rel_option same_binding (m a) (m' a))"

named_theorems bindings "operations keep the callbacks of all channels"

lemma same_binding_refl [simp]: "same_binding c c"
  by (simp add: same_binding_def)

lemma bindings_kept_refl [bindings]: "bindings_kept m m"
  by (simp add: bindings_kept_def option.rel_refl)

lemma bindings_kept_trans: "bindings_kept m1 m2 \<Longrightarrow> bindings_kept m2 m3 \<Longrightarrow> bindings_kept m1 m3"
  using option.rel_transp [of same_binding, THEN transpD]
  unfolding bindings_kept_def by (metis (mono_tags, lifting) same_binding_def transpI)

lemma bindings_kept_upd: "m a = Some ch \<Longrightarrow> same_binding ch ch' \<Longrightarrow> bindings_kept m (m(a \<mapsto> ch'))"
  by (simp add: bindings_kept_def option.rel_refl)

lemma bindings_kept_some:
  "bindings_kept m m' \<Longrightarrow> m a = Some ch \<Longrightarrow> \<exists>ch'. m' a = Some ch' \<and> same_binding ch ch'"
  unfolding bindings_kept_def by (metis option_rel_Some1)

lemma enable_binding [simp]:
  "same_binding ch (fst (enableReading e a ch))" "same_binding ch (fst (enableWriting e a ch))"
  "same_binding ch (set_revents ev ch)"
  by (simp_all add: same_binding_def enableReading_def enableWriting_def Channel_update_def set_revents_def)

lemma conn_enable_keeps:
  "conn_enableWriting e (c, l) = Inr (c', l') \<Longrightarrow> bindings_kept (el_channels l) (el_channels l') \<and> c' = c"
  "conn_enableReading e (c, l) = Inr (c', l') \<Longrightarrow> bindings_kept (el_channels l) (el_channels l') \<and> c' = c"
  by (auto simp: conn_enableWriting_def conn_enableReading_def bind_r_eq_Inr EventLoop_update_def conn_channel_Inr
      intro!: bindings_kept_upd)

text \<open>A connection keeps its descriptor, its address and its callbacks.\<close>

definition conn_static :: "'u TcpConnection \<Rightarrow> int \<times> nat \<times> 'u option \<times> 'u option \<times> 'u option" where
  "conn_static c =
     (tc_fd c, tc_addr c, tc_connectionCallback c, tc_messageCallback c, tc_writeCompleteCallback c)"

lemma send_bindings: "send msg n (c, l) = Inr (c', l') \<Longrightarrow> bindings_kept (el_channels l) (el_channels l')"
  by (auto simp: send_def Let_def bind_r_eq_Inr bindings_kept_refl split: if_splits dest!: conn_enable_keeps(1))

lemma send_static: "send msg n (c, l) = Inr (c', l') \<Longrightarrow> conn_static c' = conn_static c"
  by (auto simp: send_def Let_def bind_r_eq_Inr accepted_def conn_static_def split: if_splits dest!: conn_enable_keeps(1))

lemma send_inputBuf: "send msg n (c, l) = Inr (c', l') \<Longrightarrow> tc_inputBuf c' = tc_inputBuf c"
  by (auto simp: send_def Let_def bind_r_eq_Inr accepted_def split: if_splits dest!: conn_enable_keeps(1))

lemma send_revents:
  "send msg n (c, l) = Inr (c', l') \<Longrightarrow>
    map_option ch_revents (el_channels l' a) = map_option ch_revents (el_channels l a)"
  by (auto simp: send_def Let_def bind_r_eq_Inr conn_enableWriting_def conn_channel_Inr EventLoop_update_def
      enableWriting_def Channel_update_def split: if_splits)

lemma send_no_callback:
  "send msg n (c, l) = Inr (c', l') \<Longrightarrow> tc_writeCompleteCallback c = None \<Longrightarrow> el_pending l' = el_pending l"
  by (auto simp: send_def Let_def bind_r_eq_Inr conn_enableWriting_def conn_channel_Inr EventLoop_update_def
      split: if_splits)

lemmas send_keeps = send_bindings send_static send_inputBuf

lemma handleWrite_bindings: "handleWrite n (c, l) = Inr (c', l') \<Longrightarrow> bindings_kept (el_channels l) (el_channels l')"
  by (auto simp: handleWrite_def Let_def bind_r_eq_Inr bindings_kept_refl split: if_splits dest!: conn_enable_keeps(1))

lemma handleWrite_static: "handleWrite n (c, l) = Inr (c', l') \<Longrightarrow> conn_static c' = conn_static c"
  by (auto simp: handleWrite_def Let_def bind_r_eq_Inr accepted_def conn_static_def split: if_splits dest!: conn_enable_keeps(1))

lemma handleWrite_inputBuf: "handleWrite n (c, l) = Inr (c', l') \<Longrightarrow> tc_inputBuf c' = tc_inputBuf c"
  by (auto simp: handleWrite_def Let_def bind_r_eq_Inr accepted_def split: if_splits dest!: conn_enable_keeps(1))

lemmas handleWrite_keeps = handleWrite_bindings handleWrite_static handleWrite_inputBuf

lemma echo_read_keeps:
  assumes "handleRead (run_messageCallback k) now n data (c, l) = Inr (c', l')" "tc_messageCallback c = Some Echo_onMessage"
  shows "bindings_kept (el_channels l) (el_channels l') \<and> conn_static c' = conn_static c"
proof (cases "wrap32 n \<le> 0")
  case True
  with assms(1) show ?thesis by (auto simp: handleRead_def bindings conn_static_def split: if_splits)
next
  case False
  with assms obtain b msg b' where
    "send msg (k_write k (length msg)) (c\<lparr>tc_inputBuf := b'\<rparr>, l) = Inr (c', l')"
    by (auto simp: handleRead_def bind_r_eq_Inr invoke_def echo_onMessage_def Let_def)
  from send_keeps(1,2) [OF this] show ?thesis by (simp add: conn_static_def)
qed

lemma established_keeps:
  assumes "connectEstablished run_connectionCallback (c, l) = Inr (c', l')" "tc_connectionCallback c = Some Echo_onConnection"
  shows "bindings_kept (el_channels l) (el_channels l') \<and> c' = c"
  using assms
  by (auto simp: connectEstablished_def bind_r_eq_Inr invoke_def echo_onConnection_def dest!: conn_enable_keeps(2))

lemma poll_bindings:
  "Epoller_poll ready store chs = Inr (store', chs') \<Longrightarrow> bindings_kept store store'"
proof (induction ready store chs rule: Epoller_poll.induct)
  case (2 ev addr ready store channels)
  then obtain ch where ch: "store addr = Some ch" by (auto split: option.splits)
  with 2 have "bindings_kept (store(addr \<mapsto> set_revents ev ch)) store'" by (simp add: fun_upd_def)
  with bindings_kept_upd [where m = store and a = addr, OF ch enable_binding(3) [of ch ev]] show ?case
    by (rule bindings_kept_trans)
qed (simp add: bindings)


section \<open>The invariant\<close>

definition bound_to :: "int \<Rightarrow> echo_fn Conn \<Rightarrow> bool" where
  "bound_to fd s \<longleftrightarrow>
     (\<exists>ch. el_channels (snd s) (tc_addr (fst s)) = Some ch \<and> ch_fd ch = fd \<and>
        ch_readCallback ch = Some (Client (Bound_conn_handleRead fd)) \<and>
        ch_writeCallback ch = Some (Client (Bound_conn_handleWrite fd)))"

definition echoes :: "string \<Rightarrow> echo_fn TcpConnection \<Rightarrow> bool" where
  "echoes got c \<longleftrightarrow> wf_buffer (tc_inputBuf c) \<and> content (tc_inputBuf c) = [] \<and> wf_buffer (tc_outputBuf c) \<and>
     tc_written c @ content (tc_outputBuf c) = got \<and>
     writerIndex (tc_inputBuf c) \<le> 8 + length got \<and> writerIndex (tc_outputBuf c) \<le> 8 + length got"

definition conn_inv :: "int \<Rightarrow> string \<Rightarrow> echo_fn Conn \<Rightarrow> bool" where
  "conn_inv fd got s \<longleftrightarrow>
     conn_static (fst s) = (fd, tc_addr (fst s), Some Echo_onConnection, Some Echo_onMessage, None) \<and>
     bound_to fd s \<and> (length got \<le> 2 ^ 62 \<longrightarrow> echoes got (fst s))"

definition conns_inv :: "echo_fn Server \<Rightarrow> (int \<Rightarrow> string) \<Rightarrow> bool" where
  "conns_inv sl got \<longleftrightarrow> (\<forall>fd c. ts_connections (fst sl) fd = Some c \<longrightarrow> conn_inv fd (got fd) (c, snd sl))"

definition echo_inv :: "Echo \<Rightarrow> bool" where
  "echo_inv w \<longleftrightarrow>
     ts_connectionCallback (fst (fst w)) = Some Echo_onConnection \<and>
     ts_messageCallback (fst (fst w)) = Some Echo_onMessage \<and> conns_inv (fst w) (snd w)"

text \<open>What the manual pages say of \<open>read\<close> and \<open>write\<close>.\<close>

definition kernel_doc :: "kernel \<Rightarrow> bool" where
  "kernel_doc k \<longleftrightarrow> (\<forall>len. write_doc len (k_write k len)) \<and>
     (fst (k_read k) = - 1 \<or> 0 \<le> fst (k_read k) \<and> fst (k_read k) \<le> 1024 \<and>
        length (snd (k_read k)) = nat (fst (k_read k)))"

lemma bound_to_kept:
  assumes "bound_to fd (c, l)" "bindings_kept (el_channels l) (el_channels l')" "tc_addr c' = tc_addr c"
  shows "bound_to fd (c', l')"
proof -
  from assms(1) obtain ch where ch: "el_channels l (tc_addr c) = Some ch" "ch_fd ch = fd"
    "ch_readCallback ch = Some (Client (Bound_conn_handleRead fd))"
    "ch_writeCallback ch = Some (Client (Bound_conn_handleWrite fd))"
    by (auto simp: bound_to_def)
  from bindings_kept_some [OF assms(2) ch(1)] obtain ch' where
    "el_channels l' (tc_addr c) = Some ch'" "same_binding ch ch'" by blast
  with ch assms(3) show ?thesis unfolding bound_to_def same_binding_def by (intro exI [of _ ch']) auto
qed

lemma conn_inv_kept: "conn_inv fd g (c, l) \<Longrightarrow> bindings_kept (el_channels l) (el_channels l') \<Longrightarrow> conn_inv fd g (c, l')"
  using bound_to_kept [of fd c l l' c] by (simp add: conn_inv_def)

lemma conn_inv_step:
  assumes "conn_inv fd g (c, l)" "bindings_kept (el_channels l) (el_channels l')" "conn_static c' = conn_static c"
    and "length g' \<le> 2 ^ 62 \<Longrightarrow> echoes g' c'"
  shows "conn_inv fd g' (c', l')"
proof -
  have "tc_addr c' = tc_addr c" using assms(3) by (simp add: conn_static_def)
  with assms bound_to_kept [of fd c l l' c'] show ?thesis by (simp add: conn_inv_def)
qed

lemma conn_inv_wf: "conn_inv fd g (c, l) \<Longrightarrow> length g \<le> 2 ^ 62 \<Longrightarrow> conn_wf (c, l)"
  by (auto simp: conn_inv_def bound_to_def conn_wf_def echoes_def)

text \<open>What the message callback does with \<open>msg\<close> in the input buffer.\<close>

lemma echo_send:
  assumes c: "echoes g c" "bound_to fd (c, l)" and len: "length (g @ msg) \<le> 2 ^ 62" "length msg < 2 ^ 31"
    and b: "buffer_append msg (tc_inputBuf c) = Inr b" and w: "\<forall>len. write_doc len (write len)"
  shows "if content (tc_outputBuf c) = [] \<and> write (length msg) = - 1
    then echo_onMessage write (c\<lparr>tc_inputBuf := b\<rparr>, l) = Inl OutOfRange
    else \<exists>c' l'. echo_onMessage write (c\<lparr>tc_inputBuf := b\<rparr>, l) = Inr (c', l') \<and> echoes (g @ msg) c'"
proof -
  have in_room: "writerIndex (tc_inputBuf c) + length msg \<le> vec_max"
    using c(1) len(1) by (simp add: echoes_def vec_max_def)
  from buffer_append_ok [OF _ in_room] c(1) b have
    b1: "wf_buffer b" "content b = msg" "writerIndex b \<le> 8 + length (g @ msg)"
    by (auto simp: echoes_def)
  from retrieveAllAsString_ok [OF b1(1)] b1 obtain b2 where
    b2: "retrieveAllAsString b = Inr (msg, b2)" "wf_buffer b2" "content b2 = []" "writerIndex b2 \<le> 8 + length (g @ msg)"
    by fastforce
  let ?s = "(c\<lparr>tc_inputBuf := b2\<rparr>, l)"
  have on: "echo_onMessage write (c\<lparr>tc_inputBuf := b\<rparr>, l) = send msg (write (length msg)) ?s"
    using b2(1) by (simp add: echo_onMessage_def)
  have wf: "conn_wf ?s" and u: "unsent ?s = content (tc_outputBuf c)"
    using c by (auto simp: conn_wf_def echoes_def bound_to_def unsent_def)
  have wd: "write_doc (length msg) (write (length msg))" using w by simp
  have room: "writerIndex (tc_outputBuf (fst ?s)) + length msg \<le> vec_max"
    using c(1) len(1) by (simp add: echoes_def vec_max_def)
  show ?thesis
  proof (cases "content (tc_outputBuf c) = [] \<and> write (length msg) = - 1")
    case True
    with send_write_error [OF wf _ len(2)] on u show ?thesis by simp
  next
    case False
    with send_ok [OF wf len(2) wd _ room] u obtain c' l' where
      s: "send msg (write (length msg)) ?s = Inr (c', l')" "conn_wf (c', l')"
        "tc_written c' = tc_written c @ (if unsent ?s = [] then take (nat (write (length msg))) msg else [])"
        "unsent (c', l') = unsent ?s @ (if unsent ?s = [] then drop (nat (write (length msg))) msg else msg)"
        "writerIndex (tc_outputBuf c') \<le> writerIndex (tc_outputBuf c) + length msg"
      by (auto split: if_splits)
    have "echoes (g @ msg) c'"
      using s c(1) b2 send_keeps(3) [OF s(1)] u by (auto simp: echoes_def conn_wf_def unsent_def split: if_splits)
    with False s(1) on show ?thesis by simp
  qed
qed

lemma read_conn_inv:
  assumes "conn_inv fd g (c, l)" "kernel_doc k" "k_read k = (n, data)"
    and "handleRead (run_messageCallback k) now n data (c, l) = Inr (c', l')"
  shows "conn_inv fd (g @ take (nat n) data) (c', l') \<and> bindings_kept (el_channels l) (el_channels l')"
proof -
  have mc: "tc_messageCallback c = Some Echo_onMessage" using assms(1) by (simp add: conn_inv_def conn_static_def)
  note kept = echo_read_keeps [OF assms(4) mc]
  have n: "wrap32 n = n" "nat n \<le> 1024" using assms(2,3) by (auto simp: kernel_doc_def)
  have "echoes (g @ take (nat n) data) c'" if len: "length (g @ take (nat n) data) \<le> 2 ^ 62"
  proof (cases "n \<le> 0")
    case True
    with assms(1,4) len n show ?thesis
      by (auto simp: handleRead_def conn_inv_def echoes_def split: if_splits)
  next
    case False
    let ?msg = "take (nat n) data"
    have c: "echoes g c" "bound_to fd (c, l)" using assms(1) len by (simp_all add: conn_inv_def)
    have "length ?msg < 2 ^ 31" using n(2) by simp
    from False assms(4) n mc obtain b where b: "buffer_append ?msg (tc_inputBuf c) = Inr b"
      "echo_onMessage (k_write k) (c\<lparr>tc_inputBuf := b\<rparr>, l) = Inr (c', l')"
      by (auto simp: handleRead_def bind_r_eq_Inr invoke_def Let_def)
    from echo_send [OF c len \<open>length ?msg < 2 ^ 31\<close> b(1), of "k_write k"] assms(2) b(2) show ?thesis
      by (auto simp: kernel_doc_def split: if_splits)
  qed
  with conn_inv_step [OF assms(1)] kept show ?thesis by blast
qed

lemma write_conn_inv:
  assumes "conn_inv fd g (c, l)" "kernel_doc k"
    and "handleWrite (k_write k (length (unsent (c, l)))) (c, l) = Inr (c', l')"
  shows "conn_inv fd g (c', l') \<and> bindings_kept (el_channels l) (el_channels l')"
proof -
  note kept = handleWrite_keeps [OF assms(3)]
  have "echoes g c'" if len: "length g \<le> 2 ^ 62"
  proof -
    have "write_doc (length (unsent (c, l))) (k_write k (length (unsent (c, l))))"
      using assms(2) by (simp add: kernel_doc_def)
    from handleWrite_ok [OF conn_inv_wf [OF assms(1) len] this] assms(3) have
      "conn_wf (c', l')" "stream (c', l') = stream (c, l)" "writerIndex (tc_outputBuf c') \<le> writerIndex (tc_outputBuf c)"
      by auto
    with assms(1) len kept(3) show ?thesis
      by (auto simp: conn_inv_def echoes_def conn_wf_def stream_def unsent_def)
  qed
  with conn_inv_step [OF assms(1)] kept show ?thesis by blast
qed


section \<open>Every round keeps it\<close>

lemma on_conn_inv:
  assumes "conns_inv (s, l) got" "on_conn fd f (s, l) = Inr (s', l')"
    and "\<And>c c' l'. conn_inv fd (got fd) (c, l) \<Longrightarrow> f (c, l) = Inr (c', l') \<Longrightarrow>
      conn_inv fd g (c', l') \<and> bindings_kept (el_channels l) (el_channels l')"
  shows "conns_inv (s', l') (got(fd := g)) \<and> ts_connectionCallback s' = ts_connectionCallback s \<and>
    ts_messageCallback s' = ts_messageCallback s"
proof -
  from assms(2) obtain c c' where c: "ts_connections s fd = Some c" "f (c, l) = Inr (c', l')"
    "s' = s\<lparr>ts_connections := (ts_connections s)(fd \<mapsto> c')\<rparr>"
    by (auto simp: on_conn_def bind_r_eq_Inr split: option.splits)
  from c(1) assms(1) have "conn_inv fd (got fd) (c, l)" by (simp add: conns_inv_def)
  from assms(3) [OF this c(2)] have "conn_inv fd g (c', l')" "bindings_kept (el_channels l) (el_channels l')" by simp_all
  with assms(1) c(3) show ?thesis by (auto simp: conns_inv_def intro: conn_inv_kept [of _ _ _ l l'])
qed

lemma conns_inv_kept:
  "conns_inv (s, l) got \<Longrightarrow> bindings_kept (el_channels l) (el_channels l') \<Longrightarrow> conns_inv (s, l') got"
  by (auto simp: conns_inv_def intro: conn_inv_kept [of _ _ _ l l'])

lemma newConnection_inv:
  assumes inv: "echo_inv ((s, l), got)"
    and r: "run_newConnectionCallback env cb sockfd ((s, l), got) = Inr w'"
  shows "echo_inv w'"
proof -
  from r have cb: "cb = Bound_newConnection" by (cases cb) auto
  from r obtain addr s' l' where a: "operator_new (ee_new env) (live_objects env s) = Some addr"
    "newConnection addr (Bound_conn_handleRead sockfd) (Bound_conn_handleWrite sockfd)
       (Bound_connectEstablished sockfd) sockfd (s, l) = Inr (s', l')" "w' = ((s', l'), got(sockfd := []))"
    by (auto simp: cb bind_r_eq_Inr split: option.splits)
  have fresh: "tc_addr c \<noteq> addr" if "ts_connections s fd = Some c" for fd c
    using operator_new [OF a(1)] that by (auto simp: live_objects_def)
  let ?rd = "Bound_conn_handleRead sockfd" and ?wr = "Bound_conn_handleWrite sockfd"
  from new_buffer_ok [of kInitialSize] obtain b where
    b: "new_buffer kInitialSize = Inr b" "wf_buffer b" "content b = []" "writerIndex b = 8"
    by (auto simp: kInitialSize_def vec_max_def)
  let ?ch = "setWriteCallback (Client ?wr) (setReadCallback (Client ?rd) (Channel_new sockfd))"
  let ?c = "\<lparr>tc_fd = sockfd, tc_addr = addr, tc_inputBuf = b, tc_outputBuf = b,
    tc_connectionCallback = ts_connectionCallback s, tc_closeCallback = None, tc_writeCompleteCallback = None,
    tc_messageCallback = ts_messageCallback s, tc_written = [], tc_closed = False\<rparr>"
  have s': "s' = s\<lparr>ts_connections := (ts_connections s)(sockfd \<mapsto> ?c)\<rparr>"
    "el_channels l' = (el_channels l)(addr \<mapsto> ?ch)"
    using a(2) b(1)
    by (auto simp: newConnection_def TcpConnection_new_def Let_def setConnectionCallback_def setMessageCallback_def)
  have "conn_inv sockfd [] (?c, l')"
    using inv b(2-4)
    by (simp add: conn_inv_def conn_static_def bound_to_def echoes_def echo_inv_def s'(2) setReadCallback_def
        setWriteCallback_def Channel_new_def)
  moreover have "conn_inv fd (got fd) (c, l')" if "ts_connections s fd = Some c" for fd c
    using inv that fresh [OF that] by (auto simp: echo_inv_def conns_inv_def conn_inv_def bound_to_def s'(2))
  ultimately show ?thesis using inv by (simp add: echo_inv_def conns_inv_def a(3) s'(1))
qed

lemma echo_handler_inv:
  assumes inv: "echo_inv w" and k: "kernel_doc k" and r: "echo_handler env k h w = Inr w'"
  shows "echo_inv w'"
proof -
  obtain s l got where w: "w = ((s, l), got)" by (metis prod.exhaust)
  show ?thesis
  proof (cases h)
    case Wakeup_handleRead
    with r w inv conns_inv_kept [of s l got] show ?thesis
      by (auto simp: echo_inv_def EventLoop_handleRead_def bindings)
  next
    case TimerQueue_handleRead_cb
    with r inv show ?thesis by simp
  next
    case (Client f)
    show ?thesis
    proof (cases f)
      case Bound_Acceptor_handleRead
      with r Client w inv show ?thesis
        by (auto simp: Acceptor_handleRead_def cassert_eq_Inr invoke_def split: option.splits
            intro: newConnection_inv)
    next
      case (Bound_conn_handleRead fd)
      obtain n data where nd: "k_read k = (n, data)" by (cases "k_read k")
      with r Client Bound_conn_handleRead w obtain s' l' where
        o: "on_conn fd (handleRead (run_messageCallback k) (ee_now env) n data) (s, l) = Inr (s', l')"
          "w' = ((s', l'), got(fd := got fd @ take (nat n) data))"
        by (auto simp: bind_r_eq_Inr)
      from on_conn_inv [OF _ o(1), of got "got fd @ take (nat n) data"] read_conn_inv [OF _ k nd] inv w o(2)
      show ?thesis by (auto simp: echo_inv_def)
    next
      case (Bound_conn_handleWrite fd)
      with r Client w obtain s' l' where
        o: "on_conn fd (\<lambda>c. handleWrite (k_write k (length (unsent c))) c) (s, l) = Inr (s', l')" "w' = ((s', l'), got)"
        by (auto simp: bind_r_eq_Inr)
      from on_conn_inv [OF _ o(1), of got "got fd"] write_conn_inv [OF _ k] inv w o(2)
      show ?thesis by (auto simp: echo_inv_def)
    qed (use r Client in auto)
  qed
qed

lemma run_bound_inv:
  assumes inv: "echo_inv w" and r: "run_bound f w = Inr w'"
  shows "echo_inv w'"
proof -
  obtain s l got where w: "w = ((s, l), got)" by (metis prod.exhaust)
  from r w obtain fd where f: "f = Bound_connectEstablished fd" by (cases f) auto
  with r w obtain s' l' where
    e: "server_connectEstablished run_connectionCallback fd (s, l) = Inr (s', l')" "w' = ((s', l'), got)"
    by (auto simp: bind_r_eq_Inr)
  have "on_conn fd (connectEstablished run_connectionCallback) (s, l) = Inr (s', l')"
    using e(1) by (simp add: on_conn_def server_connectEstablished_def)
  from on_conn_inv [OF _ this, of got "got fd"] inv w e(2) established_keeps conn_inv_kept show ?thesis
    by (fastforce simp: echo_inv_def conn_inv_def conn_static_def)
qed

lemma echo_events_inv:
  "echo_events env chans w = Inr w' \<Longrightarrow> list_all kernel_doc (map snd chans) \<Longrightarrow> echo_inv w \<Longrightarrow> echo_inv w'"
proof (induction chans arbitrary: w)
  case (Cons x chans)
  obtain a k where x: "x = (a, k)" by (cases x)
  from Cons.prems(1) x obtain w1 where
    w1: "handleEvent (echo_handler env k) (\<lambda>w. the (el_channels (snd (fst w)) a)) w = Inr w1"
      "echo_events env chans w1 = Inr w'"
    by (auto simp: bind_r_eq_Inr split: option.splits)
  have "echo_inv w1"
    by (rule handleEvent_inv [where P = echo_inv, OF _ w1(1) Cons.prems(3)])
      (rule echo_handler_inv, use Cons.prems(2) x in auto)
  with Cons.IH [OF w1(2)] Cons.prems(2) show ?case by simp
qed simp

lemma echo_functors_inv: "echo_functors fs w = Inr w' \<Longrightarrow> echo_inv w \<Longrightarrow> echo_inv w'"
proof (induction fs arbitrary: w)
  case (Cons f fs)
  from Cons.prems(1) obtain w1 where w1: "echo_functor f w = Inr w1" "echo_functors fs w1 = Inr w'"
    by (auto simp: bind_r_eq_Inr)
  have "echo_inv w1" using w1(1) run_bound_inv [OF Cons.prems(2), where w' = w1] by (cases f) (auto simp: invoke_Inr)
  with Cons.IH [OF w1(2)] show ?case by simp
qed simp

lemma echo_round_inv:
  assumes "echo_round env ready w = Inr w'" "list_all (kernel_doc \<circ> snd \<circ> snd) ready" "echo_inv w"
  shows "echo_inv w'"
proof -
  obtain s l got where w: "w = ((s, l), got)" by (metis prod.exhaust)
  from assms(1) w obtain store chans s1 l1 got1 where
    p: "Epoller_poll (map (\<lambda>(ev, addr, k). (ev, addr)) ready) (el_channels l) [] = Inr (store, chans)"
    and e: "echo_events env (zip chans (map (snd \<circ> snd) ready)) ((s, l\<lparr>el_channels := store\<rparr>), got) = Inr ((s1, l1), got1)"
    and f: "echo_functors (el_pending l1) ((s1, l1\<lparr>el_pending := []\<rparr>), got1) = Inr w'"
    by (auto simp: echo_round_def bind_r_eq_Inr)
  have "echo_inv ((s, l\<lparr>el_channels := store\<rparr>), got)"
    using assms(3) w poll_bindings [OF p] conns_inv_kept [of s l got "l\<lparr>el_channels := store\<rparr>"] by (simp add: echo_inv_def)
  moreover have "list_all kernel_doc (map snd (zip chans (map (snd \<circ> snd) ready)))"
    using assms(2) by (fastforce simp: list_all_iff dest: set_zip_rightD)
  ultimately have "echo_inv ((s1, l1), got1)" using echo_events_inv [OF e] by blast
  then have "echo_inv ((s1, l1\<lparr>el_pending := []\<rparr>), got1)"
    using conns_inv_kept [of s1 l1 got1 "l1\<lparr>el_pending := []\<rparr>"] by (simp add: echo_inv_def bindings)
  with echo_functors_inv [OF f] show ?thesis .
qed

text \<open>A server from its construction on.\<close>

inductive echo_reach :: "echo_env \<Rightarrow> Echo \<Rightarrow> bool" for env where
  reach_start: "EchoServer_new sys addr l0 = Inr s \<Longrightarrow> EchoServer_start s = Inr s' \<Longrightarrow> echo_reach env (s', \<lambda>_. [])"
| reach_round: "echo_reach env w \<Longrightarrow> list_all (kernel_doc \<circ> snd \<circ> snd) ready \<Longrightarrow> echo_round env ready w = Inr w' \<Longrightarrow>
    echo_reach env w'"

lemma echo_reach_inv: "echo_reach env w \<Longrightarrow> echo_inv w"
proof (induction rule: echo_reach.induct)
  case (reach_start sys addr l0 s s')
  then show ?case
    by (auto simp: EchoServer_new_def TcpServer_new_def bind_r_eq_Inr server_setConnectionCallback_def
        server_setMessageCallback_def EchoServer_start_def start_def echo_inv_def conns_inv_def)
next
  case (reach_round w ready w')
  with echo_round_inv show ?case by blast
qed


section \<open>One message\<close>

lemma single_event_round:
  assumes "el_channels l a = Some ch" "el_pending l = []"
  shows "echo_round env [(ev, a, k)] ((s, l), got) =
    bind_r (handleEvent (echo_handler env k) (\<lambda>w. the (el_channels (snd (fst w)) a))
        ((s, l\<lparr>el_channels := (el_channels l)(a \<mapsto> set_revents ev ch)\<rparr>), got))
      (\<lambda>((s, l), got). echo_functors (el_pending l) ((s, l\<lparr>el_pending := []\<rparr>), got))"
  using assms by (simp add: echo_round_def bind_r_def split: sum.split)

lemma echo_read_round:
  assumes inv: "echo_inv ((s, l), got)" and c: "ts_connections s fd = Some c" and idle: "el_pending l = []"
    and k: "kernel_doc k" "k_read k = (int (length msg), msg)" "msg \<noteq> []"
    and len: "length (got fd @ msg) \<le> 2 ^ 62"
  shows "if content (tc_outputBuf c) = [] \<and> k_write k (length msg) = - 1
    then echo_round env [(kReadEvent, tc_addr c, k)] ((s, l), got) = Inl OutOfRange
    else \<exists>s' l'. echo_round env [(kReadEvent, tc_addr c, k)] ((s, l), got) = Inr ((s', l'), got(fd := got fd @ msg)) \<and>
      (\<exists>c'. ts_connections s' = (ts_connections s)(fd \<mapsto> c')) \<and> el_pending l' = []"
proof -
  let ?a = "tc_addr c"
  have ci: "conn_inv fd (got fd) (c, l)" using inv c by (simp add: echo_inv_def conns_inv_def)
  then obtain ch where ch: "el_channels l ?a = Some ch" "ch_readCallback ch = Some (Client (Bound_conn_handleRead fd))"
    by (auto simp: conn_inv_def bound_to_def)
  let ?l = "l\<lparr>el_channels := (el_channels l)(?a \<mapsto> set_revents kReadEvent ch)\<rparr>"
  have "bindings_kept (el_channels l) (el_channels ?l)" using ch(1) by (simp add: bindings_kept_upd)
  with ci have b: "bound_to fd (c, ?l)" "echoes (got fd) c" using len bound_to_kept [of fd c l ?l c] by (simp_all add: conn_inv_def)
  have static: "tc_messageCallback c = Some Echo_onMessage" "tc_writeCompleteCallback c = None"
    using ci by (simp_all add: conn_inv_def conn_static_def)
  have n: "length msg \<le> 1024" using k(1,2) by (auto simp: kernel_doc_def)
  have in_room: "writerIndex (tc_inputBuf c) + length msg \<le> vec_max"
    using b(2) len by (simp add: echoes_def vec_max_def)
  from buffer_append_ok [OF _ in_room] b(2) obtain buf where buf: "buffer_append msg (tc_inputBuf c) = Inr buf"
    by (auto simp: echoes_def)
  have read: "handleRead (run_messageCallback k) (ee_now env) (int (length msg)) msg (c, ?l) =
      echo_onMessage (k_write k) (c\<lparr>tc_inputBuf := buf\<rparr>, ?l)"
    using k(3) n buf static by (simp add: handleRead_def invoke_def Let_def)
  have handler: "echo_handler env k (Client (Bound_conn_handleRead fd)) ((s, ?l), got) =
      bind_r (echo_onMessage (k_write k) (c\<lparr>tc_inputBuf := buf\<rparr>, ?l)) (\<lambda>(c, l).
        Inr ((s\<lparr>ts_connections := (ts_connections s)(fd \<mapsto> c)\<rparr>, l), got(fd := got fd @ msg)))"
    using read k(2) c by (simp add: on_conn_def bind_r_def case_prod_beta split: sum.split)
  have event: "handleEvent (echo_handler env k) (\<lambda>w. the (el_channels (snd (fst w)) ?a)) ((s, ?l), got) =
      bind_r (echo_handler env k (Client (Bound_conn_handleRead fd)) ((s, ?l), got)) (\<lambda>w.
        let ch = the (el_channels (snd (fst w)) ?a)
        in if ch_revents ch AND kWriteEvent \<noteq> 0 then invoke (echo_handler env k) (ch_writeCallback ch) w else Inr w)"
    using ch(2) by (simp add: handleEvent_def invoke_def set_revents_def Let_def)
  note round = single_event_round [OF ch(1) idle, of env kReadEvent k s got]
  have wd: "\<forall>len. write_doc len (k_write k len)" using k(1) by (simp add: kernel_doc_def)
  have short: "length msg < 2 ^ 31" using n by simp
  show ?thesis
  proof (cases "content (tc_outputBuf c) = [] \<and> k_write k (length msg) = - 1")
    case True
    with echo_send [OF b(2,1) len short buf wd] show ?thesis unfolding round event handler by simp
  next
    case False
    with echo_send [OF b(2,1) len short buf wd] obtain c' l' where
      e: "echo_onMessage (k_write k) (c\<lparr>tc_inputBuf := buf\<rparr>, ?l) = Inr (c', l')" by auto
    then obtain b2 m where s2: "send m (k_write k (length m)) (c\<lparr>tc_inputBuf := b2\<rparr>, ?l) = Inr (c', l')"
      by (auto simp: echo_onMessage_def bind_r_eq_Inr)
    from send_revents [OF s2, of ?a] have "map_option ch_revents (el_channels l' ?a) = Some kReadEvent"
      by (simp add: set_revents_def)
    then have "ch_revents (the (el_channels l' ?a)) AND kWriteEvent = 0"
      by (auto simp: kReadEvent_def kWriteEvent_def)
    moreover have "el_pending l' = []" using send_no_callback [OF s2] static(2) idle by simp
    ultimately show ?thesis using False unfolding round event handler e by (auto simp: Let_def)
  qed
qed

text \<open>A server that has accepted descriptor 7.\<close>

definition demo_echo_env :: echo_env where
  "demo_echo_env = \<lparr>ee_new = three_slots, ee_base = {300}, ee_now = \<lparr>microSecondsSinceEpoch = 7\<rparr>\<rparr>"

definition demo_kernel :: "string \<Rightarrow> (nat \<Rightarrow> int) \<Rightarrow> kernel" where
  "demo_kernel msg write = \<lparr>k_accept = 7, k_read = (int (length msg), msg), k_write = write\<rparr>"

lemma demo_accept:
  "\<exists>s0 s1 s l c. EchoServer_new \<lparr>socket_ret = 6, bind_ret = \<lambda>_ _. 0, listen_ret = 0\<rparr> 300
      \<lparr>el_quit = False, el_channels = Map.empty, el_requests = [], el_wakeups = 0, el_pending = [], el_ran = []\<rparr> = Inr s0 \<and>
    EchoServer_start s0 = Inr s1 \<and>
    echo_round demo_echo_env [(kReadEvent, 300, demo_kernel [] write)] (s1, \<lambda>_. []) = Inr ((s, l), (\<lambda>_. [])(7 := [])) \<and>
    ts_connections s 7 = Some c \<and> el_pending l = []"
proof -
  from new_buffer_ok [of kInitialSize] obtain b where b: "new_buffer kInitialSize = Inr b"
    by (auto simp: kInitialSize_def vec_max_def)
  show ?thesis
    by (simp add: EchoServer_new_def TcpServer_new_def Acceptor_new_def createAndListen_def Let_def kernel_doc_def
        setNewConnectionCallback_def server_setMessageCallback_def server_setConnectionCallback_def EchoServer_start_def
        start_def Acceptor_listen_def EventLoop_update_def setReadCallback_def Channel_new_def enableReading_def
        Channel_update_def echo_round_def handleEvent_def set_revents_def invoke_def Acceptor_handleRead_def demo_kernel_def
        demo_echo_env_def live_objects_def newConnection_def TcpConnection_new_def b setWriteCallback_def
        setConnectionCallback_def setMessageCallback_def server_connectEstablished_def connectEstablished_def
        conn_enableReading_def conn_channel_def echo_onConnection_def kReadEvent_def kWriteEvent_def)
qed

lemma demo_echo:
  "\<exists>s l got c. echo_reach demo_echo_env ((s, l), got) \<and> ts_connections s 7 = Some c \<and> got 7 = [] \<and> el_pending l = []"
proof -
  from demo_accept [of "\<lambda>_. - 1"] obtain s0 s1 s l c where
    s: "EchoServer_new \<lparr>socket_ret = 6, bind_ret = \<lambda>_ _. 0, listen_ret = 0\<rparr> 300
      \<lparr>el_quit = False, el_channels = Map.empty, el_requests = [], el_wakeups = 0, el_pending = [], el_ran = []\<rparr> = Inr s0"
      "EchoServer_start s0 = Inr s1"
      "echo_round demo_echo_env [(kReadEvent, 300, demo_kernel [] (\<lambda>_. - 1))] (s1, \<lambda>_. []) = Inr ((s, l), (\<lambda>_. [])(7 := []))"
      "ts_connections s 7 = Some c" "el_pending l = []" by blast
  have "list_all (kernel_doc \<circ> snd \<circ> snd) [(kReadEvent, 300, demo_kernel [] (\<lambda>_. - 1))]"
    by (simp add: kernel_doc_def demo_kernel_def write_doc_def)
  with reach_round [OF reach_start [OF s(1,2)] _ s(3)] s(4,5) show ?thesis by fastforce
qed

section \<open>Properties\<close>

text \<open>
  C3. Every client is answered with its own bytes: in any state the server reaches, with any number of
  connections, short writes, failed reads and descriptors that are closed and used again, what was written to a
  connection followed by what waits in its output buffer is what was read from it, and no input is left behind.
\<close>

theorem echo_server_echoes:
  assumes "echo_reach env ((s, l), got)" "ts_connections s fd = Some c" "length (got fd) \<le> 2 ^ 62"
  shows "tc_written c @ content (tc_outputBuf c) = got fd \<and> content (tc_inputBuf c) = []"
  using echo_reach_inv [OF assms(1)] assms(2,3) by (simp add: echo_inv_def conns_inv_def conn_inv_def echoes_def)

theorem echo_server_echoes_witness:
  "\<exists>s l got c. echo_reach demo_echo_env ((s, l), got) \<and> got 7 = ''hello'' \<and> ts_connections s 7 = Some c \<and>
    tc_written c @ content (tc_outputBuf c) = ''hello''"
proof -
  from demo_echo obtain s l got c where w: "echo_reach demo_echo_env ((s, l), got)" "ts_connections s 7 = Some c"
    "got 7 = []" "el_pending l = []" by blast
  let ?k = "demo_kernel ''hello'' (\<lambda>n. if n = 0 then 0 else 1)"
  have k: "kernel_doc ?k" "k_read ?k = (int (length ''hello''), ''hello'')"
    by (auto simp: kernel_doc_def demo_kernel_def write_doc_def)
  from echo_read_round [OF echo_reach_inv [OF w(1)] w(2,4) k, where env = demo_echo_env] w(3) obtain s' l' c' where
    r: "echo_round demo_echo_env [(kReadEvent, tc_addr c, ?k)] ((s, l), got) = Inr ((s', l'), got(7 := ''hello''))"
      "ts_connections s' 7 = Some c'"
    by (auto simp: demo_kernel_def)
  have "echo_reach demo_echo_env ((s', l'), got(7 := ''hello''))"
    using w(1) _ r(1) by (rule reach_round) (simp add: k(1))
  from echo_server_echoes [OF this r(2)] r(2) this show ?thesis by fastforce
qed

text \<open>
  C34. A message that arrives for a connection is handled by that connection alone, and the round ends, except when
  nothing waits to be sent and the socket cannot take a byte: then the exception of \<open>send\<close> leaves the loop,
  and one slow client stops the server for all.
\<close>

theorem full_client_stops_server:
  assumes "echo_reach env ((s, l), got)" "ts_connections s fd = Some c" "el_pending l = []"
    and "kernel_doc k" "k_read k = (int (length msg), msg)" "msg \<noteq> []" "length (got fd @ msg) \<le> 2 ^ 62"
  shows "if content (tc_outputBuf c) = [] \<and> k_write k (length msg) = - 1
    then echo_round env [(kReadEvent, tc_addr c, k)] ((s, l), got) = Inl OutOfRange
    else \<exists>s' l'. echo_round env [(kReadEvent, tc_addr c, k)] ((s, l), got) = Inr ((s', l'), got(fd := got fd @ msg)) \<and>
      (\<exists>c'. ts_connections s' = (ts_connections s)(fd \<mapsto> c')) \<and> el_pending l' = []"
  by (rule echo_read_round [OF echo_reach_inv [OF assms(1)] assms(2-7)])

theorem full_client_stops_server_witness:
  "\<exists>s l got c. echo_reach demo_echo_env ((s, l), got) \<and> ts_connections s 7 = Some c \<and>
    echo_round demo_echo_env [(kReadEvent, tc_addr c, demo_kernel ''hello'' (\<lambda>_. - 1))] ((s, l), got) = Inl OutOfRange"
proof -
  from demo_echo obtain s l got c where w: "echo_reach demo_echo_env ((s, l), got)" "ts_connections s 7 = Some c"
    "got 7 = []" "el_pending l = []" by blast
  let ?k = "demo_kernel ''hello'' (\<lambda>_. - 1)"
  have k: "kernel_doc ?k" "k_read ?k = (int (length ''hello''), ''hello'')"
    by (auto simp: kernel_doc_def demo_kernel_def write_doc_def)
  have "length (got 7) \<le> 2 ^ 62 \<longrightarrow> echoes (got 7) c"
    using echo_reach_inv [OF w(1)] w(2) by (simp add: echo_inv_def conns_inv_def conn_inv_def)
  with w(3) have "content (tc_outputBuf c) = []" by (simp add: echoes_def)
  with full_client_stops_server [OF w(1,2,4) k] w show ?thesis by (fastforce simp: demo_kernel_def)
qed

end
