(* ===== verification/EchoReply.thy ===== *)
theory EchoReply
  imports EchoServer
begin

text \<open>
  The echo server (src/examples/echoserver/EchoServer.cc) while the kernel takes whole messages: what
  \<open>EchoServer\<close> states of a connection's two streams together is sharpened to the stream that was sent.
\<close>

section \<open>Whole writes\<close>

definition takes_all :: "kernel \<Rightarrow> bool" where
  "takes_all k \<longleftrightarrow> (\<forall>len. len \<le> 1024 \<longrightarrow> k_write k len = int len)"

definition nothing_waits :: "string \<Rightarrow> echo_fn TcpConnection \<Rightarrow> bool" where
  "nothing_waits got c \<longleftrightarrow> (length got \<le> 2 ^ 62 \<longrightarrow> readableBytes (tc_outputBuf c) = 0)"

definition prompt :: "Echo \<Rightarrow> bool" where
  "prompt w \<longleftrightarrow> (\<forall>fd c. ts_connections (fst (fst w)) fd = Some c \<longrightarrow> nothing_waits (snd w fd) c)"

lemma send_whole:
  "send msg (int (length msg)) (c, l) = Inr (c', l') \<Longrightarrow> readableBytes (tc_outputBuf c) = 0 \<Longrightarrow> length msg \<le> 1024 \<Longrightarrow>
    tc_outputBuf c' = tc_outputBuf c"
  by (auto simp: send_def accepted_def Let_def split: if_splits)

lemma handleWrite_nothing:
  "handleWrite n (c, l) = Inr (c', l') \<Longrightarrow> write_doc 0 n \<Longrightarrow> tc_outputBuf c' = tc_outputBuf c"
  by (auto simp: handleWrite_def write_doc_def accepted_def Let_def bind_r_eq_Inr split: if_splits)

lemma read_nothing_waits:
  assumes "conn_inv fd g (c, l)" "nothing_waits g c" "kernel_doc k" "takes_all k" "k_read k = (n, data)"
    and r: "handleRead (run_messageCallback k) now n data (c, l) = Inr (c', l')"
  shows "nothing_waits (g @ take (nat n) data) c'"
  unfolding nothing_waits_def
proof
  let ?msg = "take (nat n) data"
  assume len: "length (g @ ?msg) \<le> 2 ^ 62"
  have n: "wrap32 n = n" "nat n \<le> 1024" using assms(3,5) by (auto simp: kernel_doc_def)
  from assms(2) len have out: "readableBytes (tc_outputBuf c) = 0" by (simp add: nothing_waits_def)
  show "readableBytes (tc_outputBuf c') = 0"
  proof (cases "n \<le> 0")
    case True
    with r n out show ?thesis by (auto simp: handleRead_def split: if_splits)
  next
    case False
    have e: "echoes g c" using assms(1) len by (simp add: conn_inv_def)
    have mc: "tc_messageCallback c = Some Echo_onMessage" using assms(1) by (simp add: conn_inv_def conn_static_def)
    from False r n mc obtain b where b: "buffer_append ?msg (tc_inputBuf c) = Inr b"
      "echo_onMessage (k_write k) (c\<lparr>tc_inputBuf := b\<rparr>, l) = Inr (c', l')"
      by (auto simp: handleRead_def bind_r_eq_Inr invoke_def Let_def)
    have "writerIndex (tc_inputBuf c) + length ?msg \<le> vec_max" using e len by (simp add: echoes_def vec_max_def)
    from buffer_append_ok [OF _ this] e b(1) have b1: "wf_buffer b" "content b = ?msg" by (auto simp: echoes_def)
    with retrieveAllAsString_ok [OF b1(1)] b(2) obtain b2 where
      "send ?msg (k_write k (length ?msg)) (c\<lparr>tc_inputBuf := b2\<rparr>, l) = Inr (c', l')"
      by (auto simp: echo_onMessage_def)
    moreover have "length ?msg \<le> 1024" using n(2) by simp
    ultimately show ?thesis
      using send_whole [of ?msg "c\<lparr>tc_inputBuf := b2\<rparr>" l c' l'] assms(4) out by (simp add: takes_all_def)
  qed
qed

lemma write_nothing_waits:
  assumes "conn_inv fd g (c, l)" "nothing_waits g c" "kernel_doc k"
    and "handleWrite (k_write k (length (unsent (c, l)))) (c, l) = Inr (c', l')"
  shows "nothing_waits g c'"
  unfolding nothing_waits_def
proof
  assume len: "length g \<le> 2 ^ 62"
  with assms(1,2) have "wf_buffer (tc_outputBuf c)" "readableBytes (tc_outputBuf c) = 0"
    by (simp_all add: conn_inv_def echoes_def nothing_waits_def)
  then have "length (unsent (c, l)) = 0" by (simp add: unsent_def readableBytes_content)
  then have "write_doc 0 (k_write k (length (unsent (c, l))))" using assms(3) by (metis kernel_doc_def)
  from handleWrite_nothing [OF assms(4) this] assms(2) len show "readableBytes (tc_outputBuf c') = 0"
    by (simp add: nothing_waits_def)
qed

section \<open>Every round keeps it\<close>

lemma on_conn_prompt:
  assumes "echo_inv ((s, l), got)" "prompt ((s, l), got)" "on_conn fd f (s, l) = Inr (s', l')"
    and "\<And>c c' l'. conn_inv fd (got fd) (c, l) \<Longrightarrow> nothing_waits (got fd) c \<Longrightarrow> f (c, l) = Inr (c', l') \<Longrightarrow> nothing_waits g c'"
  shows "prompt ((s', l'), got(fd := g))"
proof -
  from assms(3) obtain c c' where c: "ts_connections s fd = Some c" "f (c, l) = Inr (c', l')"
    "s' = s\<lparr>ts_connections := (ts_connections s)(fd \<mapsto> c')\<rparr>"
    by (auto simp: on_conn_def bind_r_eq_Inr split: option.splits)
  from c(1) assms(1,2) have "conn_inv fd (got fd) (c, l)" "nothing_waits (got fd) c"
    by (simp_all add: echo_inv_def conns_inv_def prompt_def)
  with assms(2,4) c show ?thesis by (simp add: prompt_def)
qed

lemma newConnection_prompt:
  assumes "prompt ((s, l), got)" "run_newConnectionCallback env cb sockfd ((s, l), got) = Inr w'"
  shows "prompt w'"
proof -
  from new_buffer_ok [of kInitialSize] obtain b where
    b: "new_buffer kInitialSize = Inr b" "wf_buffer b" "content b = []"
    by (auto simp: kInitialSize_def vec_max_def)
  then have "readableBytes b = 0" by (simp add: readableBytes_content)
  with assms b(1) show ?thesis
    by (cases cb) (auto simp: bind_r_eq_Inr newConnection_def TcpConnection_new_def Let_def setConnectionCallback_def
        setMessageCallback_def prompt_def nothing_waits_def split: option.splits if_splits)
qed

lemma echo_handler_prompt:
  assumes inv: "echo_inv w" "prompt w" and k: "kernel_doc k" "takes_all k" and r: "echo_handler env k h w = Inr w'"
  shows "prompt w'"
proof -
  obtain s l got where w: "w = ((s, l), got)" by (metis prod.exhaust)
  show ?thesis
  proof (cases h)
    case Wakeup_handleRead
    with r w inv show ?thesis by (auto simp: prompt_def)
  next
    case TimerQueue_handleRead_cb
    with r inv show ?thesis by simp
  next
    case (Client f)
    show ?thesis
    proof (cases f)
      case Bound_Acceptor_handleRead
      with r Client w inv show ?thesis
        by (auto simp: Acceptor_handleRead_def cassert_eq_Inr invoke_def split: option.splits
            intro: newConnection_prompt)
    next
      case (Bound_conn_handleRead fd)
      obtain n data where nd: "k_read k = (n, data)" by (cases "k_read k")
      with r Client Bound_conn_handleRead w obtain s' l' where
        o: "on_conn fd (handleRead (run_messageCallback k) (ee_now env) n data) (s, l) = Inr (s', l')"
          "w' = ((s', l'), got(fd := got fd @ take (nat n) data))"
        by (auto simp: bind_r_eq_Inr)
      from on_conn_prompt [OF _ _ o(1), of got "got fd @ take (nat n) data"] read_nothing_waits [OF _ _ k nd] inv w o(2)
      show ?thesis by auto
    next
      case (Bound_conn_handleWrite fd)
      with r Client w obtain s' l' where
        o: "on_conn fd (\<lambda>c. handleWrite (k_write k (length (unsent c))) c) (s, l) = Inr (s', l')" "w' = ((s', l'), got)"
        by (auto simp: bind_r_eq_Inr)
      from on_conn_prompt [OF _ _ o(1), of got "got fd"] write_nothing_waits [OF _ _ k(1)] inv w o(2)
      show ?thesis by auto
    qed (use r Client in auto)
  qed
qed

lemma run_bound_prompt:
  assumes inv: "echo_inv w" "prompt w" and r: "run_bound f w = Inr w'"
  shows "prompt w'"
proof -
  obtain s l got where w: "w = ((s, l), got)" by (metis prod.exhaust)
  from r w obtain fd where f: "f = Bound_connectEstablished fd" by (cases f) auto
  with r w obtain s' l' where
    e: "server_connectEstablished run_connectionCallback fd (s, l) = Inr (s', l')" "w' = ((s', l'), got)"
    by (auto simp: bind_r_eq_Inr)
  have "on_conn fd (connectEstablished run_connectionCallback) (s, l) = Inr (s', l')"
    using e(1) by (simp add: on_conn_def server_connectEstablished_def)
  moreover have "nothing_waits (got fd) c'"
    if "conn_inv fd (got fd) (c, l)" "nothing_waits (got fd) c"
      "connectEstablished run_connectionCallback (c, l) = Inr (c', l1)" for c c' l1
    using established_keeps [OF that(3)] that(1,2) by (simp add: conn_inv_def conn_static_def)
  ultimately have "prompt ((s', l'), got(fd := got fd))" using inv w by (intro on_conn_prompt) auto
  with e(2) show ?thesis by simp
qed

lemma echo_events_prompt:
  "echo_events env chans w = Inr w' \<Longrightarrow> list_all kernel_doc (map snd chans) \<Longrightarrow> list_all takes_all (map snd chans) \<Longrightarrow>
    echo_inv w \<Longrightarrow> prompt w \<Longrightarrow> echo_inv w' \<and> prompt w'"
proof (induction chans arbitrary: w)
  case (Cons x chans)
  obtain a k where x: "x = (a, k)" by (cases x)
  from Cons.prems(1) x obtain w1 where
    w1: "handleEvent (echo_handler env k) (\<lambda>w. the (el_channels (snd (fst w)) a)) w = Inr w1"
      "echo_events env chans w1 = Inr w'"
    by (auto simp: bind_r_eq_Inr split: option.splits)
  have k: "kernel_doc k" "takes_all k" using Cons.prems(2,3) x by simp_all
  have "echo_inv w1 \<and> prompt w1"
  proof (rule handleEvent_inv [where P = "\<lambda>w. echo_inv w \<and> prompt w", OF _ w1(1)])
    show "echo_inv w \<and> prompt w" using Cons.prems(4,5) by simp
  qed (use echo_handler_inv echo_handler_prompt k in blast)
  with Cons.IH [OF w1(2)] Cons.prems(2,3) show ?case by simp
qed simp

lemma echo_functors_prompt:
  "echo_functors fs w = Inr w' \<Longrightarrow> echo_inv w \<Longrightarrow> prompt w \<Longrightarrow> prompt w'"
proof (induction fs arbitrary: w)
  case (Cons f fs)
  from Cons.prems(1) obtain w1 where w1: "echo_functor f w = Inr w1" "echo_functors fs w1 = Inr w'"
    by (auto simp: bind_r_eq_Inr)
  have "echo_inv w1 \<and> prompt w1"
    using w1(1) run_bound_inv [OF Cons.prems(2), where w' = w1] run_bound_prompt [OF Cons.prems(2,3), where w' = w1]
    by (cases f) (auto simp: invoke_Inr)
  with Cons.IH [OF w1(2)] show ?case by simp
qed simp

lemma echo_round_prompt:
  assumes "echo_round env ready w = Inr w'" "list_all (kernel_doc \<circ> snd \<circ> snd) ready"
    and "list_all (takes_all \<circ> snd \<circ> snd) ready" "echo_inv w" "prompt w"
  shows "prompt w'"
proof -
  obtain s l got where w: "w = ((s, l), got)" by (metis prod.exhaust)
  from assms(1) w obtain store chans s1 l1 got1 where
    p: "Epoller_poll (map (\<lambda>(ev, addr, k). (ev, addr)) ready) (el_channels l) [] = Inr (store, chans)"
    and e: "echo_events env (zip chans (map (snd \<circ> snd) ready)) ((s, l\<lparr>el_channels := store\<rparr>), got) = Inr ((s1, l1), got1)"
    and f: "echo_functors (el_pending l1) ((s1, l1\<lparr>el_pending := []\<rparr>), got1) = Inr w'"
    by (auto simp: echo_round_def bind_r_eq_Inr)
  have "echo_inv ((s, l\<lparr>el_channels := store\<rparr>), got)" "prompt ((s, l\<lparr>el_channels := store\<rparr>), got)"
    using assms(4,5) w poll_bindings [OF p] conns_inv_kept [of s l got "l\<lparr>el_channels := store\<rparr>"]
    by (simp_all add: echo_inv_def prompt_def)
  moreover have "list_all kernel_doc (map snd (zip chans (map (snd \<circ> snd) ready)))"
    "list_all takes_all (map snd (zip chans (map (snd \<circ> snd) ready)))"
    using assms(2,3) by (fastforce simp: list_all_iff dest: set_zip_rightD)+
  ultimately have "echo_inv ((s1, l1), got1)" "prompt ((s1, l1), got1)" using echo_events_prompt [OF e] by blast+
  then have "echo_inv ((s1, l1\<lparr>el_pending := []\<rparr>), got1)" "prompt ((s1, l1\<lparr>el_pending := []\<rparr>), got1)"
    using conns_inv_kept [of s1 l1 got1 "l1\<lparr>el_pending := []\<rparr>"] by (simp_all add: echo_inv_def bindings prompt_def)
  with echo_functors_prompt [OF f] show ?thesis .
qed

inductive prompt_reach :: "echo_env \<Rightarrow> Echo \<Rightarrow> bool" for env where
  prompt_start: "EchoServer_new sys addr l0 = Inr s \<Longrightarrow> EchoServer_start s = Inr s' \<Longrightarrow> prompt_reach env (s', \<lambda>_. [])"
| prompt_round: "prompt_reach env w \<Longrightarrow> list_all (kernel_doc \<circ> snd \<circ> snd) ready \<Longrightarrow>
    list_all (takes_all \<circ> snd \<circ> snd) ready \<Longrightarrow> echo_round env ready w = Inr w' \<Longrightarrow> prompt_reach env w'"

lemma prompt_reach_inv: "prompt_reach env w \<Longrightarrow> echo_reach env w \<and> prompt w"
proof (induction rule: prompt_reach.induct)
  case (prompt_start sys addr l0 s s')
  then have "prompt (s', \<lambda>_. [])"
    by (auto simp: EchoServer_new_def TcpServer_new_def bind_r_eq_Inr server_setConnectionCallback_def
        server_setMessageCallback_def EchoServer_start_def start_def prompt_def)
  with prompt_start show ?case by (blast intro: reach_start)
next
  case (prompt_round w ready w')
  then show ?case
    using echo_round_prompt [OF prompt_round.hyps(4,2,3)] echo_reach_inv by (blast intro: reach_round)
qed

section \<open>Properties\<close>

text \<open>
  C4. As long as the kernel takes every message whole, every client has been sent, after each round, exactly the
  bytes it sent, in order, whatever else the rounds held: new clients, descriptors used again, failed reads.
\<close>

theorem clients_are_answered:
  assumes "prompt_reach env ((s, l), got)" "ts_connections s fd = Some c" "length (got fd) \<le> 2 ^ 62"
  shows "tc_written c = got fd"
proof -
  from prompt_reach_inv [OF assms(1)] have "echo_inv ((s, l), got)" "prompt ((s, l), got)"
    using echo_reach_inv by blast+
  with assms(2,3) have "echoes (got fd) c" "readableBytes (tc_outputBuf c) = 0"
    by (simp_all add: echo_inv_def conns_inv_def conn_inv_def prompt_def nothing_waits_def)
  then show ?thesis by (auto simp: echoes_def readableBytes_content)
qed

theorem clients_are_answered_witness:
  "\<exists>s l got c. prompt_reach demo_echo_env ((s, l), got) \<and> got 7 = ''hello'' \<and> ts_connections s 7 = Some c \<and>
    tc_written c = ''hello''"
proof -
  let ?w = "\<lambda>n. if n \<le> 1024 then int n else 0"
  have doc: "kernel_doc (demo_kernel msg ?w)" "takes_all (demo_kernel msg ?w)" if "length msg \<le> 1024" for msg
    using that by (simp_all add: kernel_doc_def demo_kernel_def write_doc_def takes_all_def)
  from demo_accept [of ?w] obtain s0 s1 s l c where
    s: "EchoServer_new \<lparr>socket_ret = 6, bind_ret = \<lambda>_ _. 0, listen_ret = 0\<rparr> 300
      \<lparr>el_quit = False, el_channels = Map.empty, el_requests = [], el_wakeups = 0, el_pending = [], el_ran = []\<rparr> = Inr s0"
      "EchoServer_start s0 = Inr s1"
      "echo_round demo_echo_env [(kReadEvent, 300, demo_kernel [] ?w)] (s1, \<lambda>_. []) = Inr ((s, l), (\<lambda>_. [])(7 := []))"
      "ts_connections s 7 = Some c" "el_pending l = []" by blast
  from prompt_round [OF prompt_start [OF s(1,2)] _ _ s(3)] doc [of "[]"]
  have p: "prompt_reach demo_echo_env ((s, l), (\<lambda>_. [])(7 := []))" by simp
  then have inv: "echo_inv ((s, l), (\<lambda>_. [])(7 := []))" using prompt_reach_inv echo_reach_inv by blast
  let ?k = "demo_kernel ''hello'' ?w"
  have k: "kernel_doc ?k" "takes_all ?k" "k_read ?k = (int (length ''hello''), ''hello'')"
    using doc [of "''hello''"] by (simp_all add: demo_kernel_def)
  from echo_read_round [OF inv s(4,5) k(1,3), where env = demo_echo_env] obtain s' l' c' where
    r: "echo_round demo_echo_env [(kReadEvent, tc_addr c, ?k)] ((s, l), (\<lambda>_. [])(7 := [])) =
        Inr ((s', l'), (\<lambda>_. [])(7 := ''hello''))"
      "ts_connections s' 7 = Some c'"
    by (auto simp: demo_kernel_def)
  have "prompt_reach demo_echo_env ((s', l'), (\<lambda>_. [])(7 := ''hello''))"
    using p _ _ r(1) by (rule prompt_round) (simp_all add: k)
  from clients_are_answered [OF this r(2)] r(2) this show ?thesis by fastforce
qed

end
