(* ===== verification/Lifetime.thy ===== *)
theory Lifetime
  imports EchoReply
begin

text \<open>
  The lifetime of channels and descriptors in the echo server. \<open>epoll\<close> keeps raw pointers to channels
  (\<open>Epoller::update\<close>, src/net/Epoller.cc), which are members of connections that the server destroys when a
  descriptor is used again, and a connection closes its own descriptor (\<open>TcpConnection::handleRead\<close>). A round
  in which the use of a destroyed channel or of a closed descriptor is a fault is the same as the round.
\<close>

unbundle bit_operations_syntax

section \<open>What the kernel watches\<close>

text \<open>
  The kernel's set: the events and the pointer registered for a descriptor. The manual: \<open>EPOLL_CTL_ADD\<close> of a
  registered descriptor fails, and closing a descriptor removes it from the set.
\<close>

type_synonym epoll_set = "int \<Rightarrow> (32 word \<times> nat) option"

definition epoll_set_doc :: "(ctl \<Rightarrow> epoll_set \<Rightarrow> epoll_set) \<Rightarrow> bool" where
  "epoll_set_doc epoll_ctl \<longleftrightarrow>
     (\<forall>r I. ctl_op r = EPOLL_CTL_ADD \<longrightarrow>
        epoll_ctl r I = (if I (ctl_fd r) = None then I(ctl_fd r \<mapsto> (ctl_events r, ctl_ptr r)) else I))"

definition closed_fd :: "echo_fn TcpServer \<Rightarrow> int \<Rightarrow> bool" where
  "closed_fd s fd \<longleftrightarrow> (\<exists>c. ts_connections s fd = Some c \<and> tc_closed c)"

definition open_conn :: "echo_fn TcpServer \<Rightarrow> int \<Rightarrow> bool" where
  "open_conn s fd \<longleftrightarrow> (\<exists>c. ts_connections s fd = Some c \<and> \<not> tc_closed c)"

definition watch :: "(ctl \<Rightarrow> epoll_set \<Rightarrow> epoll_set) \<Rightarrow> Echo \<Rightarrow> Echo \<Rightarrow> epoll_set \<Rightarrow> epoll_set" where
  "watch epoll_ctl w w' I =
     (let requests = drop (length (el_requests (snd (fst w)))) (el_requests (snd (fst w')));
          I = fold epoll_ctl requests I
      in (\<lambda>fd. if closed_fd (fst (fst w')) fd then None else I fd))"

section \<open>Rounds with the kernel's set\<close>

definition dispatch :: "echo_env \<Rightarrow> nat \<Rightarrow> kernel \<Rightarrow> Echo \<Rightarrow> Echo res" where
  "dispatch env a k w =
     (case el_channels (snd (fst w)) a of
        None \<Rightarrow> Inl Undefined
      | Some _ \<Rightarrow> handleEvent (echo_handler env k) (\<lambda>w. the (el_channels (snd (fst w)) a)) w)"

fun track_events ::
  "(ctl \<Rightarrow> epoll_set \<Rightarrow> epoll_set) \<Rightarrow> echo_env \<Rightarrow> (nat \<times> kernel) list \<Rightarrow> Echo \<Rightarrow> epoll_set \<Rightarrow> (Echo \<times> epoll_set) res" where
  "track_events ctl env [] w I = Inr (w, I)"
| "track_events ctl env ((a, k) # cs) w I =
     bind_r (dispatch env a k w) (\<lambda>w'. track_events ctl env cs w' (watch ctl w w' I))"

fun track_functors ::
  "(ctl \<Rightarrow> epoll_set \<Rightarrow> epoll_set) \<Rightarrow> echo_fn Functor list \<Rightarrow> Echo \<Rightarrow> epoll_set \<Rightarrow> (Echo \<times> epoll_set) res" where
  "track_functors ctl [] w I = Inr (w, I)"
| "track_functors ctl (f # fs) w I =
     bind_r (echo_functor f w) (\<lambda>w'. track_functors ctl fs w' (watch ctl w w' I))"

definition track_round ::
  "(ctl \<Rightarrow> epoll_set \<Rightarrow> epoll_set) \<Rightarrow> echo_env \<Rightarrow> (32 word \<times> nat \<times> kernel) list \<Rightarrow> Echo \<Rightarrow> epoll_set \<Rightarrow>
    (Echo \<times> epoll_set) res" where
  "track_round ctl env ready = (\<lambda>((s, l), got) I.
     bind_r (Epoller_poll (map (\<lambda>(ev, addr, k). (ev, addr)) ready) (el_channels l) []) (\<lambda>(store, channels).
     bind_r (track_events ctl env (zip channels (map (snd \<circ> snd) ready)) ((s, l\<lparr>el_channels := store\<rparr>), got) I)
       (\<lambda>(((s, l), got), I). track_functors ctl (el_pending l) ((s, l\<lparr>el_pending := []\<rparr>), got) I)))"

lemma track_events_echo:
  "map_sum id fst (track_events ctl env cs w I) = echo_events env cs w"
  by (induction cs arbitrary: w I)
    (auto simp: dispatch_def bind_r_def split: sum.splits option.splits)

lemma track_functors_echo:
  "map_sum id fst (track_functors ctl fs w I) = echo_functors fs w"
  by (induction fs arbitrary: w I) (auto simp: bind_r_def split: sum.splits)

lemma track_round_echo:
  "map_sum id fst (track_round ctl env ready w I) = echo_round env ready w"
proof -
  obtain s l got where w: "w = ((s, l), got)" by (metis prod.exhaust)
  show ?thesis
    unfolding w track_round_def echo_round_def
    by (auto simp: bind_r_def simp flip: track_events_echo [of ctl env _ _ I] track_functors_echo [of ctl]
        split: sum.splits prod.splits)
      (simp add: track_functors_echo)
qed

section \<open>Rounds that check lifetimes\<close>

definition safe_handler :: "echo_env \<Rightarrow> kernel \<Rightarrow> echo_fn handler \<Rightarrow> Echo \<Rightarrow> Echo res" where
  "safe_handler env k h w =
     (case h of
        Client (Bound_conn_handleRead fd) \<Rightarrow> if open_conn (fst (fst w)) fd then echo_handler env k h w else Inl Undefined
      | Client (Bound_conn_handleWrite fd) \<Rightarrow> if open_conn (fst (fst w)) fd then echo_handler env k h w else Inl Undefined
      | _ \<Rightarrow> echo_handler env k h w)"

definition live :: "echo_env \<Rightarrow> echo_fn TcpServer \<Rightarrow> nat \<Rightarrow> bool" where
  "live env s a \<longleftrightarrow> a \<in> ee_base env \<or> (\<exists>fd c. ts_connections s fd = Some c \<and> tc_addr c = a \<and> \<not> tc_closed c)"

fun safe_events :: "echo_env \<Rightarrow> (nat \<times> kernel) list \<Rightarrow> Echo \<Rightarrow> Echo res" where
  "safe_events env [] w = Inr w"
| "safe_events env ((a, k) # cs) w =
     (if \<not> live env (fst (fst w)) a then Inl Undefined else
      case el_channels (snd (fst w)) a of
        None \<Rightarrow> Inl Undefined
      | Some _ \<Rightarrow>
          bind_r (handleEvent (safe_handler env k) (\<lambda>w. the (el_channels (snd (fst w)) a)) w) (safe_events env cs))"

definition safe_functor :: "echo_fn Functor \<Rightarrow> Echo \<Rightarrow> Echo res" where
  "safe_functor f w =
     (case f of
        Call (Some (Bound_connectEstablished fd)) \<Rightarrow>
          if open_conn (fst (fst w)) fd then echo_functor f w else Inl Undefined
      | _ \<Rightarrow> echo_functor f w)"

fun safe_functors :: "echo_fn Functor list \<Rightarrow> Echo \<Rightarrow> Echo res" where
  "safe_functors [] w = Inr w"
| "safe_functors (f # fs) w = bind_r (safe_functor f w) (safe_functors fs)"

definition safe_round :: "echo_env \<Rightarrow> (32 word \<times> nat \<times> kernel) list \<Rightarrow> Echo \<Rightarrow> Echo res" where
  "safe_round env ready = (\<lambda>((s, l), got).
     bind_r (Epoller_poll (map (\<lambda>(ev, addr, k). (ev, addr)) ready) (el_channels l) []) (\<lambda>(store, channels).
     bind_r (safe_events env (zip channels (map (snd \<circ> snd) ready)) ((s, l\<lparr>el_channels := store\<rparr>), got))
       (\<lambda>((s, l), got). safe_functors (el_pending l) ((s, l\<lparr>el_pending := []\<rparr>), got))))"

section \<open>What the kernel may answer\<close>

text \<open>
  \<open>epoll_wait\<close> reports descriptors of the set, each once, and readiness to write only where that is
  registered (hang-ups and errors always). \<open>accept\<close> returns no descriptor that is open.
\<close>

definition poll_doc :: "epoll_set \<Rightarrow> (32 word \<times> nat \<times> kernel) list \<Rightarrow> bool" where
  "poll_doc I ready \<longleftrightarrow>
     distinct (map (fst \<circ> snd) ready) \<and>
     list_all (\<lambda>(ev, a, k). \<exists>fd m. I fd = Some (m, a) \<and> (m AND kWriteEvent = 0 \<longrightarrow> ev AND kWriteEvent = 0)) ready"

fun answers_doc ::
  "(ctl \<Rightarrow> epoll_set \<Rightarrow> epoll_set) \<Rightarrow> echo_env \<Rightarrow> (nat \<times> kernel) list \<Rightarrow> Echo \<Rightarrow> epoll_set \<Rightarrow> bool" where
  "answers_doc ctl env [] w I \<longleftrightarrow> True"
| "answers_doc ctl env ((a, k) # cs) w I \<longleftrightarrow>
     kernel_doc k \<and> I (k_accept k) = None \<and> \<not> open_conn (fst (fst w)) (k_accept k) \<and>
     (case dispatch env a k w of Inl e \<Rightarrow> True | Inr w' \<Rightarrow> answers_doc ctl env cs w' (watch ctl w w' I))"

definition round_doc ::
  "(ctl \<Rightarrow> epoll_set \<Rightarrow> epoll_set) \<Rightarrow> echo_env \<Rightarrow> (32 word \<times> nat \<times> kernel) list \<Rightarrow> Echo \<Rightarrow> epoll_set \<Rightarrow> bool" where
  "round_doc ctl env ready = (\<lambda>((s, l), got) I.
     poll_doc I ready \<and>
     (case Epoller_poll (map (\<lambda>(ev, addr, k). (ev, addr)) ready) (el_channels l) [] of
        Inl e \<Rightarrow> True
      | Inr (store, channels) \<Rightarrow>
          answers_doc ctl env (zip channels (map (snd \<circ> snd) ready)) ((s, l\<lparr>el_channels := store\<rparr>), got) I))"

text \<open>A server on a loop of its own, from the construction of both.\<close>

inductive watched_reach :: "(ctl \<Rightarrow> epoll_set \<Rightarrow> epoll_set) \<Rightarrow> echo_env \<Rightarrow> Echo \<Rightarrow> epoll_set \<Rightarrow> bool" for ctl env where
  watched_start: "EventLoop_new epfd fd timerfd addr1 addr2 = Inr (q, l0) \<Longrightarrow> EchoServer_new sys addr3 l0 = Inr s0 \<Longrightarrow>
    EchoServer_start s0 = Inr s \<Longrightarrow> {addr1, addr2, addr3} \<subseteq> ee_base env \<Longrightarrow>
    watched_reach ctl env (s, \<lambda>_. []) (fold ctl (el_requests (snd s)) (\<lambda>_. None))"
| watched_round: "watched_reach ctl env w I \<Longrightarrow> round_doc ctl env ready w I \<Longrightarrow>
    track_round ctl env ready w I = Inr (w', I') \<Longrightarrow> watched_reach ctl env w' I'"

section \<open>The invariant\<close>

definition base_channel :: "echo_fn handler Channel \<Rightarrow> bool" where
  "base_channel ch \<longleftrightarrow> ch_writeCallback ch = None \<and>
     ch_readCallback ch \<in> {Some Wakeup_handleRead, Some TimerQueue_handleRead_cb,
       Some (Client Bound_Acceptor_handleRead)}"

text \<open>Who owns a registered pointer: an object beside the connections, or the open connection of the descriptor.\<close>

definition owned :: "echo_env \<Rightarrow> echo_fn TcpServer \<Rightarrow> epoll_set \<Rightarrow> bool" where
  "owned env s I \<longleftrightarrow>
     (\<forall>fd m p. I fd = Some (m, p) \<longrightarrow> m AND kWriteEvent = 0 \<and>
        (p \<in> ee_base env \<and> ts_connections s fd = None \<or>
         (\<exists>c. ts_connections s fd = Some c \<and> tc_addr c = p \<and> \<not> tc_closed c)))"

text \<open>An open connection that is not registered has not asked for anything yet.\<close>

definition unasked :: "echo_fn Server \<Rightarrow> epoll_set \<Rightarrow> bool" where
  "unasked sl I \<longleftrightarrow>
     (\<forall>fd c ch. ts_connections (fst sl) fd = Some c \<longrightarrow> \<not> tc_closed c \<longrightarrow> I fd = None \<longrightarrow>
        el_channels (snd sl) (tc_addr c) = Some ch \<longrightarrow> ch_events ch = 0)"

definition apart :: "echo_env \<Rightarrow> echo_fn TcpServer \<Rightarrow> bool" where
  "apart env s \<longleftrightarrow>
     (\<forall>fd c. ts_connections s fd = Some c \<longrightarrow> tc_addr c \<notin> ee_base env) \<and>
     (\<forall>fd fd' c c'. ts_connections s fd = Some c \<longrightarrow> ts_connections s fd' = Some c' \<longrightarrow>
        tc_addr c = tc_addr c' \<longrightarrow> fd = fd')"

definition base_ok :: "echo_env \<Rightarrow> echo_fn EventLoop \<Rightarrow> bool" where
  "base_ok env l \<longleftrightarrow> (\<forall>a\<in>ee_base env. \<forall>ch. el_channels l a = Some ch \<longrightarrow> base_channel ch)"

definition base_mapped :: "echo_env \<Rightarrow> echo_fn EventLoop \<Rightarrow> epoll_set \<Rightarrow> bool" where
  "base_mapped env l I \<longleftrightarrow> (\<forall>fd m p. I fd = Some (m, p) \<longrightarrow> p \<in> ee_base env \<longrightarrow> el_channels l p \<noteq> None)"

definition watch_inv :: "echo_env \<Rightarrow> Echo \<Rightarrow> epoll_set \<Rightarrow> bool" where
  "watch_inv env w I \<longleftrightarrow>
     echo_inv w \<and> owned env (fst (fst w)) I \<and> unasked (fst w) I \<and> apart env (fst (fst w)) \<and>
     base_ok env (snd (fst w)) \<and> base_mapped env (snd (fst w)) I \<and>
     ac_newConnectionCallback (ts_acceptor (fst (fst w))) = Some Bound_newConnection"

text \<open>The functors that wait are those of open connections not registered yet.\<close>

definition waiting_functors :: "echo_fn TcpServer \<Rightarrow> epoll_set \<Rightarrow> int list \<Rightarrow> bool" where
  "waiting_functors s I fds \<longleftrightarrow> distinct fds \<and> (\<forall>fd\<in>set fds. I fd = None \<and> open_conn s fd)"

definition established_functors :: "int list \<Rightarrow> echo_fn Functor list" where
  "established_functors fds = map (\<lambda>fd. Call (Some (Bound_connectEstablished fd))) fds"

lemma established_functors_simps [simp]:
  "established_functors [] = []"
  "established_functors (fd # fds) = Call (Some (Bound_connectEstablished fd)) # established_functors fds"
  "established_functors (fds @ fds') = established_functors fds @ established_functors fds'"
  by (simp_all add: established_functors_def)

section \<open>What the kernel's set becomes\<close>

lemma epoll_addD:
  "epoll_set_doc ctl \<Longrightarrow> ctl_op r = EPOLL_CTL_ADD \<Longrightarrow>
    ctl r I = (if I (ctl_fd r) = None then I(ctl_fd r \<mapsto> (ctl_events r, ctl_ptr r)) else I)"
  unfolding epoll_set_doc_def by blast

lemma fold_add_known:
  assumes "epoll_set_doc ctl" "\<And>r. r \<in> set rs \<Longrightarrow> ctl_op r = EPOLL_CTL_ADD \<and> I (ctl_fd r) \<noteq> None"
  shows "fold ctl rs I = I"
  using assms(2)
proof (induction rs)
  case (Cons r rs)
  then have "ctl_op r = EPOLL_CTL_ADD" "I (ctl_fd r) \<noteq> None" by simp_all
  then have "ctl r I = I" by (simp only: epoll_addD [OF assms(1)] if_False)
  with Cons show ?case by simp
qed simp

lemma ownedD:
  "owned env s I \<Longrightarrow> I fd = Some (m, p) \<Longrightarrow> m AND kWriteEvent = 0 \<and>
    (p \<in> ee_base env \<and> ts_connections s fd = None \<or>
     (\<exists>c. ts_connections s fd = Some c \<and> tc_addr c = p \<and> \<not> tc_closed c))"
  unfolding owned_def by blast

lemma owned_conn:
  "owned env s I \<Longrightarrow> ts_connections s fd = Some c \<Longrightarrow> I fd = Some (m, p) \<Longrightarrow> tc_addr c = p \<and> \<not> tc_closed c"
  by (drule (1) ownedD) simp

lemma owned_closed: "owned env s I \<Longrightarrow> closed_fd s fd \<Longrightarrow> I fd = None"
  by (cases "I fd") (auto simp: closed_fd_def dest: owned_conn)

lemma watch_eq:
  assumes "el_requests l' = el_requests l @ rs"
  shows "watch ctl ((s, l), got) ((s', l'), got') I = (\<lambda>fd. if closed_fd s' fd then None else fold ctl rs I fd)"
  by (simp add: watch_def assms)

section \<open>Three kinds of step\<close>

text \<open>An event on the connection of \<open>fd\<close>.\<close>

definition touches :: "int \<Rightarrow> echo_fn TcpConnection \<Rightarrow> echo_fn TcpConnection \<Rightarrow> echo_fn Server \<Rightarrow> echo_fn Server \<Rightarrow> bool" where
  "touches fd c c' = (\<lambda>(s, l) (s', l').
     s' = s\<lparr>ts_connections := (ts_connections s)(fd \<mapsto> c')\<rparr> \<and> tc_addr c' = tc_addr c \<and> el_pending l' = el_pending l \<and>
     (\<exists>rs. el_requests l' = el_requests l @ rs \<and> list_all (\<lambda>r. ctl_op r = EPOLL_CTL_ADD \<and> ctl_fd r = fd) rs) \<and>
     (\<forall>a. a \<noteq> tc_addr c \<longrightarrow> el_channels l' a = el_channels l a) \<and>
     (\<forall>a. map_option ch_revents (el_channels l' a) = map_option ch_revents (el_channels l a)))"

text \<open>A new connection on \<open>fd\<close>.\<close>

definition accepts :: "echo_env \<Rightarrow> int \<Rightarrow> echo_fn TcpConnection \<Rightarrow> echo_fn Server \<Rightarrow> echo_fn Server \<Rightarrow> bool" where
  "accepts env fd c = (\<lambda>(s, l) (s', l').
     s' = s\<lparr>ts_connections := (ts_connections s)(fd \<mapsto> c)\<rparr> \<and> \<not> tc_closed c \<and> tc_addr c \<notin> live_objects env s \<and>
     el_requests l' = el_requests l \<and> el_pending l' = el_pending l @ [Call (Some (Bound_connectEstablished fd))] \<and>
     (\<exists>ch. el_channels l' = (el_channels l)(tc_addr c \<mapsto> ch) \<and> ch_events ch = 0))"

lemma touches_watch:
  assumes doc: "epoll_set_doc ctl" and inv: "owned env s I" and c: "ts_connections s fd = Some c" "I fd \<noteq> None"
    and t: "touches fd c c' (s, l) (s', l')"
  shows "watch ctl ((s, l), got) ((s', l'), got') I = (if tc_closed c' then I(fd := None) else I)"
proof -
  from t obtain rs where rs: "el_requests l' = el_requests l @ rs"
    "list_all (\<lambda>r. ctl_op r = EPOLL_CTL_ADD \<and> ctl_fd r = fd) rs" and s': "s' = s\<lparr>ts_connections := (ts_connections s)(fd \<mapsto> c')\<rparr>"
    by (auto simp: touches_def)
  have "fold ctl rs I = I" by (rule fold_add_known [OF doc]) (use rs(2) c(2) in \<open>auto simp: list_all_iff\<close>)
  moreover have "closed_fd s' x = (if x = fd then tc_closed c' else closed_fd s x)" for x
    by (simp add: closed_fd_def s')
  ultimately show ?thesis
    using owned_closed [OF inv] unfolding watch_eq [OF rs(1)] by (auto simp: fun_eq_iff)
qed

lemma touches_inv:
  assumes doc: "epoll_set_doc ctl" and inv: "watch_inv env ((s, l), got) I" and c: "ts_connections s fd = Some c" "I fd \<noteq> None"
    and t: "touches fd c c' (s, l) (s', l')" and e: "echo_inv ((s', l'), got')"
  shows "watch_inv env ((s', l'), got') (if tc_closed c' then I(fd := None) else I)"
proof -
  from t have s': "s' = s\<lparr>ts_connections := (ts_connections s)(fd \<mapsto> c')\<rparr>" and a: "tc_addr c' = tc_addr c"
    and ch: "\<And>a. a \<noteq> tc_addr c \<Longrightarrow> el_channels l' a = el_channels l a"
    by (auto simp: touches_def)
  from inv have i: "owned env s I" "unasked (s, l) I" "apart env s" "base_ok env l"
    "base_mapped env l I" "ac_newConnectionCallback (ts_acceptor s) = Some Bound_newConnection"
    by (simp_all add: watch_inv_def)
  let ?I = "if tc_closed c' then I(fd := None) else I"
  have "owned env s' ?I"
    using i(1) c owned_conn [OF i(1) c(1)] unfolding owned_def s' by (auto simp: a split: if_splits)
  moreover have "apart env s'" using i(3) c(1) unfolding apart_def s' by (auto simp: a split: if_splits)
  moreover have "base_ok env l'"
  proof -
    have "tc_addr c \<notin> ee_base env" using i(3) c(1) by (auto simp: apart_def)
    with i(4) ch show ?thesis by (metis base_ok_def)
  qed
  moreover have "unasked (s', l') ?I"
    unfolding unasked_def fst_conv snd_conv
  proof (intro allI impI)
    fix x cx chx
    assume x: "ts_connections s' x = Some cx" "\<not> tc_closed cx" "?I x = None" "el_channels l' (tc_addr cx) = Some chx"
    then have "x \<noteq> fd" using c(2) s' by (auto split: if_splits)
    moreover from this x s' have "ts_connections s x = Some cx" "I x = None" by (auto split: if_splits)
    moreover from calculation i(3) c(1) have "tc_addr cx \<noteq> tc_addr c" by (metis apart_def)
    ultimately show "ch_events chx = 0" using i(2) x(2,4) ch by (auto simp: unasked_def)
  qed
  moreover have "base_mapped env l' ?I"
  proof -
    have "tc_addr c \<notin> ee_base env" using i(3) c(1) by (auto simp: apart_def)
    then have "el_channels l' p = el_channels l p" if "p \<in> ee_base env" for p
      using that by (intro ch) auto
    with i(5) show ?thesis by (auto simp: base_mapped_def split: if_splits)
  qed
  ultimately show ?thesis using e i(6) s' by (simp add: watch_inv_def)
qed

lemma accepts_watch:
  assumes inv: "owned env s I" and t: "accepts env fd c (s, l) (s', l')" and "I fd = None"
  shows "watch ctl ((s, l), got) ((s', l'), got') I = I"
proof -
  from t have rs: "el_requests l' = el_requests l @ []" and s': "s' = s\<lparr>ts_connections := (ts_connections s)(fd \<mapsto> c)\<rparr>"
    by (auto simp: accepts_def)
  show ?thesis
    using owned_closed [OF inv] assms(3) unfolding watch_eq [OF rs] by (auto simp: fun_eq_iff s' closed_fd_def)
qed

lemma accepts_inv:
  assumes inv: "watch_inv env ((s, l), got) I" and t: "accepts env fd c (s, l) (s', l')"
    and fd: "I fd = None" and e: "echo_inv ((s', l'), got')"
  shows "watch_inv env ((s', l'), got') I"
proof -
  from t obtain ch where s': "s' = s\<lparr>ts_connections := (ts_connections s)(fd \<mapsto> c)\<rparr>" and c: "\<not> tc_closed c"
    "tc_addr c \<notin> live_objects env s" and ch: "el_channels l' = (el_channels l)(tc_addr c \<mapsto> ch)" "ch_events ch = 0"
    by (auto simp: accepts_def)
  from inv have i: "owned env s I" "unasked (s, l) I" "apart env s" "base_ok env l"
    "base_mapped env l I" "ac_newConnectionCallback (ts_acceptor s) = Some Bound_newConnection"
    by (simp_all add: watch_inv_def)
  have new: "tc_addr c \<notin> ee_base env" "\<And>x cx. ts_connections s x = Some cx \<Longrightarrow> tc_addr cx \<noteq> tc_addr c"
    using c(2) by (auto simp: live_objects_def)
  have "owned env s' I" using i(1) fd unfolding owned_def s' by (auto split: if_splits)
  moreover have "apart env s'" using i(3) new new(2) [THEN not_sym] unfolding apart_def s' by (auto split: if_splits)
  moreover have "base_ok env l'" using i(4) new(1) by (auto simp: base_ok_def ch(1))
  moreover have "unasked (s', l') I" using i(2) new(2) ch unfolding unasked_def s' by (auto split: if_splits)
  moreover have "base_mapped env l' I" using i(5) by (simp add: base_mapped_def ch(1))
  ultimately show ?thesis using e i(6) s' by (simp add: watch_inv_def)
qed

section \<open>What each callback does\<close>

lemma conn_enableWriting_touches:
  assumes "conn_enableWriting e (c, l) = Inr (c', l')" "bound_to fd (c, l)"
  shows "c' = c \<and> el_pending l' = el_pending l \<and>
    (\<exists>rs. el_requests l' = el_requests l @ rs \<and> list_all (\<lambda>r. ctl_op r = EPOLL_CTL_ADD \<and> ctl_fd r = fd) rs) \<and>
    (\<forall>a. a \<noteq> tc_addr c \<longrightarrow> el_channels l' a = el_channels l a)"
  using assms
  by (auto simp: conn_enableWriting_def bind_r_eq_Inr conn_channel_Inr EventLoop_update_def Epoller_update_def
      enableWriting_def Channel_update_def bound_to_def)

lemma send_touches:
  assumes "send msg n (c, l) = Inr (c', l')" "bound_to fd (c, l)" "tc_writeCompleteCallback c = None"
  shows "tc_addr c' = tc_addr c \<and> tc_closed c' = tc_closed c \<and> el_pending l' = el_pending l \<and>
    (\<exists>rs. el_requests l' = el_requests l @ rs \<and> list_all (\<lambda>r. ctl_op r = EPOLL_CTL_ADD \<and> ctl_fd r = fd) rs) \<and>
    (\<forall>a. a \<noteq> tc_addr c \<longrightarrow> el_channels l' a = el_channels l a)"
  using assms
  by (auto simp: send_def Let_def bind_r_eq_Inr bound_to_def conn_enableWriting_def conn_channel_Inr EventLoop_update_def
      Epoller_update_def enableWriting_def Channel_update_def accepted_def split: if_splits)

lemma read_touches:
  assumes "handleRead (run_messageCallback k) now n data (c, l) = Inr (c', l')" "conn_inv fd g (c, l)"
  shows "touches fd c c' (s, l) (s\<lparr>ts_connections := (ts_connections s)(fd \<mapsto> c')\<rparr>, l')"
proof (cases "wrap32 n \<le> 0")
  case True
  with assms(1) show ?thesis by (auto simp: handleRead_def touches_def split: if_splits)
next
  case False
  have mc: "tc_messageCallback c = Some Echo_onMessage" "tc_writeCompleteCallback c = None" and b: "bound_to fd (c, l)"
    using assms(2) by (simp_all add: conn_inv_def conn_static_def)
  with False assms(1) obtain b2 msg where
    s: "send msg (k_write k (length msg)) (c\<lparr>tc_inputBuf := b2\<rparr>, l) = Inr (c', l')"
    by (auto simp: handleRead_def bind_r_eq_Inr invoke_def echo_onMessage_def Let_def)
  have "bound_to fd (c\<lparr>tc_inputBuf := b2\<rparr>, l)" using b by (simp add: bound_to_def)
  from send_touches [OF s this] send_revents [OF s] mc(2) show ?thesis by (simp add: touches_def)
qed

lemma newConnection_accepts:
  assumes "run_newConnectionCallback env cb sockfd ((s, l), got) = Inr ((s', l'), got')"
  shows "\<exists>c. accepts env sockfd c (s, l) (s', l')"
proof -
  from assms have cb: "cb = Bound_newConnection" by (cases cb) auto
  from assms obtain addr where a: "operator_new (ee_new env) (live_objects env s) = Some addr"
    "newConnection addr (Bound_conn_handleRead sockfd) (Bound_conn_handleWrite sockfd)
       (Bound_connectEstablished sockfd) sockfd (s, l) = Inr (s', l')"
    by (auto simp: cb bind_r_eq_Inr split: option.splits)
  have upd: "m(x \<mapsto> y) = m(x \<mapsto> z) \<longleftrightarrow> y = z" for m :: "nat \<Rightarrow> echo_fn handler Channel option" and x y z
    by (auto dest: map_upd_eqD1)
  from operator_new [OF a(1)] have "addr \<notin> live_objects env s" by simp
  with a(2) have "accepts env sockfd (the (ts_connections s' sockfd)) (s, l) (s', l')"
    by (auto simp: newConnection_def TcpConnection_new_def Let_def bind_r_eq_Inr setConnectionCallback_def upd
        setMessageCallback_def accepts_def queueInLoop_def wakeup_def setReadCallback_def setWriteCallback_def Channel_new_def)
  then show ?thesis by blast
qed

text \<open>
  A registered channel is dispatched: the checks of its lifetime hold, and the step is of one of the three kinds, or
  changes none of what is watched.
\<close>

definition quiet :: "echo_fn Server \<Rightarrow> echo_fn Server \<Rightarrow> bool" where
  "quiet = (\<lambda>(s, l) (s', l'). s' = s \<and> el_requests l' = el_requests l \<and> el_pending l' = el_pending l \<and>
     el_channels l' = el_channels l)"

definition registered :: "epoll_set \<Rightarrow> nat \<Rightarrow> bool" where
  "registered I a \<longleftrightarrow> (\<exists>fd m. I fd = Some (m, a))"

definition not_writable :: "echo_fn EventLoop \<Rightarrow> nat \<Rightarrow> bool" where
  "not_writable l a \<longleftrightarrow> (\<forall>ch. el_channels l a = Some ch \<longrightarrow> ch_revents ch AND kWriteEvent = 0)"

lemma registered_live: "owned env s I \<Longrightarrow> registered I a \<Longrightarrow> live env s a"
  by (auto simp: registered_def live_def dest: ownedD)

lemma handleEvent_read:
  assumes "\<And>w'. invoke run (ch_readCallback (self w)) w = Inr w' \<Longrightarrow> ch_revents (self w') AND kWriteEvent = 0"
    and "ch_revents (self w) AND kWriteEvent = 0"
  shows "handleEvent run self w =
    (if ch_revents (self w) AND kReadEvent \<noteq> 0 then invoke run (ch_readCallback (self w)) w else Inr w)"
  using assms by (auto simp: handleEvent_def bind_r_def split: sum.splits)

text \<open>The read callback of a channel beside the connections.\<close>

lemma base_step:
  assumes inv: "watch_inv env ((s, l), got) I" and b: "base_channel ch"
    and k: "I (k_accept k) = None" "\<not> open_conn s (k_accept k)"
    and r: "invoke (echo_handler env k) (ch_readCallback ch) ((s, l), got) = Inr ((s', l'), got')"
  shows "quiet (s, l) (s', l') \<or> (\<exists>c. accepts env (k_accept k) c (s, l) (s', l'))"
proof -
  from b r consider "ch_readCallback ch = Some Wakeup_handleRead" | "ch_readCallback ch = Some TimerQueue_handleRead_cb"
    | "ch_readCallback ch = Some (Client Bound_Acceptor_handleRead)"
    by (auto simp: base_channel_def invoke_def)
  then show ?thesis
  proof cases
    case 1
    with r show ?thesis by (auto simp: invoke_def EventLoop_handleRead_def quiet_def)
  next
    case 2
    with r show ?thesis by (auto simp: invoke_def quiet_def)
  next
    case 3
    with r inv have "run_newConnectionCallback env Bound_newConnection (k_accept k) ((s, l), got) = Inr ((s', l'), got')"
      by (auto simp: invoke_def Acceptor_handleRead_def cassert_eq_Inr watch_inv_def)
    from newConnection_accepts [OF this] show ?thesis by blast
  qed
qed

lemma accepts_revents:
  assumes "accepts env fd c (s, l) (s', l')" "a \<in> live_objects env s"
  shows "el_channels l' a = el_channels l a"
  using assms by (auto simp: accepts_def)

text \<open>Once the write bit is known to stay clear, an event is its read callback, in both semantics.\<close>

lemma dispatch_read:
  fixes env k
  defines "self \<equiv> (\<lambda>a w. the (el_channels (snd (fst (w :: Echo))) a))"
  assumes ch: "el_channels (snd (fst w)) a = Some ch" "ch_revents ch AND kWriteEvent = 0"
    and safe: "invoke (safe_handler env k) (ch_readCallback ch) w = invoke (echo_handler env k) (ch_readCallback ch) w"
    and after: "\<And>w'. invoke (echo_handler env k) (ch_readCallback ch) w = Inr w' \<Longrightarrow> not_writable (snd (fst w')) a \<and>
      el_channels (snd (fst w')) a \<noteq> None"
  shows "handleEvent (safe_handler env k) (self a) w = dispatch env a k w"
    and "dispatch env a k w = (if ch_revents ch AND kReadEvent \<noteq> 0
      then invoke (echo_handler env k) (ch_readCallback ch) w else Inr w)"
proof -
  have self: "self a w = ch" using ch by (simp add: self_def)
  have clear: "ch_revents (self a w') AND kWriteEvent = 0"
    if "invoke (echo_handler env k) (ch_readCallback ch) w = Inr w'" for w'
    using after [OF that] by (auto simp: not_writable_def self_def)
  have e: "handleEvent (echo_handler env k) (self a) w =
      (if ch_revents ch AND kReadEvent \<noteq> 0 then invoke (echo_handler env k) (ch_readCallback ch) w else Inr w)"
    using handleEvent_read [of "echo_handler env k" "self a" w] clear ch(2) by (simp add: self)
  have s: "handleEvent (safe_handler env k) (self a) w =
      (if ch_revents ch AND kReadEvent \<noteq> 0 then invoke (echo_handler env k) (ch_readCallback ch) w else Inr w)"
    using handleEvent_read [of "safe_handler env k" "self a" w] clear ch(2) by (simp add: self safe)
  have d: "dispatch env a k w = handleEvent (echo_handler env k) (self a) w"
    using ch(1) by (simp add: dispatch_def self_def)
  show "handleEvent (safe_handler env k) (self a) w = dispatch env a k w" by (simp add: s d e)
  show "dispatch env a k w = (if ch_revents ch AND kReadEvent \<noteq> 0
      then invoke (echo_handler env k) (ch_readCallback ch) w else Inr w)" by (simp add: d e)
qed

definition event_effect ::
  "echo_env \<Rightarrow> epoll_set \<Rightarrow> nat \<Rightarrow> kernel \<Rightarrow> echo_fn Server \<Rightarrow> echo_fn Server \<Rightarrow> bool" where
  "event_effect env I a k sl sl' \<longleftrightarrow>
     quiet sl sl' \<or> (\<exists>c. accepts env (k_accept k) c sl sl') \<or>
     (\<exists>fd c c'. ts_connections (fst sl) fd = Some c \<and> I fd \<noteq> None \<and> tc_addr c = a \<and> touches fd c c' sl sl')"

lemma quiet_refl: "quiet sl sl"
  by (cases sl) (simp add: quiet_def)

lemma dispatch_step:
  assumes inv: "watch_inv env ((s, l), got) I" and reg: "registered I a" and nw: "not_writable l a"
    and k: "I (k_accept k) = None" "\<not> open_conn s (k_accept k)"
    and ch: "el_channels l a = Some ch"
  shows "handleEvent (safe_handler env k) (\<lambda>w. the (el_channels (snd (fst w)) a)) ((s, l), got) =
      dispatch env a k ((s, l), got) \<and>
    dispatch env a k ((s, l), got) = (if ch_revents ch AND kReadEvent \<noteq> 0
      then invoke (echo_handler env k) (ch_readCallback ch) ((s, l), got) else Inr ((s, l), got)) \<and>
    (\<forall>s' l' got'. dispatch env a k ((s, l), got) = Inr ((s', l'), got') \<longrightarrow> event_effect env I a k (s, l) (s', l'))"
proof -
  let ?w = "((s, l), got)" and ?run = "invoke (echo_handler env k) (ch_readCallback ch) ((s, l), got)"
  have rev: "ch_revents ch AND kWriteEvent = 0" using nw ch by (simp add: not_writable_def)
  have own: "owned env s I" using inv by (simp add: watch_inv_def)
  from reg obtain fd m where fd: "I fd = Some (m, a)" by (auto simp: registered_def)
  from ownedD [OF own fd] have
    "invoke (safe_handler env k) (ch_readCallback ch) ?w = ?run \<and>
     (\<forall>s' l' got'. ?run = Inr ((s', l'), got') \<longrightarrow> event_effect env I a k (s, l) (s', l') \<and>
       not_writable l' a \<and> el_channels l' a \<noteq> None)"
  proof (elim conjE disjE exE)
    assume base: "a \<in> ee_base env"
    then have b: "base_channel ch" using inv ch by (auto simp: watch_inv_def base_ok_def)
    then have "invoke (safe_handler env k) (ch_readCallback ch) ?w = ?run"
      by (auto simp: base_channel_def invoke_def safe_handler_def)
    moreover have "event_effect env I a k (s, l) (s', l') \<and> not_writable l' a \<and> el_channels l' a \<noteq> None"
      if r: "?run = Inr ((s', l'), got')" for s' l' got'
    proof -
      have "a \<in> live_objects env s" using base by (simp add: live_objects_def)
      from base_step [OF inv b k r] accepts_revents [OF _ this] nw ch show ?thesis
        by (auto simp: event_effect_def quiet_def not_writable_def)
    qed
    ultimately show ?thesis by blast
  next
    fix c assume c: "ts_connections s fd = Some c" "tc_addr c = a" "\<not> tc_closed c"
    then have ci: "conn_inv fd (got fd) (c, l)" using inv by (simp add: watch_inv_def echo_inv_def conns_inv_def)
    then have rc: "ch_readCallback ch = Some (Client (Bound_conn_handleRead fd))"
      using c(2) ch by (auto simp: conn_inv_def bound_to_def)
    have "open_conn s fd" using c by (simp add: open_conn_def)
    then have "invoke (safe_handler env k) (ch_readCallback ch) ?w = ?run"
      by (simp add: rc invoke_def safe_handler_def)
    moreover have "event_effect env I a k (s, l) (s', l') \<and> not_writable l' a \<and> el_channels l' a \<noteq> None"
      if r: "?run = Inr ((s', l'), got')" for s' l' got'
    proof -
      obtain n data where nd: "k_read k = (n, data)" by (cases "k_read k")
      from r c(1) nd obtain c' where
        r': "handleRead (run_messageCallback k) (ee_now env) n data (c, l) = Inr (c', l')"
          "s' = s\<lparr>ts_connections := (ts_connections s)(fd \<mapsto> c')\<rparr>"
        by (auto simp: rc invoke_def on_conn_def bind_r_eq_Inr split: option.splits)
      note t = read_touches [OF r'(1) ci, of s, folded r'(2)]
      then have "map_option ch_revents (el_channels l' a) = map_option ch_revents (el_channels l a)"
        by (simp add: touches_def)
      moreover have "event_effect env I a k (s, l) (s', l')"
        unfolding event_effect_def using t c fd by (intro disjI2 exI [of _ fd] exI [of _ c] exI [of _ c']) simp
      ultimately show ?thesis using nw ch by (auto simp: not_writable_def)
    qed
    ultimately show ?thesis by blast
  qed
  then have safe: "invoke (safe_handler env k) (ch_readCallback ch) ?w = ?run"
    and eff: "\<And>s' l' got'. ?run = Inr ((s', l'), got') \<Longrightarrow> event_effect env I a k (s, l) (s', l') \<and>
       not_writable l' a \<and> el_channels l' a \<noteq> None"
    by blast+
  have ch': "el_channels (snd (fst ?w)) a = Some ch" using ch by simp
  have after: "not_writable (snd (fst w')) a \<and> el_channels (snd (fst w')) a \<noteq> None" if "?run = Inr w'" for w'
    using eff that by (cases w', cases "fst w'") auto
  from dispatch_read [OF ch' rev safe after] show ?thesis
    using eff quiet_refl by (auto simp: event_effect_def split: if_splits)
qed

section \<open>Every event\<close>

text \<open>What holds in the middle of a round, with the events \<open>cs\<close> to come and the functors of \<open>fds\<close> queued.\<close>

definition mid_round :: "echo_env \<Rightarrow> nat list \<Rightarrow> int list \<Rightarrow> Echo \<Rightarrow> epoll_set \<Rightarrow> bool" where
  "mid_round env as fds w I \<longleftrightarrow>
     watch_inv env w I \<and> distinct as \<and> (\<forall>a\<in>set as. registered I a \<and> not_writable (snd (fst w)) a) \<and>
     waiting_functors (fst (fst w)) I fds \<and> el_pending (snd (fst w)) = established_functors fds"

lemma registered_other:
  assumes "owned env s I" "ts_connections s fd = Some c" "registered I a" "a \<noteq> tc_addr c"
  shows "registered (I(fd := None)) a"
proof -
  from assms(3) obtain fd' m where r: "I fd' = Some (m, a)" by (auto simp: registered_def)
  with assms(1,2,4) have "fd' \<noteq> fd" using owned_conn by blast
  with r show ?thesis by (auto simp: registered_def)
qed

lemma mid_quiet:
  assumes "mid_round env (a # as) fds ((s, l), got) I" "quiet (s, l) (s', l')" "echo_inv ((s', l'), got')"
  shows "mid_round env as fds ((s', l'), got') (watch ctl ((s, l), got) ((s', l'), got') I)"
proof -
  from assms(2) have q: "s' = s" "el_requests l' = el_requests l @ []" "el_pending l' = el_pending l" "el_channels l' = el_channels l"
    by (simp_all add: quiet_def)
  have "owned env s I" using assms(1) by (simp add: mid_round_def watch_inv_def)
  then have "watch ctl ((s, l), got) ((s', l'), got') I = I"
    using owned_closed [of env s I] unfolding watch_eq [OF q(2)] by (auto simp: fun_eq_iff q(1))
  with assms(1,3) q show ?thesis
    by (simp add: mid_round_def watch_inv_def unasked_def base_ok_def base_mapped_def not_writable_def)
qed

lemma mid_accepts:
  assumes m: "mid_round env (a # as) fds ((s, l), got) I" and t: "accepts env fd c (s, l) (s', l')"
    and fd: "I fd = None" "\<not> open_conn s fd" and e: "echo_inv ((s', l'), got')"
  shows "\<exists>fds'. mid_round env as fds' ((s', l'), got') (watch ctl ((s, l), got) ((s', l'), got') I)"
proof -
  have inv: "watch_inv env ((s, l), got) I" using m by (simp add: mid_round_def)
  then have own: "owned env s I" by (simp add: watch_inv_def)
  have live: "b \<in> live_objects env s" if "b \<in> set as" for b
    using m that registered_live [OF own] by (auto simp: mid_round_def live_def live_objects_def)
  from t have s': "s' = s\<lparr>ts_connections := (ts_connections s)(fd \<mapsto> c)\<rparr>" "\<not> tc_closed c"
    and p: "el_pending l' = el_pending l @ [Call (Some (Bound_connectEstablished fd))]"
    by (auto simp: accepts_def)
  have "not_writable l' b" if "b \<in> set as" for b
    using accepts_revents [OF t live [OF that]] m that by (simp add: mid_round_def not_writable_def)
  moreover have "waiting_functors s' I (fds @ [fd])"
    using m fd s' by (auto simp: mid_round_def waiting_functors_def open_conn_def)
  ultimately have "mid_round env as (fds @ [fd]) ((s', l'), got') I"
    using m accepts_inv [OF inv t fd(1) e] p by (simp add: mid_round_def)
  then show ?thesis unfolding accepts_watch [OF own t fd(1)] by blast
qed

lemma mid_touches:
  assumes doc: "epoll_set_doc ctl" and m: "mid_round env (a # as) fds ((s, l), got) I"
    and c: "ts_connections s fd = Some c" "I fd \<noteq> None" "tc_addr c = a" and t: "touches fd c c' (s, l) (s', l')"
    and e: "echo_inv ((s', l'), got')"
  shows "mid_round env as fds ((s', l'), got') (watch ctl ((s, l), got) ((s', l'), got') I)"
proof -
  have inv: "watch_inv env ((s, l), got) I" using m by (simp add: mid_round_def)
  then have own: "owned env s I" by (simp add: watch_inv_def)
  let ?I = "if tc_closed c' then I(fd := None) else I"
  from t have s': "s' = s\<lparr>ts_connections := (ts_connections s)(fd \<mapsto> c')\<rparr>" and p: "el_pending l' = el_pending l"
    and rev: "\<And>b. b \<noteq> a \<Longrightarrow> el_channels l' b = el_channels l b"
    using c(3) by (auto simp: touches_def)
  have "registered ?I b \<and> not_writable l' b" if "b \<in> set as" for b
  proof -
    from m that have b: "b \<noteq> a" "registered I b" "not_writable l b" by (auto simp: mid_round_def)
    with registered_other [OF own c(1)] c(3) rev show ?thesis by (auto simp: not_writable_def)
  qed
  moreover have "waiting_functors s' ?I fds"
    using m c(2) s' by (auto simp: mid_round_def waiting_functors_def open_conn_def)
  ultimately show ?thesis
    using m touches_inv [OF doc inv c(1,2) t e] p unfolding touches_watch [OF doc own c(1,2) t]
    by (simp add: mid_round_def)
qed

lemma mid_event:
  assumes doc: "epoll_set_doc ctl" and m: "mid_round env (a # as) fds w I" and k: "kernel_doc k"
    and acc: "I (k_accept k) = None" "\<not> open_conn (fst (fst w)) (k_accept k)"
    and r: "dispatch env a k w = Inr w'"
  shows "\<exists>fds'. mid_round env as fds' w' (watch ctl w w' I)"
proof -
  obtain s l got s' l' got' where w: "w = ((s, l), got)" "w' = ((s', l'), got')" by (metis prod.exhaust)
  have inv: "watch_inv env ((s, l), got) I" using m w by (simp add: mid_round_def)
  from r w obtain ch where ch: "el_channels l a = Some ch" by (auto simp: dispatch_def split: option.splits)
  have "registered I a" "not_writable l a" using m w by (simp_all add: mid_round_def)
  with dispatch_step [OF inv this _ _ ch, of k] acc r w have eff: "event_effect env I a k (s, l) (s', l')" by auto
  have "echo_events env [(a, k)] w = Inr w'" using r by (auto simp: dispatch_def split: option.splits)
  with echo_events_inv [OF this] k inv w have e: "echo_inv ((s', l'), got')" by (simp add: watch_inv_def)
  from eff show ?thesis
    unfolding event_effect_def fst_conv
  proof (elim disjE exE conjE)
    assume "quiet (s, l) (s', l')"
    from mid_quiet [OF m [unfolded w] this e] show ?thesis unfolding w by blast
  next
    fix c assume "accepts env (k_accept k) c (s, l) (s', l')"
    from mid_accepts [OF m [unfolded w] this _ _ e] acc w show ?thesis by simp
  next
    fix fd c c' assume "ts_connections s fd = Some c" "I fd \<noteq> None" "tc_addr c = a" "touches fd c c' (s, l) (s', l')"
    from mid_touches [OF doc m [unfolded w] this e] show ?thesis unfolding w by blast
  qed
qed

lemma events_safe:
  assumes doc: "epoll_set_doc ctl"
  shows "mid_round env (map fst cs) fds w I \<Longrightarrow> answers_doc ctl env cs w I \<Longrightarrow>
    safe_events env cs w = echo_events env cs w \<and>
    (\<forall>w' I'. track_events ctl env cs w I = Inr (w', I') \<longrightarrow> (\<exists>fds'. mid_round env [] fds' w' I'))"
proof (induction cs arbitrary: fds w I)
  case (Cons x cs)
  obtain a k where x: "x = (a, k)" by (cases x)
  obtain s l got where w: "w = ((s, l), got)" by (metis prod.exhaust)
  have m: "mid_round env (a # map fst cs) fds w I" using Cons.prems(1) x by simp
  then have inv: "watch_inv env ((s, l), got) I" and reg: "registered I a" "not_writable l a"
    using w by (simp_all add: mid_round_def)
  from Cons.prems(2) x have k: "kernel_doc k" "I (k_accept k) = None" "\<not> open_conn (fst (fst w)) (k_accept k)"
    and rest: "\<And>w'. dispatch env a k w = Inr w' \<Longrightarrow> answers_doc ctl env cs w' (watch ctl w w' I)"
    by (auto split: sum.splits)
  have "owned env s I" using inv by (simp add: watch_inv_def)
  from registered_live [OF this reg(1)] have "live env s a" .
  then have live: "live env (fst (fst w)) a" using w by simp
  have step: "safe_events env cs w' = echo_events env cs w' \<and>
      (\<forall>w'' I'. track_events ctl env cs w' (watch ctl w w' I) = Inr (w'', I') \<longrightarrow> (\<exists>fds'. mid_round env [] fds' w'' I'))"
    if d: "dispatch env a k w = Inr w'" for w'
  proof -
    from mid_event [OF doc m k d] obtain fds' where "mid_round env (map fst cs) fds' w' (watch ctl w w' I)" by blast
    from Cons.IH [OF this rest [OF d]] show ?thesis by blast
  qed
  show ?case
  proof (cases "el_channels l a")
    case None
    with w x live show ?thesis by (simp add: dispatch_def)
  next
    case (Some ch)
    from dispatch_step [OF inv reg _ _ Some, of k] k w have
      s: "handleEvent (safe_handler env k) (\<lambda>w. the (el_channels (snd (fst w)) a)) w = dispatch env a k w"
      by simp
    have d: "dispatch env a k w = handleEvent (echo_handler env k) (\<lambda>w. the (el_channels (snd (fst w)) a)) w"
      using Some w by (simp add: dispatch_def)
    show ?thesis
    proof (cases "dispatch env a k w")
      case (Inl e)
      with s d x w Some live show ?thesis by simp
    next
      case (Inr w')
      with step [OF Inr] s d x w Some live show ?thesis by simp
    qed
  qed
qed (auto simp: mid_round_def)

section \<open>Every functor\<close>

lemma functor_step:
  assumes doc: "epoll_set_doc ctl" and inv: "watch_inv env w I" and wait: "waiting_functors (fst (fst w)) I (fd # fds)"
    and r: "echo_functor (Call (Some (Bound_connectEstablished fd))) w = Inr w'"
  shows "watch_inv env w' (watch ctl w w' I) \<and> waiting_functors (fst (fst w')) (watch ctl w w' I) fds \<and>
    el_pending (snd (fst w')) = el_pending (snd (fst w))"
proof -
  obtain s l got s' l' got' where w: "w = ((s, l), got)" "w' = ((s', l'), got')" by (metis prod.exhaust)
  from inv w have i: "echo_inv ((s, l), got)" "owned env s I" "unasked (s, l) I" "apart env s" "base_ok env l"
    "base_mapped env l I" "ac_newConnectionCallback (ts_acceptor s) = Some Bound_newConnection"
    by (simp_all add: watch_inv_def)
  from wait w obtain c where c: "ts_connections s fd = Some c" "\<not> tc_closed c" and none: "I fd = None"
    by (auto simp: waiting_functors_def open_conn_def)
  have ci: "conn_inv fd (got fd) (c, l)" using i(1) c by (simp add: echo_inv_def conns_inv_def)
  then obtain ch where ch: "el_channels l (tc_addr c) = Some ch" "ch_fd ch = fd" by (auto simp: conn_inv_def bound_to_def)
  have ev: "ch_events ch = 0" using i(3) c ch none by (auto simp: unasked_def)
  have cc: "tc_connectionCallback c = Some Echo_onConnection" using ci by (simp add: conn_inv_def conn_static_def)
  let ?ch = "ch\<lparr>ch_events := kReadEvent\<rparr>"
  let ?r = "\<lparr>ctl_op = EPOLL_CTL_ADD, ctl_fd = fd, ctl_events = kReadEvent, ctl_ptr = tc_addr c\<rparr>"
  have l': "l' = l\<lparr>el_channels := (el_channels l)(tc_addr c \<mapsto> ?ch), el_requests := el_requests l @ [?r]\<rparr>"
    and s': "s' = s\<lparr>ts_connections := (ts_connections s)(fd \<mapsto> c)\<rparr>" and got: "got' = got"
    using r w c(1) ch ev cc
    by (auto simp: invoke_def server_connectEstablished_def connectEstablished_def conn_enableReading_def conn_channel_Inr
        bind_r_eq_Inr echo_onConnection_def EventLoop_update_def enableReading_def Channel_update_def Epoller_update_def)
  have s's: "s' = s" using c(1) by (simp add: s' fun_upd_idem)
  have open_fd: "\<not> closed_fd s fd" using c by (simp add: closed_fd_def)
  have rq: "el_requests l' = el_requests l @ [?r]" by (simp add: l')
  have "fold ctl [?r] I = I(fd \<mapsto> (kReadEvent, tc_addr c))" using epoll_addD [OF doc, of ?r I] none by simp
  then have I': "watch ctl w w' I = I(fd \<mapsto> (kReadEvent, tc_addr c))"
    using owned_closed [OF i(2)] open_fd unfolding w watch_eq [OF rq] by (auto simp: fun_eq_iff s's)
  let ?I = "I(fd \<mapsto> (kReadEvent, tc_addr c))"
  have bits: "kReadEvent AND kWriteEvent = 0" by (simp add: kReadEvent_def kWriteEvent_def)
  have "owned env s ?I" using i(2) c bits unfolding owned_def by auto
  moreover have "unasked (s, l') ?I"
    unfolding unasked_def fst_conv snd_conv
  proof (intro allI impI)
    fix x cx chx
    assume x: "ts_connections s x = Some cx" "\<not> tc_closed cx" "?I x = None" "el_channels l' (tc_addr cx) = Some chx"
    then have "x \<noteq> fd" "I x = None" by (auto split: if_splits)
    moreover from this x(1) i(4) c(1) have "tc_addr cx \<noteq> tc_addr c" by (metis apart_def)
    ultimately show "ch_events chx = 0" using i(3) x by (auto simp: unasked_def l')
  qed
  moreover have "base_ok env l'"
  proof -
    have "tc_addr c \<notin> ee_base env" using i(4) c(1) by (auto simp: apart_def)
    with i(5) show ?thesis by (simp add: base_ok_def l')
  qed
  moreover have "echo_inv w'" using run_bound_inv [OF i(1), of "Bound_connectEstablished fd" w'] r w by (simp add: invoke_def)
  moreover have "waiting_functors s ?I fds" using wait w by (auto simp: waiting_functors_def)
  moreover have "base_mapped env l' ?I"
  proof -
    have "tc_addr c \<notin> ee_base env" using i(4) c(1) by (auto simp: apart_def)
    with i(6) show ?thesis by (auto simp: base_mapped_def l')
  qed
  ultimately show ?thesis using i(4,7) unfolding I' by (simp add: watch_inv_def w s's) (simp add: l')
qed

lemma functors_safe:
  assumes doc: "epoll_set_doc ctl"
  shows "watch_inv env w I \<Longrightarrow> waiting_functors (fst (fst w)) I fds \<Longrightarrow>
    safe_functors (established_functors fds) w = echo_functors (established_functors fds) w \<and>
    (\<forall>w' I'. track_functors ctl (established_functors fds) w I = Inr (w', I') \<longrightarrow>
      watch_inv env w' I' \<and> el_pending (snd (fst w')) = el_pending (snd (fst w)))"
proof (induction fds arbitrary: w I)
  case (Cons fd fds)
  let ?f = "Call (Some (Bound_connectEstablished fd))"
  have "open_conn (fst (fst w)) fd" using Cons.prems(2) by (simp add: waiting_functors_def)
  then have safe: "safe_functor ?f w = echo_functor ?f w" by (simp add: safe_functor_def)
  show ?case
  proof (cases "echo_functor ?f w")
    case (Inl e)
    with safe show ?thesis by simp
  next
    case (Inr w1)
    from functor_step [OF doc Cons.prems Inr] have
      n: "watch_inv env w1 (watch ctl w w1 I)" "waiting_functors (fst (fst w1)) (watch ctl w w1 I) fds"
        "el_pending (snd (fst w1)) = el_pending (snd (fst w))" by simp_all
    from Cons.IH [OF n(1,2)] n(3) Inr safe show ?thesis by simp
  qed
qed simp

section \<open>Every round\<close>

text \<open>The poll changes nothing of a channel but \<open>revents_\<close>.\<close>

lemma poll_channels:
  "Epoller_poll ready store chs = Inr (store', chs') \<Longrightarrow> chs' = chs @ map snd ready \<and>
    (\<forall>a ch'. store' a = Some ch' \<longrightarrow> (\<exists>ch. store a = Some ch \<and> ch_events ch' = ch_events ch \<and> same_binding ch ch')) \<and>
    (distinct (map snd ready) \<longrightarrow>
      (\<forall>a. a \<notin> snd ` set ready \<longrightarrow> store' a = store a) \<and>
      (\<forall>(ev, a)\<in>set ready. \<forall>ch'. store' a = Some ch' \<longrightarrow> ch_revents ch' = ev))"
proof (induction ready arbitrary: store chs)
  case (Cons r ready)
  obtain ev addr where r: "r = (ev, addr)" by (cases r)
  with Cons.prems obtain ch where ch: "store addr = Some ch"
    and p: "Epoller_poll ready (store(addr \<mapsto> set_revents ev ch)) (chs @ [addr]) = Inr (store', chs')"
    by (auto split: option.splits)
  note ih = Cons.IH [OF p]
  have "\<exists>ch0. store a = Some ch0 \<and> ch_events ch' = ch_events ch0 \<and> same_binding ch0 ch'" if "store' a = Some ch'" for a ch'
  proof -
    from ih that obtain c1 where c1: "(store(addr \<mapsto> set_revents ev ch)) a = Some c1" "ch_events ch' = ch_events c1"
      "same_binding c1 ch'" by blast
    then show ?thesis
      using ch by (cases "a = addr") (auto simp: set_revents_def same_binding_def)
  qed
  moreover have "(\<forall>a. a \<notin> snd ` set (r # ready) \<longrightarrow> store' a = store a) \<and>
      (\<forall>(ev, a)\<in>set (r # ready). \<forall>ch'. store' a = Some ch' \<longrightarrow> ch_revents ch' = ev)" if "distinct (map snd (r # ready))"
  proof -
    from that r have d: "distinct (map snd ready)" "addr \<notin> snd ` set ready" by auto
    with ih have "store' addr = Some (set_revents ev ch)" by auto
    with ih d show ?thesis by (auto simp: r set_revents_def)
  qed
  ultimately show ?case using ih r by auto
qed simp

lemma poll_inv:
  assumes inv: "watch_inv env ((s, l), got) I" and doc: "poll_doc I ready" and idle: "el_pending l = []"
    and p: "Epoller_poll (map (\<lambda>(ev, addr, k). (ev, addr)) ready) (el_channels l) [] = Inr (store, chans)"
  shows "mid_round env (map fst (zip chans (map (snd \<circ> snd) ready))) [] ((s, l\<lparr>el_channels := store\<rparr>), got) I"
proof -
  let ?l = "l\<lparr>el_channels := store\<rparr>" and ?r = "map (\<lambda>(ev, addr, k). (ev, addr)) ready"
  from inv have i: "echo_inv ((s, l), got)" "owned env s I" "unasked (s, l) I" "apart env s" "base_ok env l"
    "base_mapped env l I" "ac_newConnectionCallback (ts_acceptor s) = Some Bound_newConnection"
    by (simp_all add: watch_inv_def)
  note pc = poll_channels [OF p]
  have snd: "map snd ?r = map (fst \<circ> snd) ready" by (simp add: comp_def case_prod_beta)
  with pc have chans: "chans = map (fst \<circ> snd) ready" by simp
  then have fst: "map fst (zip chans (map (snd \<circ> snd) ready)) = map (fst \<circ> snd) ready" by (simp add: map_fst_zip)
  have d: "distinct (map (fst \<circ> snd) ready)" using doc by (simp add: poll_doc_def)
  have ch: "\<exists>ch. el_channels l a = Some ch \<and> ch_events ch' = ch_events ch \<and> same_binding ch ch'"
    if "store a = Some ch'" for a ch' using pc that by blast
  have "echo_inv ((s, ?l), got)"
    using i(1) poll_bindings [OF p] conns_inv_kept [of s l got ?l] by (simp add: echo_inv_def)
  moreover have "unasked (s, ?l) I" using i(3) ch unfolding unasked_def by fastforce
  moreover have "base_mapped env ?l I"
    using i(6) poll_bindings [OF p] by (fastforce simp: base_mapped_def dest: bindings_kept_some)
  moreover have "base_ok env ?l" using i(5) ch by (fastforce simp: base_ok_def base_channel_def same_binding_def)
  moreover have "registered I a \<and> not_writable ?l a" if "a \<in> set (map (fst \<circ> snd) ready)" for a
  proof -
    from that obtain ev k where r: "(ev, a, k) \<in> set ready" by auto
    with doc obtain fd m where m: "I fd = Some (m, a)" "m AND kWriteEvent = 0 \<longrightarrow> ev AND kWriteEvent = 0"
      by (fastforce simp: poll_doc_def list_all_iff)
    with ownedD [OF i(2) m(1)] have "ev AND kWriteEvent = 0" by simp
    moreover have "(ev, a) \<in> set ?r" using r by force
    moreover have "distinct (map snd ?r)" using d by (simp only: snd)
    with pc have "\<forall>(ev, a)\<in>set ?r. \<forall>ch'. store a = Some ch' \<longrightarrow> ch_revents ch' = ev" by blast
    from bspec [OF this \<open>(ev, a) \<in> set ?r\<close>] have "\<forall>ch'. store a = Some ch' \<longrightarrow> ch_revents ch' = ev" by simp
    ultimately have "not_writable ?l a" by (simp add: not_writable_def)
    with m(1) show ?thesis by (auto simp: registered_def)
  qed
  ultimately show ?thesis
    using i d idle unfolding fst by (simp add: mid_round_def watch_inv_def waiting_functors_def)
qed

lemma round_safe:
  assumes doc: "epoll_set_doc ctl" and inv: "watch_inv env w I" "el_pending (snd (fst w)) = []" and r: "round_doc ctl env ready w I"
  shows "safe_round env ready w = echo_round env ready w"
    and "track_round ctl env ready w I = Inr (w', I') \<Longrightarrow> watch_inv env w' I' \<and> el_pending (snd (fst w')) = []"
proof -
  obtain s l got where w: "w = ((s, l), got)" by (metis prod.exhaust)
  let ?poll = "Epoller_poll (map (\<lambda>(ev, addr, k). (ev, addr)) ready) (el_channels l) []"
  have "safe_round env ready w = echo_round env ready w \<and>
    (\<forall>w' I'. track_round ctl env ready w I = Inr (w', I') \<longrightarrow> watch_inv env w' I' \<and> el_pending (snd (fst w')) = [])"
  proof (cases ?poll)
    case (Inl e)
    then show ?thesis by (simp add: w safe_round_def echo_round_def track_round_def)
  next
    case (Inr sc)
    obtain store chans where p: "?poll = Inr (store, chans)" using Inr by (cases sc) simp
    let ?w = "((s, l\<lparr>el_channels := store\<rparr>), got)" and ?cs = "zip chans (map (snd \<circ> snd) ready)"
    from r w p have r': "poll_doc I ready" "answers_doc ctl env ?cs ?w I" by (simp_all add: round_doc_def)
    have m: "mid_round env (map fst ?cs) [] ?w I" by (rule poll_inv [OF _ r'(1) _ p]) (use inv w in auto)
    note ev = events_safe [OF doc m r'(2)]
    show ?thesis
    proof (cases "track_events ctl env ?cs ?w I")
      case (Inl e)
      then have "echo_events env ?cs ?w = Inl e" using track_events_echo [of ctl env ?cs ?w I] by simp
      with Inl ev p show ?thesis by (simp add: w safe_round_def echo_round_def track_round_def)
    next
      case (Inr wI)
      then obtain s1 l1 got1 I1 where t: "track_events ctl env ?cs ?w I = Inr (((s1, l1), got1), I1)"
        by (metis prod.exhaust)
      then have e: "echo_events env ?cs ?w = Inr ((s1, l1), got1)" using track_events_echo [of ctl env ?cs ?w I] by simp
      from ev t obtain fds where m1: "mid_round env [] fds ((s1, l1), got1) I1" by blast
      let ?w1 = "((s1, l1\<lparr>el_pending := []\<rparr>), got1)"
      from m1 have i1: "watch_inv env ?w1 I1" "waiting_functors s1 I1 fds" "el_pending l1 = established_functors fds"
        using conns_inv_kept [of s1 l1 got1 "l1\<lparr>el_pending := []\<rparr>"]
        by (simp_all add: mid_round_def watch_inv_def unasked_def base_ok_def base_mapped_def echo_inv_def bindings)
      from functors_safe [OF doc i1(1), of fds] i1(2) have
        "safe_functors (el_pending l1) ?w1 = echo_functors (el_pending l1) ?w1"
        "\<forall>w' I'. track_functors ctl (el_pending l1) ?w1 I1 = Inr (w', I') \<longrightarrow> watch_inv env w' I' \<and> el_pending (snd (fst w')) = []"
        by (simp_all add: i1(3))
      with ev t e p show ?thesis by (simp add: w safe_round_def echo_round_def track_round_def)
    qed
  qed
  then show "safe_round env ready w = echo_round env ready w"
    "track_round ctl env ready w I = Inr (w', I') \<Longrightarrow> watch_inv env w' I' \<and> el_pending (snd (fst w')) = []"
    by blast+
qed

section \<open>From the start\<close>

lemma fold_add_some:
  assumes doc: "epoll_set_doc ctl" and "\<And>r. r \<in> set rs \<Longrightarrow> ctl_op r = EPOLL_CTL_ADD" "fold ctl rs I fd = Some x"
  shows "I fd = Some x \<or> (\<exists>r\<in>set rs. (ctl_events r, ctl_ptr r) = x)"
  using assms(2,3)
proof (induction rs arbitrary: I)
  case (Cons r rs)
  from Cons.IH [of "ctl r I"] Cons.prems epoll_addD [OF doc, of r I] show ?case by (auto split: if_splits)
qed simp

lemma start_inv:
  assumes doc: "epoll_set_doc ctl" and l0: "EventLoop_new epfd fd timerfd addr1 addr2 = Inr (q, l0)"
    and s0: "EchoServer_new sys addr3 l0 = Inr s0" "EchoServer_start s0 = Inr s" and base: "{addr1, addr2, addr3} \<subseteq> ee_base env"
  shows "watch_inv env (s, \<lambda>_. []) (fold ctl (el_requests (snd s)) (\<lambda>_. None)) \<and> el_pending (snd s) = []"
proof -
  have bits: "kReadEvent AND kWriteEvent = 0" by (simp add: kReadEvent_def kWriteEvent_def)
  note defs = EventLoop_new_def TimerQueue_init_def EventLoop_update_def EchoServer_new_def TcpServer_new_def
    Acceptor_new_def EchoServer_start_def start_def Acceptor_listen_def enableReading_def Channel_update_def
    Epoller_update_def Channel_new_def setReadCallback_def setNewConnectionCallback_def
    server_setConnectionCallback_def server_setMessageCallback_def
  have l: "el_pending l0 = []" "list_all (\<lambda>r. ctl_op r = EPOLL_CTL_ADD \<and> ctl_events r = kReadEvent \<and> ctl_ptr r \<in> ee_base env) (el_requests l0)"
    "\<forall>a ch. el_channels l0 a = Some ch \<longrightarrow> base_channel ch" "\<forall>r\<in>set (el_requests l0). el_channels l0 (ctl_ptr r) \<noteq> None"
    using l0 base by (auto simp: defs bind_r_eq_Inr case_prod_beta Let_def base_channel_def split: if_splits)
  have "ts_connections (fst s) = Map.empty \<and> ts_connectionCallback (fst s) = Some Echo_onConnection \<and>
    ts_messageCallback (fst s) = Some Echo_onMessage \<and> ac_newConnectionCallback (ts_acceptor (fst s)) = Some Bound_newConnection \<and>
    el_pending (snd s) = []"
    using s0 l(1) by (auto simp: defs bind_r_eq_Inr case_prod_beta Let_def split: option.splits)
  moreover have rq: "list_all (\<lambda>r. ctl_op r = EPOLL_CTL_ADD \<and> ctl_events r = kReadEvent \<and> ctl_ptr r \<in> ee_base env) (el_requests (snd s))"
    using s0 l(2) base by (auto simp: defs bind_r_eq_Inr case_prod_beta Let_def split: option.splits)
  have "\<exists>ch. el_channels (snd s) = (el_channels l0)(addr3 \<mapsto> ch) \<and> ch_writeCallback ch = None \<and>
      ch_readCallback ch = Some (Client Bound_Acceptor_handleRead)"
    using s0 by (fastforce simp: defs bind_r_eq_Inr case_prod_beta Let_def split: option.splits)
  then obtain ch where ch: "el_channels (snd s) = (el_channels l0)(addr3 \<mapsto> ch)" "base_channel ch"
    by (auto simp: base_channel_def)
  have "ctl_ptr r = addr3 \<or> r \<in> set (el_requests l0)" if "r \<in> set (el_requests (snd s))" for r
    using that s0 by (auto simp: defs bind_r_eq_Inr case_prod_beta Let_def split: option.splits)
  with l(4) ch(1) have mapped: "\<forall>r\<in>set (el_requests (snd s)). el_channels (snd s) (ctl_ptr r) \<noteq> None" by fastforce
  have "base_mapped env (snd s) (fold ctl (el_requests (snd s)) (\<lambda>_. None))"
    unfolding base_mapped_def
  proof (intro allI impI)
    fix x m p assume "fold ctl (el_requests (snd s)) (\<lambda>_. None) x = Some (m, p)"
    from fold_add_some [OF doc _ this] rq have "\<exists>r\<in>set (el_requests (snd s)). ctl_ptr r = p" by (auto simp: list_all_iff)
    with mapped show "el_channels (snd s) p \<noteq> None" by blast
  qed
  moreover
  have "\<forall>a ch. el_channels (snd s) a = Some ch \<longrightarrow> base_channel ch" using l(3) ch by auto
  moreover have "owned env (fst s) (fold ctl (el_requests (snd s)) (\<lambda>_. None))" if "ts_connections (fst s) = Map.empty"
    unfolding owned_def
  proof (intro allI impI)
    fix x m p assume "fold ctl (el_requests (snd s)) (\<lambda>_. None) x = Some (m, p)"
    from fold_add_some [OF doc _ this] rq have "m = kReadEvent" "p \<in> ee_base env" by (auto simp: list_all_iff)
    with bits that show "m AND kWriteEvent = 0 \<and> (p \<in> ee_base env \<and> ts_connections (fst s) x = None \<or>
        (\<exists>c. ts_connections (fst s) x = Some c \<and> tc_addr c = p \<and> \<not> tc_closed c))" by simp
  qed
  ultimately show ?thesis
    by (simp add: watch_inv_def echo_inv_def conns_inv_def unasked_def apart_def base_ok_def)
qed

lemma watched_inv:
  assumes "watched_reach ctl env w I" "epoll_set_doc ctl"
  shows "watch_inv env w I \<and> el_pending (snd (fst w)) = []"
  using assms(1)
proof induction
  case watched_start
  with start_inv [OF assms(2)] show ?case by simp
next
  case (watched_round w I ready w' I')
  with round_safe(2) [OF assms(2)] show ?case by blast
qed

section \<open>A server to start from\<close>

text \<open>A server whose loop, timers and acceptor live at 200, 201 and 300.\<close>

definition demo_ctl :: "ctl \<Rightarrow> epoll_set \<Rightarrow> epoll_set" where
  "demo_ctl r I = (if I (ctl_fd r) = None then I(ctl_fd r \<mapsto> (ctl_events r, ctl_ptr r)) else I)"

definition demo_watch_env :: echo_env where
  "demo_watch_env = demo_echo_env\<lparr>ee_base := {200, 201, 300}\<rparr>"

lemma demo_doc: "epoll_set_doc demo_ctl"
  by (simp add: epoll_set_doc_def demo_ctl_def)

lemma demo_server:
  "\<exists>s l I ch. watched_reach demo_ctl demo_watch_env ((s, l), \<lambda>_. []) I \<and>
    I 6 = Some (kReadEvent, 300) \<and> I 7 = None \<and> I (- 1) = None \<and>
    el_channels l 300 = Some ch \<and> ch_readCallback ch = Some (Client Bound_Acceptor_handleRead) \<and>
    ts_connections s = Map.empty \<and> ts_connectionCallback s = Some Echo_onConnection \<and> el_pending l = [] \<and>
    ts_acceptor s = \<lparr>ac_listenfd = 6, ac_addr = 300, ac_newConnectionCallback = Some Bound_newConnection\<rparr>"
proof -
  let ?sys = "\<lparr>socket_ret = 6, bind_ret = \<lambda>_ _. 0, listen_ret = 0\<rparr>"
  note defs = EventLoop_new_def TimerQueue_init_def EventLoop_update_def EchoServer_new_def TcpServer_new_def
    Acceptor_new_def EchoServer_start_def start_def Acceptor_listen_def enableReading_def Channel_update_def
    Epoller_update_def Channel_new_def setReadCallback_def setNewConnectionCallback_def Epoller_new_def createEventFd_def
    createTimerfd_def createAndListen_def server_setConnectionCallback_def server_setMessageCallback_def Let_def
  obtain q l0 where l0: "EventLoop_new 3 4 5 200 201 = Inr (q, l0 :: echo_fn EventLoop)" "el_pending l0 = []"
    "map ctl_fd (el_requests l0) = [5, 4]" "\<forall>r\<in>set (el_requests l0). ctl_op r = EPOLL_CTL_ADD"
    by (simp add: defs)
  obtain s0 s l ch where s: "EchoServer_new ?sys 300 l0 = Inr s0" "EchoServer_start s0 = Inr (s, l)"
    "el_channels l 300 = Some ch" "ch_readCallback ch = Some (Client Bound_Acceptor_handleRead)"
    "ts_connections s = Map.empty" "ts_acceptor s = \<lparr>ac_listenfd = 6, ac_addr = 300, ac_newConnectionCallback = Some Bound_newConnection\<rparr>"
    "ts_connectionCallback s = Some Echo_onConnection" "el_pending l = []"
    "el_requests l = el_requests l0 @ [\<lparr>ctl_op = EPOLL_CTL_ADD, ctl_fd = 6, ctl_events = kReadEvent, ctl_ptr = 300\<rparr>]"
    using l0(2) by (simp add: defs)
  let ?I = "fold demo_ctl (el_requests l) (\<lambda>_. None)"
  have "watched_reach demo_ctl demo_watch_env ((s, l), \<lambda>_. []) ?I"
    using watched_start [OF l0(1) s(1,2), of demo_watch_env demo_ctl] by (simp add: demo_watch_env_def)
  moreover obtain r1 r2 where "el_requests l0 = [r1, r2]" "ctl_fd r1 = 5" "ctl_fd r2 = 4"
    using l0(3) by (auto simp: map_eq_Cons_conv)
  then have "?I 6 = Some (kReadEvent, 300)" "?I 7 = None" "?I (- 1) = None" by (simp_all add: s(9) demo_ctl_def)
  ultimately show ?thesis using s by blast
qed

section \<open>Properties\<close>

text \<open>
  C5. No channel is used after its connection is destroyed, and no descriptor after it is closed: whatever the kernel
  answers within its manual, a round of the server is the round in which each such use is a fault.
\<close>

theorem no_dangling_channel:
  assumes "watched_reach ctl env w I" "epoll_set_doc ctl" "round_doc ctl env ready w I"
  shows "safe_round env ready w = echo_round env ready w \<and>
    (\<forall>fd m p. I fd = Some (m, p) \<longrightarrow> live env (fst (fst w)) p)"
proof -
  note inv = watched_inv [OF assms(1,2)]
  then have "owned env (fst (fst w)) I" by (simp add: watch_inv_def)
  then have "live env (fst (fst w)) p" if "I fd = Some (m, p)" for fd m p
    by (rule registered_live) (use that in \<open>auto simp: registered_def\<close>)
  with round_safe(1) [OF assms(2) _ _ assms(3)] inv show ?thesis by blast
qed

theorem no_dangling_channel_witness:
  "\<exists>w I w'. watched_reach demo_ctl demo_watch_env w I \<and> I 6 = Some (kReadEvent, 300) \<and>
    safe_round demo_watch_env [(kReadEvent, 300, demo_kernel [] (\<lambda>_. 0))] w = Inr w' \<and>
    open_conn (fst (fst w')) 7"
proof -
  let ?k = "demo_kernel [] (\<lambda>_. 0)"
  from new_buffer_ok [of kInitialSize] obtain b where b: "new_buffer kInitialSize = Inr b"
    by (auto simp: kInitialSize_def vec_max_def)
  from demo_server obtain s l I ch where reach: "watched_reach demo_ctl demo_watch_env ((s, l), \<lambda>_. []) I"
    and I: "I 6 = Some (kReadEvent, 300)" "I 7 = None" and ch: "el_channels l 300 = Some ch"
      "ch_readCallback ch = Some (Client Bound_Acceptor_handleRead)"
    and s: "ts_connections s = Map.empty" "ts_connectionCallback s = Some Echo_onConnection" "el_pending l = []"
      "ts_acceptor s = \<lparr>ac_listenfd = 6, ac_addr = 300, ac_newConnectionCallback = Some Bound_newConnection\<rparr>"
    by blast
  let ?w = "((s, l), \<lambda>_. [])"
  let ?ready = "[(kReadEvent, 300, ?k)] :: (32 word \<times> nat \<times> kernel) list"
  have k: "kernel_doc ?k" "k_accept ?k = 7" by (simp_all add: kernel_doc_def demo_kernel_def write_doc_def)
  have "poll_doc I ?ready"
    using I(1) by (auto simp: poll_doc_def kReadEvent_def kWriteEvent_def)
  then have rd: "round_doc demo_ctl demo_watch_env ?ready ?w I"
    using I(2) k ch(1) s(1) by (simp add: round_doc_def open_conn_def split: sum.split)
  have "\<exists>w'. echo_round demo_watch_env ?ready ?w = Inr w' \<and> open_conn (fst (fst w')) 7"
    using ch s by (simp add: echo_round_def handleEvent_def set_revents_def invoke_def Acceptor_handleRead_def demo_kernel_def
        demo_watch_env_def demo_echo_env_def live_objects_def newConnection_def TcpConnection_new_def b setWriteCallback_def
        setReadCallback_def Channel_new_def Let_def queueInLoop_def wakeup_def EventLoop_update_def
        setConnectionCallback_def setMessageCallback_def server_connectEstablished_def connectEstablished_def
        conn_enableReading_def conn_channel_def echo_onConnection_def kReadEvent_def kWriteEvent_def open_conn_def)
  with no_dangling_channel [OF reach demo_doc rd] reach I(1) show ?thesis by metis
qed

end
