(* ===== verification/RoundFaults.thy ===== *)
theory RoundFaults
  imports Lifetime
begin

text \<open>
  How a round of the echo server can fail: every fault of the model of \<open>net\<close> (src/net) that is not excluded is
  traced to an answer of the kernel.
\<close>

unbundle bit_operations_syntax

section \<open>Causes\<close>

text \<open>
  \<open>accept\<close> fails (an assertion, Acceptor.cc), \<open>write\<close> fails (\<open>out_of_range\<close> in \<open>send\<close>,
  TcpConnection.cc), or there is no memory for a connection.
\<close>

definition cause :: "echo_env \<Rightarrow> kernel \<Rightarrow> fault \<Rightarrow> bool" where
  "cause env k e \<longleftrightarrow>
     e = BadAlloc \<and> (\<exists>used. operator_new (ee_new env) used = None) \<or> e = AssertionFailed \<and> k_accept k = - 1 \<or>
     e = OutOfRange \<and> (\<exists>n. k_write k n = - 1)"

lemma base_faults:
  assumes "base_channel ch" "ac_newConnectionCallback (ts_acceptor s) = Some Bound_newConnection"
    and "invoke (echo_handler env k) (ch_readCallback ch) ((s, l), got) = Inl e"
  shows "cause env k e"
proof -
  from new_buffer_ok [of kInitialSize] obtain b where b: "new_buffer kInitialSize = Inr b"
    by (auto simp: kInitialSize_def vec_max_def)
  from assms show ?thesis
    by (auto simp: base_channel_def invoke_def Acceptor_handleRead_def cassert_def newConnection_def TcpConnection_new_def b
        Let_def cause_def split: if_splits option.splits)
qed

lemma read_faults:
  assumes ci: "conn_inv fd g (c, l)" and len: "length g + 1024 \<le> 2 ^ 62" and k: "kernel_doc k" "k_read k = (n, data)"
    and r: "handleRead (run_messageCallback k) now n data (c, l) = Inl e"
  shows "cause env k e"
proof -
  let ?msg = "take (nat n) data"
  have n: "wrap32 n = n" "nat n \<le> 1024" using k by (auto simp: kernel_doc_def)
  with r have pos: "\<not> n \<le> 0" by (auto simp: handleRead_def split: if_splits)
  have c: "echoes g c" "bound_to fd (c, l)" and mc: "tc_messageCallback c = Some Echo_onMessage"
    using ci len by (simp_all add: conn_inv_def conn_static_def)
  have "length ?msg \<le> 1024" using n(2) by simp
  then have short: "length (g @ ?msg) \<le> 2 ^ 62" "length ?msg < 2 ^ 31" using len by simp_all
  have "writerIndex (tc_inputBuf c) + length ?msg \<le> vec_max" using c(1) short(1) by (simp add: echoes_def vec_max_def)
  from buffer_append_ok [OF _ this] c(1) obtain b where b: "buffer_append ?msg (tc_inputBuf c) = Inr b"
    by (auto simp: echoes_def)
  with r n pos mc have "echo_onMessage (k_write k) (c\<lparr>tc_inputBuf := b\<rparr>, l) = Inl e"
    by (simp add: handleRead_def invoke_def Let_def)
  with echo_send [OF c short b, of "k_write k"] k(1) show ?thesis
    by (auto simp: kernel_doc_def cause_def split: if_splits)
qed

lemma dispatch_faults:
  assumes m: "mid_round env (a # as) fds ((s, l), got) I" and k: "kernel_doc k"
    and acc: "I (k_accept k) = None" "\<not> open_conn s (k_accept k)"
    and len: "\<forall>fd. length (got fd) + 1024 \<le> 2 ^ 62" and r: "dispatch env a k ((s, l), got) = Inl e"
  shows "cause env k e"
proof -
  have inv: "watch_inv env ((s, l), got) I" and reg: "registered I a" "not_writable l a" using m by (simp_all add: mid_round_def)
  from inv have i: "echo_inv ((s, l), got)" "owned env s I" "base_ok env l" "base_mapped env l I"
    "ac_newConnectionCallback (ts_acceptor s) = Some Bound_newConnection"
    by (simp_all add: watch_inv_def)
  from reg(1) obtain fd m where fd: "I fd = Some (m, a)" by (auto simp: registered_def)
  from ownedD [OF i(2) fd] consider (base) "a \<in> ee_base env" | (conn) c where "ts_connections s fd = Some c" "tc_addr c = a"
    by blast
  then show ?thesis
  proof cases
    case base
    have "el_channels l a \<noteq> None" using i(4) fd base unfolding base_mapped_def by blast
    then obtain ch where ch: "el_channels l a = Some ch" by blast
    have "invoke (echo_handler env k) (ch_readCallback ch) ((s, l), got) = Inl e"
      using dispatch_step [OF inv reg acc ch] r by (auto split: if_splits)
    moreover have "base_channel ch" using i(3) base ch by (simp add: base_ok_def)
    ultimately show ?thesis using base_faults i(5) by blast
  next
    case conn
    then have ci: "conn_inv fd (got fd) (c, l)" using i(1) by (simp add: echo_inv_def conns_inv_def)
    with conn obtain ch where ch: "el_channels l a = Some ch" "ch_readCallback ch = Some (Client (Bound_conn_handleRead fd))"
      by (auto simp: conn_inv_def bound_to_def)
    have "invoke (echo_handler env k) (ch_readCallback ch) ((s, l), got) = Inl e"
      using dispatch_step [OF inv reg acc ch(1)] r by (auto split: if_splits)
    moreover obtain n data where nd: "k_read k = (n, data)" by (cases "k_read k")
    ultimately have "handleRead (run_messageCallback k) (ee_now env) n data (c, l) = Inl e"
      using conn(1) ch(2) by (auto simp: invoke_def on_conn_def bind_r_def split: sum.splits)
    from read_faults [OF ci _ k nd this] len show ?thesis by blast
  qed
qed

section \<open>How much one event reads\<close>

lemma handler_got:
  assumes "echo_handler env k h w = Inr w'" "kernel_doc k"
  shows "length (snd w' fd) \<le> length (snd w fd) + 1024"
proof -
  obtain s l got where w: "w = ((s, l), got)" by (metis prod.exhaust)
  have n: "length (take (nat n) data) \<le> 1024" if "k_read k = (n, data)" for n data
    using assms(2) that by (auto simp: kernel_doc_def)
  show ?thesis
  proof (cases h)
    case (Client f)
    show ?thesis
    proof (cases f)
      case Bound_Acceptor_handleRead
      with assms(1) Client w obtain cb where
        "run_newConnectionCallback env cb (k_accept k) ((s, l), got) = Inr w'"
        by (auto simp: Acceptor_handleRead_def cassert_eq_Inr invoke_def split: option.splits)
      then show ?thesis by (cases cb) (auto simp: w bind_r_eq_Inr split: option.splits)
    next
      case (Bound_conn_handleRead x)
      obtain n' data where nd: "k_read k = (n', data)" by (cases "k_read k")
      with assms(1) Client Bound_conn_handleRead w n [OF nd] show ?thesis by (auto simp: bind_r_eq_Inr)
    qed (use assms(1) Client w in \<open>auto simp: bind_r_eq_Inr\<close>)
  qed (use assms(1) w in auto)
qed

lemma dispatch_got:
  assumes m: "mid_round env (a # as) fds w I" and k: "kernel_doc k"
    and acc: "I (k_accept k) = None" "\<not> open_conn (fst (fst w)) (k_accept k)" and r: "dispatch env a k w = Inr w'"
  shows "length (snd w' fd) \<le> length (snd w fd) + 1024"
proof -
  obtain s l got where w: "w = ((s, l), got)" by (metis prod.exhaust)
  have inv: "watch_inv env ((s, l), got) I" and reg: "registered I a" "not_writable l a" using m w by (simp_all add: mid_round_def)
  from r w obtain ch where ch: "el_channels l a = Some ch" by (auto simp: dispatch_def split: option.splits)
  from dispatch_step [OF inv reg _ _ ch, of k] acc r w have
    "w' = w \<or> invoke (echo_handler env k) (ch_readCallback ch) w = Inr w'"
    by (auto split: if_splits)
  then show ?thesis
  proof
    assume "invoke (echo_handler env k) (ch_readCallback ch) w = Inr w'"
    then consider "w' = w" | h where "echo_handler env k h w = Inr w'"
      by (cases "ch_readCallback ch") (simp_all add: invoke_def)
    then show ?thesis by cases (simp, rule handler_got [OF _ k])
  qed simp
qed

section \<open>A round\<close>

lemma events_faults:
  assumes doc: "epoll_set_doc ctl"
  shows "mid_round env (map fst cs) fds w I \<Longrightarrow> answers_doc ctl env cs w I \<Longrightarrow>
    \<forall>fd. length (snd w fd) + 1024 * length cs \<le> 2 ^ 62 \<Longrightarrow> echo_events env cs w = Inl e \<Longrightarrow> \<exists>k\<in>snd ` set cs. cause env k e"
proof (induction cs arbitrary: fds w I)
  case (Cons x cs)
  obtain a k where x: "x = (a, k)" by (cases x)
  obtain s l got where w: "w = ((s, l), got)" by (metis prod.exhaust)
  have m: "mid_round env (a # map fst cs) fds w I" using Cons.prems(1) x by simp
  from Cons.prems(2) x have k: "kernel_doc k" "I (k_accept k) = None" "\<not> open_conn (fst (fst w)) (k_accept k)"
    and rest: "\<And>w'. dispatch env a k w = Inr w' \<Longrightarrow> answers_doc ctl env cs w' (watch ctl w w' I)"
    by (auto split: sum.splits)
  have e: "echo_events env (x # cs) w = bind_r (dispatch env a k w) (echo_events env cs)"
    by (simp add: x dispatch_def split: option.split)
  show ?case
  proof (cases "dispatch env a k w")
    case (Inl e')
    with Cons.prems(4) e have "e' = e" by simp
    have len: "\<forall>fd. length (got fd) + 1024 \<le> 2 ^ 62"
    proof
      fix fd
      have "length (snd w fd) + 1024 * length (x # cs) \<le> 2 ^ 62" using Cons.prems(3) by blast
      then show "length (got fd) + 1024 \<le> 2 ^ 62" by (simp add: w)
    qed
    have "cause env k e"
      using dispatch_faults [OF m [unfolded w] k(1,2) _ len, of e] k(3) Inl w \<open>e' = e\<close> by simp
    then show ?thesis by (simp add: x)
  next
    case (Inr w')
    from mid_event [OF doc m k Inr] obtain fds' where m': "mid_round env (map fst cs) fds' w' (watch ctl w w' I)" by blast
    have "\<forall>fd. length (snd w' fd) + 1024 * length cs \<le> 2 ^ 62"
    proof
      fix fd
      have "length (snd w' fd) \<le> length (snd w fd) + 1024" by (rule dispatch_got [OF m k Inr])
      moreover have "length (snd w fd) + 1024 * length (x # cs) \<le> 2 ^ 62" using Cons.prems(3) by blast
      ultimately show "length (snd w' fd) + 1024 * length cs \<le> 2 ^ 62" by simp
    qed
    from Cons.IH [OF m' rest [OF Inr] this] Cons.prems(4) e Inr show ?thesis by (auto simp: x)
  qed
qed simp

lemma functor_ok:
  assumes inv: "watch_inv env w I" and wait: "waiting_functors (fst (fst w)) I (fd # fds)"
  shows "\<exists>w'. echo_functor (Call (Some (Bound_connectEstablished fd))) w = Inr w'"
proof -
  obtain s l got where w: "w = ((s, l), got)" by (metis prod.exhaust)
  from wait w obtain c where c: "ts_connections s fd = Some c" by (auto simp: waiting_functors_def open_conn_def)
  have ci: "conn_inv fd (got fd) (c, l)" using inv w c by (simp add: watch_inv_def echo_inv_def conns_inv_def)
  then obtain ch where "el_channels l (tc_addr c) = Some ch" by (auto simp: conn_inv_def bound_to_def)
  moreover have "tc_connectionCallback c = Some Echo_onConnection" using ci by (simp add: conn_inv_def conn_static_def)
  ultimately show ?thesis
    using c by (simp add: w invoke_def server_connectEstablished_def connectEstablished_def conn_enableReading_def
        conn_channel_def echo_onConnection_def)
qed

lemma functors_ok:
  assumes doc: "epoll_set_doc ctl"
  shows "watch_inv env w I \<Longrightarrow> waiting_functors (fst (fst w)) I fds \<Longrightarrow>
    \<exists>w'. echo_functors (established_functors fds) w = Inr w'"
proof (induction fds arbitrary: w I)
  case (Cons fd fds)
  from functor_ok [OF Cons.prems] obtain w1 where
    w1: "echo_functor (Call (Some (Bound_connectEstablished fd))) w = Inr w1" by blast
  from functor_step [OF doc Cons.prems w1] Cons.IH obtain w2 where
    "echo_functors (established_functors fds) w1 = Inr w2" by blast
  with w1 show ?case by (simp del: echo_functor.simps)
qed simp

lemma poll_ok:
  assumes inv: "watch_inv env ((s, l), got) I" and doc: "poll_doc I ready"
  shows "\<exists>store chans. Epoller_poll (map (\<lambda>(ev, addr, k). (ev, addr)) ready) (el_channels l) [] = Inr (store, chans)"
proof -
  let ?r = "map (\<lambda>(ev, addr, k). (ev, addr)) ready"
  have "el_channels l a \<noteq> None" if "registered I a" for a
  proof -
    from that obtain fd m where fd: "I fd = Some (m, a)" by (auto simp: registered_def)
    have own: "owned env s I" "base_mapped env l I" using inv by (simp_all add: watch_inv_def)
    from ownedD [OF own(1) fd] show ?thesis
    proof (elim conjE disjE exE)
      assume "a \<in> ee_base env"
      with own(2) fd show ?thesis by (auto simp: base_mapped_def)
    next
      fix c assume "ts_connections s fd = Some c" "tc_addr c = a"
      with inv show ?thesis by (auto simp: watch_inv_def echo_inv_def conns_inv_def conn_inv_def bound_to_def)
    qed
  qed
  moreover have "registered I a" if "a \<in> snd ` set ?r" for a
    using doc that by (fastforce simp: poll_doc_def list_all_iff registered_def)
  moreover have "distinct (map snd ?r)" using doc by (simp add: poll_doc_def comp_def case_prod_beta)
  ultimately show ?thesis using Epoller_poll_result [of ?r "el_channels l" "[]"] by blast
qed

lemma round_fault_cause:
  assumes doc: "epoll_set_doc ctl" and inv: "watch_inv env w I" "el_pending (snd (fst w)) = []" and r: "round_doc ctl env ready w I"
    and len: "\<forall>fd. length (snd w fd) + 1024 * length ready \<le> 2 ^ 62" and e: "echo_round env ready w = Inl e"
  shows "\<exists>(ev, a, k)\<in>set ready. cause env k e"
proof -
  obtain s l got where w: "w = ((s, l), got)" by (metis prod.exhaust)
  have pd: "poll_doc I ready" using r by (simp add: w round_doc_def)
  from poll_ok [OF inv(1) [unfolded w] pd] obtain store chans where
    p: "Epoller_poll (map (\<lambda>(ev, addr, k). (ev, addr)) ready) (el_channels l) [] = Inr (store, chans)" by blast
  let ?w = "((s, l\<lparr>el_channels := store\<rparr>), got)" and ?cs = "zip chans (map (snd \<circ> snd) ready)"
  have ans: "answers_doc ctl env ?cs ?w I" using r w p by (simp add: round_doc_def)
  have m: "mid_round env (map fst ?cs) [] ?w I" by (rule poll_inv [OF _ pd _ p]) (use inv w in auto)
  show ?thesis
  proof (cases "track_events ctl env ?cs ?w I")
    case (Inl e')
    then have ev: "echo_events env ?cs ?w = Inl e'" using track_events_echo [of ctl env ?cs ?w I] by simp
    with e p have "e' = e" by (simp add: w echo_round_def)
    have short: "length ?cs \<le> length ready" by simp
    have "\<forall>fd. length (snd ?w fd) + 1024 * length ?cs \<le> 2 ^ 62"
    proof
      fix fd
      have "length (snd w fd) + 1024 * length ready \<le> 2 ^ 62" using len by blast
      then show "length (snd ?w fd) + 1024 * length ?cs \<le> 2 ^ 62" using mult_le_mono2 [OF short, of 1024] w by simp
    qed
    from events_faults [OF doc m ans this ev] obtain k where "k \<in> snd ` set ?cs" "cause env k e" using \<open>e' = e\<close> by blast
    moreover from this(1) have "k \<in> set (map (snd \<circ> snd) ready)" by (auto dest: set_zip_rightD)
    ultimately show ?thesis by fastforce
  next
    case (Inr wI)
    then obtain s1 l1 got1 I1 where t: "track_events ctl env ?cs ?w I = Inr (((s1, l1), got1), I1)"
      by (metis prod.exhaust)
    then have ev: "echo_events env ?cs ?w = Inr ((s1, l1), got1)" using track_events_echo [of ctl env ?cs ?w I] by simp
    from events_safe [OF doc m ans] t obtain fds where m1: "mid_round env [] fds ((s1, l1), got1) I1" by blast
    let ?w1 = "((s1, l1\<lparr>el_pending := []\<rparr>), got1)"
    from m1 have i1: "watch_inv env ?w1 I1" "waiting_functors s1 I1 fds" "el_pending l1 = established_functors fds"
      using conns_inv_kept [of s1 l1 got1 "l1\<lparr>el_pending := []\<rparr>"]
      by (simp_all add: mid_round_def watch_inv_def unasked_def base_ok_def base_mapped_def echo_inv_def bindings)
    from functors_ok [OF doc i1(1), of fds] i1(2,3) ev p e show ?thesis by (auto simp: w echo_round_def)
  qed
qed

section \<open>Properties\<close>



end
