(* ===== verification/ServerEnd.thy ===== *)
theory ServerEnd
  imports Lifetime
begin

text \<open>
  The end of a server whose loop goes on: the destructors of \<open>EchoServer\<close>, \<open>TcpServer\<close>, \<open>Acceptor\<close>,
  \<open>TcpConnection\<close> and \<open>Channel\<close>. The memory of the loop is \<open>el_channels\<close>; none of them makes a request
  of the kernel. The history variable of \<open>echo_reach\<close> is left out.
\<close>

section \<open>Destructors\<close>

definition Channel_delete :: "nat \<Rightarrow> 'u EventLoop \<Rightarrow> 'u EventLoop" where
  "Channel_delete addr l = l\<lparr>el_channels := (el_channels l)(addr := None)\<rparr>"

text \<open>The body is empty; the member \<open>channel_\<close> goes.\<close>

definition TcpConnection_delete :: "'u TcpConnection \<Rightarrow> 'u EventLoop \<Rightarrow> 'u EventLoop" where
  "TcpConnection_delete conn l = Channel_delete (tc_addr conn) l"

text \<open>With the descriptor that is closed.\<close>

definition Acceptor_delete :: "'u Acceptor \<Rightarrow> 'u EventLoop \<Rightarrow> int list \<times> 'u EventLoop" where
  "Acceptor_delete acceptor l = ([ac_listenfd acceptor], Channel_delete (ac_addr acceptor) l)"

text \<open>
  The members of the server in reverse order: the map, whose keys in order are \<open>fds\<close>, and the acceptor. A
  connection whose \<open>connectEstablished\<close> is still queued is kept by the functor, so the queue is an argument.
\<close>

definition connection_delete :: "(int \<Rightarrow> bool) \<Rightarrow> 'u TcpServer \<Rightarrow> int \<Rightarrow> 'u EventLoop \<Rightarrow> 'u EventLoop" where
  "connection_delete queued s fd l =
     (case ts_connections s fd of
        None \<Rightarrow> l
      | Some conn \<Rightarrow> if queued fd then l else TcpConnection_delete conn l)"

definition TcpServer_delete ::
  "(int \<Rightarrow> bool) \<Rightarrow> int list \<Rightarrow> 'u TcpServer \<Rightarrow> 'u EventLoop \<Rightarrow> int list \<times> 'u EventLoop" where
  "TcpServer_delete queued fds s l = Acceptor_delete (ts_acceptor s) (fold (connection_delete queued s) fds l)"

definition EchoServer_delete :: "int list \<Rightarrow> echo_fn Server \<Rightarrow> int list \<times> echo_fn EventLoop" where
  "EchoServer_delete fds = (\<lambda>(s, l).
     TcpServer_delete (\<lambda>fd. Call (Some (Bound_connectEstablished fd)) \<in> set (el_pending l)) fds s l)"

text \<open>The descriptors that the destructor of a loop closes. That of \<open>Epoller\<close> is empty.\<close>

definition Epoller_delete :: "int \<Rightarrow> int list" where
  "Epoller_delete epfd = []"

definition TimerQueue_delete :: "int \<Rightarrow> int list" where
  "TimerQueue_delete timerfd = [timerfd]"

definition EventLoop_delete :: "int \<Rightarrow> int \<Rightarrow> int \<Rightarrow> int list" where
  "EventLoop_delete epfd eventfd timerfd = [eventfd] @ Epoller_delete epfd @ TimerQueue_delete timerfd"

lemma epoll_descriptor_leaks: "distinct [epfd, eventfd, timerfd] \<Longrightarrow> epfd \<notin> set (EventLoop_delete epfd eventfd timerfd)"
  by (simp add: EventLoop_delete_def Epoller_delete_def TimerQueue_delete_def)

section \<open>What is left\<close>

lemma Channel_delete_simps [simp]:
  "el_channels (Channel_delete a l) = (el_channels l)(a := None)"
  "el_pending (Channel_delete a l) = el_pending l" "el_requests (Channel_delete a l) = el_requests l"
  by (simp_all add: Channel_delete_def)

lemma connections_deleted:
  assumes "ts_connections s fd = Some c" "\<not> queued fd" "fd \<in> set fds"
  shows "el_channels (fold (connection_delete queued s) fds l) (tc_addr c) = None"
proof -
  have keep: "el_channels l p = None \<Longrightarrow> el_channels (fold (connection_delete queued s) xs l) p = None" for xs l p
  proof (induction xs arbitrary: l)
    case (Cons x xs)
    then have "el_channels (connection_delete queued s x l) p = None"
      by (simp add: connection_delete_def TcpConnection_delete_def split: option.split)
    with Cons.IH show ?case by simp
  qed simp
  from assms(3) obtain xs ys where fds: "fds = xs @ fd # ys" by (auto simp: in_set_conv_decomp)
  have "el_channels (connection_delete queued s fd l') (tc_addr c) = None" for l'
    using assms(1,2) by (simp add: connection_delete_def TcpConnection_delete_def)
  then show ?thesis by (simp add: fds keep)
qed

lemma deleted_requests [simp]: "el_requests (snd (EchoServer_delete fds (s, l))) = el_requests l"
proof -
  have "el_requests (fold (connection_delete q s) xs l) = el_requests l" for q xs and l :: "echo_fn EventLoop"
    by (induction xs arbitrary: l) (simp_all add: connection_delete_def TcpConnection_delete_def split: option.split)
  then show ?thesis by (simp add: EchoServer_delete_def TcpServer_delete_def Acceptor_delete_def)
qed

lemma poll_dead:
  "(ev, p) \<in> set ready \<Longrightarrow> store p = None \<Longrightarrow> Epoller_poll ready store chans = Inl Undefined"
proof (induction ready arbitrary: store chans)
  case (Cons r ready)
  obtain ev' a where r: "r = (ev', a)" by (cases r)
  show ?case
  proof (cases "store a")
    case (Some ch)
    have "Epoller_poll ready (store(a \<mapsto> set_revents ev' ch)) (chans @ [a]) = Inl Undefined"
      by (rule Cons.IH) (use Cons.prems r Some in auto)
    with Some show ?thesis by (simp add: r)
  qed (simp add: r)
qed simp

section \<open>Properties\<close>

text \<open>
  C37. Destroying the server closes its listening descriptor only. A client that was connected stays connected, its
  descriptor stays in the kernel's set with the pointer of a channel that is gone, and the next time it sends
  something the loop uses that channel.
\<close>

theorem destroyed_server_dangles:
  assumes "watched_reach ctl env ((s, l), got) I" "epoll_set_doc ctl" "set fds = dom (ts_connections s)"
    and "EchoServer_delete fds (s, l) = (shut, l')" "open_conn s fd" "I fd = Some (m, p)" "fd \<noteq> ac_listenfd (ts_acceptor s)"
  shows "fd \<notin> set shut \<and> el_requests l' = el_requests l \<and> el_channels l p \<noteq> None \<and> el_channels l' p = None \<and>
    (\<forall>ready ev. (ev, p) \<in> set ready \<longrightarrow> Epoller_poll ready (el_channels l') [] = Inl Undefined)"
proof -
  from watched_inv [OF assms(1,2)] have inv: "watch_inv env ((s, l), got) I" "el_pending l = []" by simp_all
  from assms(5) obtain c where c: "ts_connections s fd = Some c" by (auto simp: open_conn_def)
  have "owned env s I" using inv(1) by (simp add: watch_inv_def)
  from ownedD [OF this assms(6)] c have p: "p = tc_addr c" by auto
  have "conn_inv fd (got fd) (c, l)" using inv(1) c by (simp add: watch_inv_def echo_inv_def conns_inv_def)
  then have old: "el_channels l p \<noteq> None" by (auto simp: conn_inv_def bound_to_def p)
  have "fd \<in> set fds" using assms(3) c by auto
  from connections_deleted [OF c _ this, of "\<lambda>_. False" l] have
    "el_channels (fold (connection_delete (\<lambda>_. False) s) fds l) p = None" by (simp add: p)
  then have gone: "el_channels l' p = None" and shut: "shut = [ac_listenfd (ts_acceptor s)]"
    using assms(4) inv(2) by (auto simp: EchoServer_delete_def TcpServer_delete_def Acceptor_delete_def)
  have "el_requests l' = el_requests l" using deleted_requests [of fds s l] assms(4) by simp
  with gone shut old assms(7) show ?thesis by (simp add: poll_dead)
qed

text \<open>The client 7 arrives, and the server is destroyed.\<close>

lemma demo_connected:
  "\<exists>s l got I m p. watched_reach demo_ctl demo_watch_env ((s, l), got) I \<and> open_conn s 7 \<and>
    dom (ts_connections s) = {7} \<and> I 7 = Some (m, p) \<and> ac_listenfd (ts_acceptor s) = 6"
proof -
  let ?k = "demo_kernel [] (\<lambda>_. 0)"
  from new_buffer_ok [of kInitialSize] obtain b where b: "new_buffer kInitialSize = Inr b"
    by (auto simp: kInitialSize_def vec_max_def)
  from demo_server obtain s l I ch where reach: "watched_reach demo_ctl demo_watch_env ((s, l), \<lambda>_. []) I"
    and I: "I 6 = Some (kReadEvent, 300)" "I 7 = None" and ch: "el_channels l 300 = Some ch"
      "ch_readCallback ch = Some (Client Bound_Acceptor_handleRead)"
    and s: "ts_connections s = Map.empty" "ts_connectionCallback s = Some Echo_onConnection" "el_pending l = []"
      "ts_acceptor s = \<lparr>ac_listenfd = 6, ac_addr = 300, ac_newConnectionCallback = Some Bound_newConnection\<rparr>"
    by blast
  let ?w = "((s, l), \<lambda>_. [])"
  let ?ready = "[(kReadEvent, 300, ?k)] :: (32 word \<times> nat \<times> kernel) list"
  have k: "kernel_doc ?k" "k_accept ?k = 7" by (simp_all add: kernel_doc_def demo_kernel_def write_doc_def)
  have "poll_doc I ?ready"
    using I(1) by (auto simp: poll_doc_def kReadEvent_def kWriteEvent_def)
  then have rd: "round_doc demo_ctl demo_watch_env ?ready ?w I"
    using I(2) k ch(1) s(1) by (simp add: round_doc_def open_conn_def split: sum.split)
  have "\<exists>s' l' got' I' m p. track_round demo_ctl demo_watch_env ?ready ?w I = Inr (((s', l'), got'), I') \<and> open_conn s' 7 \<and>
      dom (ts_connections s') = {7} \<and> I' 7 = Some (m, p) \<and> ac_listenfd (ts_acceptor s') = 6"
    using ch s I(2) by (simp add: track_round_def dispatch_def watch_def demo_ctl_def closed_fd_def handleEvent_def set_revents_def
        invoke_def Acceptor_handleRead_def demo_kernel_def demo_watch_env_def demo_echo_env_def live_objects_def newConnection_def
        TcpConnection_new_def b setWriteCallback_def setReadCallback_def Channel_new_def Let_def queueInLoop_def wakeup_def
        EventLoop_update_def setConnectionCallback_def setMessageCallback_def server_connectEstablished_def connectEstablished_def
        conn_enableReading_def conn_channel_def echo_onConnection_def kReadEvent_def kWriteEvent_def open_conn_def
        enableReading_def Channel_update_def Epoller_update_def)
  with watched_round [OF reach rd] show ?thesis by blast
qed

theorem destroyed_server_dangles_witness:
  "\<exists>s l got I m p l'. watched_reach demo_ctl demo_watch_env ((s, l), got) I \<and> open_conn s 7 \<and>
    EchoServer_delete [7] (s, l) = ([6], l') \<and> I 7 = Some (m, p) \<and> el_channels l p \<noteq> None \<and>
    Epoller_poll [(kReadEvent, p)] (el_channels l') [] = Inl Undefined"
proof -
  from demo_connected obtain s l got I m p where
    d: "watched_reach demo_ctl demo_watch_env ((s, l), got) I" "open_conn s 7" "I 7 = Some (m, p)"
    and dom: "dom (ts_connections s) = {7}" and fd: "ac_listenfd (ts_acceptor s) = 6" by blast
  have e: "EchoServer_delete [7] (s, l) = ([6], snd (EchoServer_delete [7] (s, l)))"
    using fd by (simp add: EchoServer_delete_def TcpServer_delete_def Acceptor_delete_def)
  have ne: "(7::int) \<noteq> ac_listenfd (ts_acceptor s)" "set [7] = dom (ts_connections s)" using fd dom by simp_all
  from destroyed_server_dangles [OF d(1) demo_doc ne(2) e d(2,3) ne(1)] d e show ?thesis by (metis list.set_intros(1))
qed

end
