(* ===== verification/HttpService.thy ===== *)
theory HttpService
  imports HttpServer TcpServer
begin

text \<open>
  The object of \<open>net::HttpServer\<close> (src/net/http/HttpServer.h, HttpServer.cc): a \<open>TcpServer\<close> whose callbacks
  are the handlers of theory HttpServer, bound to it, and the user's callback. The sources call members of
  \<open>TcpServer\<close> that the class does not have (a constructor with four arguments, \<open>getLoop\<close>,
  \<open>setThreadNum\<close>) and a \<open>defaultHttpCallback\<close> that is not declared: these are parameters.
\<close>

record 'u HttpServer =
  hs_server :: "'u TcpServer"
  hs_httpCallback :: HttpCallback

type_synonym 'u tcp_server_new = "'u EventLoop \<Rightarrow> 'u Server res"

definition HttpServer_new ::
  "'u tcp_server_new \<Rightarrow> HttpCallback \<Rightarrow> 'u \<Rightarrow> 'u \<Rightarrow> 'u EventLoop \<Rightarrow> ('u HttpServer \<times> 'u EventLoop) res" where
  "HttpServer_new tcp_server defaultHttpCallback bound_onConnection bound_onMessage l =
     bind_r (tcp_server l) (\<lambda>(server, l).
       let h = \<lparr>hs_server = server, hs_httpCallback = defaultHttpCallback\<rparr>;
           h = h\<lparr>hs_server := server_setConnectionCallback (Some bound_onConnection) (hs_server h)\<rparr>;
           h = h\<lparr>hs_server := server_setMessageCallback (Some bound_onMessage) (hs_server h)\<rparr>
       in Inr (h, l))"

definition HttpServer_getLoop :: "('u TcpServer \<Rightarrow> 'l) \<Rightarrow> 'u HttpServer \<Rightarrow> 'l" where
  "HttpServer_getLoop server_getLoop h = server_getLoop (hs_server h)"

definition setHttpCallback :: "HttpCallback \<Rightarrow> 'u HttpServer \<Rightarrow> 'u HttpServer" where
  "setHttpCallback cb h = h\<lparr>hs_httpCallback := cb\<rparr>"

definition HttpServer_setThreadNum :: "(int \<Rightarrow> 'u TcpServer \<Rightarrow> 'u TcpServer) \<Rightarrow> int \<Rightarrow> 'u HttpServer \<Rightarrow> 'u HttpServer" where
  "HttpServer_setThreadNum server_setThreadNum numThreads h = h\<lparr>hs_server := server_setThreadNum numThreads (hs_server h)\<rparr>"

definition HttpServer_start :: "'u HttpServer \<times> 'u EventLoop \<Rightarrow> ('u HttpServer \<times> 'u EventLoop) res" where
  "HttpServer_start = (\<lambda>(h, l). bind_r (start (hs_server h, l)) (\<lambda>(server, l). Inr (h\<lparr>hs_server := server\<rparr>, l)))"

lemma start_server: "start (s, l) = Inr (s', l') \<Longrightarrow> s' = s"
  by (auto simp: start_def bind_r_eq_Inr)

text \<open>
  Whatever the missing constructor does, setting the user's callback in between included: the connections of a
  server that is started call its handlers.
\<close>

lemma http_connection_callbacks:
  assumes "HttpServer_new tcp_server dflt onConn onMsg l = Inr (h, l1)"
    and "HttpServer_start (setHttpCallback cb h, l1) = Inr (h', l2)"
    and "newConnection addr r w e fd (hs_server h', l2) = Inr (s, l3)"
  shows "hs_httpCallback h' = cb \<and>
    (\<exists>c. ts_connections s fd = Some c \<and> tc_connectionCallback c = Some onConn \<and> tc_messageCallback c = Some onMsg)"
proof -
  from assms(1) have h: "ts_connectionCallback (hs_server h) = Some onConn" "ts_messageCallback (hs_server h) = Some onMsg"
    by (auto simp: HttpServer_new_def bind_r_eq_Inr Let_def server_setConnectionCallback_def server_setMessageCallback_def)
  moreover from assms(2) have "hs_server h' = hs_server h" "hs_httpCallback h' = cb"
    by (auto simp: HttpServer_start_def setHttpCallback_def bind_r_eq_Inr dest: start_server)
  ultimately show ?thesis
    using assms(3) by (auto simp: newConnection_def bind_r_eq_Inr Let_def setConnectionCallback_def setMessageCallback_def)
qed

end
