(* ===== verification/HttpSession.thy ===== *)
theory HttpSession
  imports HttpServer
begin

text \<open>
  A conversation with \<open>net::HttpServer\<close>: what \<open>TcpConnection::handleRead\<close> (src/net/TcpConnection.cc)
  does with each piece it reads, the server's \<open>onMessage\<close> (src/net/http/HttpServer.cc) included, on the input
  buffer and the context of one connection. The calls the handler makes of the connection are listed in order.
\<close>

section \<open>Reading piece by piece\<close>

type_synonym http_conn = "HttpContext option \<times> buffer"

definition http_piece ::
  "HttpCallback \<Rightarrow> Timestamp \<times> string \<Rightarrow> http_conn \<Rightarrow> (conn_call list \<times> http_conn) res option" where
  "http_piece cb = (\<lambda>(now, data) (context, buf).
     case buffer_append data buf of
       Inl e \<Rightarrow> Some (Inl e)
     | Inr buf \<Rightarrow> onMessage crlf cb now context buf)"

fun http_input ::
  "HttpCallback \<Rightarrow> (Timestamp \<times> string) list \<Rightarrow> http_conn \<Rightarrow> (conn_call list \<times> http_conn) res option" where
  "http_input cb [] s = Some (Inr ([], s))"
| "http_input cb (x # xs) s =
     (case http_piece cb x s of
        None \<Rightarrow> None
      | Some (Inl e) \<Rightarrow> Some (Inl e)
      | Some (Inr (calls, s)) \<Rightarrow>
          (case http_input cb xs s of
             None \<Rightarrow> None
           | Some (Inl e) \<Rightarrow> Some (Inl e)
           | Some (Inr (calls', s)) \<Rightarrow> Some (Inr (calls @ calls', s))))"

section \<open>Parsing and time\<close>

lemma headers_timeless:
  assumes "state c = kExpectHeaders"
  shows "parse_text k t c xs = parse_text k t' c xs \<and>
    (\<forall>ok c' r. parse_text k t c xs = Inr (ok, c', r) \<longrightarrow> state c' \<noteq> kExpectRequestLine)"
  using assms
proof (induction "length xs" arbitrary: xs c rule: less_induct)
  case less
  show ?case
  proof (cases "line_of k xs")
    case None
    with less.prems show ?thesis by (subst (1 2 3) parse_text.simps) simp
  next
    case (Some lr)
    obtain line rest where l: "line_of k xs = Some (line, rest)" using Some by (cases lr) simp
    let ?c = "c\<lparr>request := addHeader line (std_find (CHR '':'') line) (request c)\<rparr>"
    have "state ?c = kExpectHeaders" using less.prems by simp
    from less.hyps [OF line_of_shorter [OF l] this] l less.prems show ?thesis
      by (subst (1 2 3) parse_text.simps) simp
  qed
qed

lemma parse_no_request_line:
  assumes "parse_text k t c xs = Inr (True, c', r)" "state c = kExpectRequestLine" "state c' = kExpectRequestLine"
  shows "c' = c \<and> r = xs"
proof (cases "line_of k xs")
  case None
  with assms(1) show ?thesis by (subst (asm) parse_text.simps) simp
next
  case (Some lr)
  with assms(1,2) obtain c1 rest where "parse_text k t (got_request_line t c1) rest = Inr (True, c', r)"
    by (cases lr, subst (asm) parse_text.simps) (auto split: sum.splits if_splits)
  moreover have "state (got_request_line t c1) = kExpectHeaders" by (simp add: got_request_line_def)
  ultimately show ?thesis using headers_timeless [of "got_request_line t c1" k t rest t] assms(3) by blast
qed


section \<open>One request\<close>

lemma onMessage_parsed:
  assumes "wf_buffer b" "parsing c" "parse_text crlf now c (content b) = Inr (True, c1, r1)"
  shows "\<exists>b'. wf_buffer b' \<and> content b' = r1 \<and> writerIndex b' \<le> writerIndex b \<and>
    onMessage crlf cb now (Some c) b =
      (if gotAll c1 then Some (bind_r (onRequest cb (request c1)) (\<lambda>answer. Inr (answer, Some (HttpContext_reset c1), b')))
       else Some (Inr ([], Some c1, b')))"
proof -
  have "length crlf = 2" by (simp add: crlf_def)
  from parse_loop_text [OF assms(1) this assms(2), of now] assms(3) obtain b' where
    "parseRequest crlf b now c = Some (Inr (True, c1, b'))" "wf_buffer b'" "content b' = r1"
    "writerIndex b' \<le> writerIndex b"
    by (auto simp: parseRequest_def)
  then show ?thesis by (intro exI [of _ b']) (simp add: onMessage_def)
qed

text \<open>What is known after the bytes \<open>f\<close> of a request that is not complete.\<close>

definition waiting :: "string \<Rightarrow> HttpContext \<Rightarrow> buffer \<Rightarrow> bool" where
  "waiting f c b \<longleftrightarrow> wf_buffer b \<and> parsing c \<and>
     (\<exists>t. parse_text crlf t HttpContext_new f = Inr (True, c, content b)) \<and>
     (state c = kExpectRequestLine \<longrightarrow> c = HttpContext_new \<and> content b = f)"

lemma waiting_parse:
  assumes "waiting f c b"
  shows "\<exists>t'. parse_text crlf t c (content b @ x) = parse_text crlf t' HttpContext_new (f @ x)"
proof (cases "state c = kExpectRequestLine")
  case True
  with assms show ?thesis by (auto simp: waiting_def)
next
  case False
  have n: "length crlf = 2" "parsing HttpContext_new" by (simp_all add: crlf_def parsing_def HttpContext_new_def)
  from assms obtain t' where t': "parse_text crlf t' HttpContext_new f = Inr (True, c, content b)"
    by (auto simp: waiting_def)
  have h: "state c = kExpectHeaders" using assms False by (simp add: waiting_def parsing_def)
  then have "parse_text crlf t' HttpContext_new (f @ x) = parse_text crlf t' c (content b @ x)"
    using parse_text_append [OF t' n, of x] by simp
  with headers_timeless [OF h, of crlf t "content b @ x" t'] show ?thesis by (intro exI [of _ t']) simp
qed

text \<open>A request, its text, and the calls that answer it when its request line came at the time \<open>t\<close>.\<close>

type_synonym http_request = "Method \<times> string \<times> string \<times> Version \<times> string_map"

definition text_of :: "http_request \<Rightarrow> string" where
  "text_of = (\<lambda>(m, p, q, v, hs). request_text m p q v hs)"

definition request_ok :: "http_request \<Rightarrow> bool" where
  "request_ok = (\<lambda>(m, p, q, v, hs). m \<noteq> kInvalid \<and> v \<noteq> kUnknown \<and> target_ok p q \<and> list_all header_ok hs)"

definition response_to :: "HttpCallback \<Rightarrow> http_request \<Rightarrow> Timestamp \<Rightarrow> HttpResponse" where
  "response_to cb = (\<lambda>(m, p, q, v, hs) t.
     cb (parsed_request m p q v hs t) (HttpResponse_new (wants_close (parsed_request m p q v hs t))))"

definition response_ok :: "HttpResponse \<Rightarrow> bool" where
  "response_ok r \<longleftrightarrow> length (response_text r) + 8 \<le> vec_max \<and> length (body r) < 10 ^ 13"

definition answer :: "HttpResponse \<Rightarrow> conn_call list" where
  "answer r = Send (response_text r) # (if closeConnection r then [Shutdown] else [])"

lemma waiting_piece:
  assumes w: "waiting f c b" and ok: "request_ok rq" "\<And>t. response_ok (response_to cb rq t)"
    and bytes: "f @ x @ later = text_of rq" and room: "writerIndex b + length x \<le> vec_max"
  shows "\<exists>b'. wf_buffer b' \<and> writerIndex b' \<le> writerIndex b + length x \<and>
    (if later = []
     then content b' = [] \<and>
       (\<exists>t. http_piece cb (now, x) (Some c, b) = Some (Inr (answer (response_to cb rq t), Some HttpContext_new, b')))
     else \<exists>c'. http_piece cb (now, x) (Some c, b) = Some (Inr ([], Some c', b')) \<and> waiting (f @ x) c' b')"
proof -
  obtain m p q v hs where rq: "rq = (m, p, q, v, hs)" by (metis prod.exhaust)
  note rq_ok = ok(1) [unfolded rq request_ok_def prod.case]
  have n: "length crlf = 2" "parsing HttpContext_new" by (simp_all add: crlf_def parsing_def HttpContext_new_def)
  have wf: "wf_buffer b" "parsing c" using w by (simp_all add: waiting_def)
  from buffer_append_ok [OF wf(1) room] obtain b1 where b1: "buffer_append x b = Inr b1" "wf_buffer b1"
    "content b1 = content b @ x" "writerIndex b1 \<le> writerIndex b + length x" by auto
  from waiting_parse [OF w, of now x] obtain t where
    t: "parse_text crlf now c (content b1) = parse_text crlf t HttpContext_new (f @ x)" by (auto simp: b1(3))
  let ?req = "parsed_request m p q v hs t"
  let ?all = "\<lparr>state = kGotAll, request = ?req\<rparr>"
  have whole: "parse_text crlf t HttpContext_new ((f @ x) @ later) = Inr (True, ?all, [])"
    using parse_request_text [of m v p q hs t "[]"] rq_ok bytes by (simp add: rq text_of_def parsed_request_def)
  show ?thesis
  proof (cases "later = []")
    case True
    then have "parse_text crlf now c (content b1) = Inr (True, ?all, [])" using whole t by simp
    from onMessage_parsed [OF b1(2) wf(2) this, of cb] obtain b' where
      b': "wf_buffer b'" "content b' = []" "writerIndex b' \<le> writerIndex b1"
        "onMessage crlf cb now (Some c) b1 = Some (bind_r (onRequest cb ?req)
          (\<lambda>answer. Inr (answer, Some (HttpContext_reset ?all), b')))"
      by (auto simp: gotAll_def)
    have "HttpContext_reset ?all = HttpContext_new"
      by (simp add: HttpContext_reset_def HttpRequest_swap_def HttpContext_new_def)
    moreover have "onRequest cb ?req = Inr (answer (response_to cb rq t))"
      using onRequest_ok [of cb ?req] ok(2) [of t] by (simp add: response_to_def rq response_ok_def answer_def Let_def)
    ultimately have "http_piece cb (now, x) (Some c, b) = Some (Inr (answer (response_to cb rq t), Some HttpContext_new, b'))"
      using b'(4) b1(1) by (simp add: http_piece_def)
    with b' b1(4) True show ?thesis by fastforce
  next
    case False
    from parse_text_append_bad [OF whole n] obtain c1 r1 where
      c1: "parse_text crlf t HttpContext_new (f @ x) = Inr (True, c1, r1)" by blast
    from parse_text_append [OF c1 n, of later] whole False have
      g: "state c1 \<noteq> kGotAll" "parsing c1" by auto
    from onMessage_parsed [OF b1(2) wf(2), of now c1 r1 cb] t c1 g(1) obtain b' where
      b': "wf_buffer b'" "content b' = r1" "writerIndex b' \<le> writerIndex b1"
        "onMessage crlf cb now (Some c) b1 = Some (Inr ([], Some c1, b'))"
      by (auto simp: gotAll_def)
    have "waiting (f @ x) c1 b'"
      using b' c1 g(2) parse_no_request_line [OF c1] by (auto simp: waiting_def HttpContext_new_def)
    moreover have "http_piece cb (now, x) (Some c, b) = Some (Inr ([], Some c1, b'))"
      using b'(4) b1(1) by (simp add: http_piece_def)
    ultimately show ?thesis using b' b1(4) False by fastforce
  qed
qed

definition bytes_of :: "(Timestamp \<times> string) list \<Rightarrow> string" where
  "bytes_of ps = concat (map snd ps)"

lemma http_input_append:
  "http_input cb (xs @ ys) s =
    (case http_input cb xs s of
       None \<Rightarrow> None
     | Some (Inl e) \<Rightarrow> Some (Inl e)
     | Some (Inr (calls, s)) \<Rightarrow>
         (case http_input cb ys s of
            None \<Rightarrow> None
          | Some (Inl e) \<Rightarrow> Some (Inl e)
          | Some (Inr (calls', s)) \<Rightarrow> Some (Inr (calls @ calls', s))))"
proof (induction xs arbitrary: s)
  case (Cons x xs)
  show ?case
  proof (cases "http_piece cb x s")
    case (Some r)
    then show ?thesis
      by (cases r) (auto simp: Cons.IH split: option.splits sum.splits)
  qed simp
qed (auto split: option.splits sum.splits)

lemma request_pieces:
  assumes "waiting f c b" "request_ok rq" "\<And>t. response_ok (response_to cb rq t)"
    and "f @ bytes_of ps = text_of rq" "bytes_of ps \<noteq> []" "list_all (\<lambda>x. snd x \<noteq> []) ps"
    and "writerIndex b + length (bytes_of ps) \<le> vec_max"
  shows "\<exists>t b'. http_input cb ps (Some c, b) = Some (Inr (answer (response_to cb rq t), Some HttpContext_new, b')) \<and>
    wf_buffer b' \<and> content b' = [] \<and> writerIndex b' \<le> writerIndex b + length (bytes_of ps)"
  using assms
proof (induction ps arbitrary: f c b)
  case Nil
  then show ?case by (simp add: bytes_of_def)
next
  case (Cons piece ps)
  obtain now x where piece: "piece = (now, x)" by (cases piece)
  have b: "bytes_of (piece # ps) = x @ bytes_of ps" by (simp add: bytes_of_def piece)
  have bytes: "f @ x @ bytes_of ps = text_of rq" and room: "writerIndex b + length x \<le> vec_max"
    using Cons.prems(4,7) by (simp_all add: b)
  from waiting_piece [OF Cons.prems(1-3) bytes room, of now] obtain b1 where
    b1: "wf_buffer b1" "writerIndex b1 \<le> writerIndex b + length x"
      "if bytes_of ps = []
       then content b1 = [] \<and>
         (\<exists>t. http_piece cb piece (Some c, b) = Some (Inr (answer (response_to cb rq t), Some HttpContext_new, b1)))
       else \<exists>c'. http_piece cb piece (Some c, b) = Some (Inr ([], Some c', b1)) \<and> waiting (f @ x) c' b1"
    by (auto simp: piece)
  show ?case
  proof (cases "bytes_of ps = []")
    case True
    with Cons.prems(6) have "ps = []" by (cases ps) (auto simp: bytes_of_def)
    with b1 True b show ?thesis by (auto simp: bytes_of_def)
  next
    case False
    with b1(3) obtain c' where c': "http_piece cb piece (Some c, b) = Some (Inr ([], Some c', b1))"
      "waiting (f @ x) c' b1" by auto
    have "writerIndex b1 + length (bytes_of ps) \<le> vec_max" using b1(2) Cons.prems(7) by (simp add: b)
    from Cons.IH [OF c'(2) Cons.prems(2,3) _ False _ this] bytes Cons.prems(6) obtain t b' where
      "http_input cb ps (Some c', b1) = Some (Inr (answer (response_to cb rq t), Some HttpContext_new, b'))"
      "wf_buffer b'" "content b' = []" "writerIndex b' \<le> writerIndex b1 + length (bytes_of ps)"
      by auto
    with c'(1) b1(2) show ?thesis by (intro exI [of _ t] exI [of _ b']) (simp add: b)
  qed
qed

section \<open>A conversation\<close>

lemma fresh_waiting: "wf_buffer b \<Longrightarrow> content b = [] \<Longrightarrow> waiting [] HttpContext_new b"
proof -
  have "line_of crlf [] = None" by (simp add: line_of_def)
  then have "parse_text crlf t HttpContext_new [] = Inr (True, HttpContext_new, [])" for t
    by (subst parse_text.simps) simp
  then show "wf_buffer b \<Longrightarrow> content b = [] \<Longrightarrow> waiting [] HttpContext_new b"
    by (simp add: waiting_def parsing_def HttpContext_new_def)
qed

lemma text_of_nonempty: "text_of rq \<noteq> []"
  by (simp add: text_of_def request_text_def crlf_def split: prod.splits)

lemma conversation:
  assumes "wf_buffer b" "content b = []" "list_all request_ok rqs" "\<And>rq t. response_ok (response_to cb rq t)"
    and "list_all2 (\<lambda>rq ps. bytes_of ps = text_of rq \<and> list_all (\<lambda>x. snd x \<noteq> []) ps) rqs pss"
    and "writerIndex b + length (concat (map text_of rqs)) \<le> vec_max"
  shows "\<exists>ts b'. length ts = length rqs \<and>
    http_input cb (concat pss) (Some HttpContext_new, b) =
      Some (Inr (concat (map2 (\<lambda>rq t. answer (response_to cb rq t)) rqs ts), Some HttpContext_new, b')) \<and>
    content b' = []"
  using assms
proof (induction rqs arbitrary: pss b)
  case Nil
  then show ?case by simp
next
  case (Cons rq rqs)
  from Cons.prems(5) obtain ps pss' where pss: "pss = ps # pss'" "bytes_of ps = text_of rq"
    "list_all (\<lambda>x. snd x \<noteq> []) ps"
    "list_all2 (\<lambda>rq ps. bytes_of ps = text_of rq \<and> list_all (\<lambda>x. snd x \<noteq> []) ps) rqs pss'"
    by (auto simp: list_all2_Cons1)
  have "request_ok rq" "writerIndex b + length (bytes_of ps) \<le> vec_max" using Cons.prems(3,6) pss(2) by simp_all
  from request_pieces [OF fresh_waiting [OF Cons.prems(1,2)] this(1) Cons.prems(4) _ _ pss(3) this(2)] pss(2) text_of_nonempty
  obtain t b1 where b1:
    "http_input cb ps (Some HttpContext_new, b) = Some (Inr (answer (response_to cb rq t), Some HttpContext_new, b1))"
    "wf_buffer b1" "content b1 = []" "writerIndex b1 \<le> writerIndex b + length (bytes_of ps)"
    by auto
  have "writerIndex b1 + length (concat (map text_of rqs)) \<le> vec_max" using b1(4) Cons.prems(6) pss(2) by simp
  from Cons.IH [OF b1(2,3) _ Cons.prems(4) pss(4) this] Cons.prems(3) obtain ts b' where
    "length ts = length rqs"
    "http_input cb (concat pss') (Some HttpContext_new, b1) =
      Some (Inr (concat (map2 (\<lambda>rq t. answer (response_to cb rq t)) rqs ts), Some HttpContext_new, b'))"
    "content b' = []"
    by auto
  with b1(1) show ?case
    by (intro exI [of _ "t # ts"] exI [of _ b']) (simp add: pss(1) http_input_append)
qed

section \<open>Properties\<close>



end
