(* ===== verification/HttpExample.thy ===== *)
theory HttpExample
  imports Prelude
begin

text \<open>
  The server of src/examples/httpserver/httpserver.cc: a loop of its own around edge-triggered \<open>epoll\<close>,
  which accepts clients and hands their tasks to a thread pool. \<open>task\<close>, \<open>threadpool\<close> and the functions
  of \<open>sysutils.h\<close> are not in the repository: the constructor of a task and its \<open>fd\<close> are parameters, the
  calls of the others are listed in order as values.
\<close>

unbundle bit_operations_syntax

section \<open>The program\<close>

definition EPOLLIN :: "32 word" where
  "EPOLLIN = 0x001"

definition EPOLLET :: "32 word" where
  "EPOLLET = 0x80000000"

definition MAXEVENTSIZE :: nat where
  "MAXEVENTSIZE = 2048"

record 't task_ops =
  task_new :: "int \<Rightarrow> int \<Rightarrow> 't"
  task_fd :: "'t \<Rightarrow> int"

datatype 't os_call =
    Setnonblocking int
  | Event_add int int "32 word" 't
  | Add_task 't

record 't http_example =
  hx_listenfd :: int
  hx_epollfd :: int
  hx_calls :: "'t os_call list"

text \<open>\<open>accept\<close> has returned \<open>clientfd\<close>; what \<open>event_add\<close> returns is not looked at.\<close>

definition do_accept :: "'t task_ops \<Rightarrow> int \<Rightarrow> int \<Rightarrow> 't os_call list" where
  "do_accept tk epollfd clientfd =
     (let newtask = task_new tk epollfd clientfd
      in [Setnonblocking clientfd, Event_add epollfd clientfd (EPOLLIN OR EPOLLET) newtask])"

record set_up =
  su_socket :: int
  su_bind :: int
  su_listen :: int
  su_epoll_create1 :: int
  su_event_add :: int

definition main_set_up :: "'t task_ops \<Rightarrow> set_up \<Rightarrow> 't http_example res" where
  "main_set_up tk su =
     (let listenfd = su_socket su
      in cassert (listenfd \<noteq> - 1)
        (cassert (su_bind su = 0)
        (cassert (su_listen su = 0)
          (let epollfd = su_epoll_create1 su
           in cassert (epollfd > 0)
             (let listentask = task_new tk epollfd listenfd
              in cassert (su_event_add su = 0)
                (Inr \<lparr>hx_listenfd = listenfd, hx_epollfd = epollfd,
                      hx_calls = [Setnonblocking listenfd, Event_add epollfd listenfd (EPOLLIN OR EPOLLET) listentask]\<rparr>))))))"

text \<open>One element of \<open>clients\<close>, with what \<open>accept\<close> would return.\<close>

definition one_client :: "'t task_ops \<Rightarrow> 32 word \<times> 't \<times> int \<Rightarrow> 't http_example \<Rightarrow> 't http_example" where
  "one_client tk = (\<lambda>(events, t, clientfd) h.
     let fd = task_fd tk t
     in if fd = hx_listenfd h \<and> events AND EPOLLIN \<noteq> 0
        then h\<lparr>hx_calls := hx_calls h @ do_accept tk (hx_epollfd h) clientfd\<rparr>
        else if events AND EPOLLIN \<noteq> 0 then h\<lparr>hx_calls := hx_calls h @ [Add_task t]\<rparr>
        else h)"

text \<open>The body of the loop: \<open>epoll_wait\<close> has filled the array and returned \<open>nready\<close>, - 1 included.\<close>

definition main_round :: "'t task_ops \<Rightarrow> int \<Rightarrow> (32 word \<times> 't \<times> int) list \<Rightarrow> 't http_example \<Rightarrow> 't http_example" where
  "main_round tk nready clients h = fold (one_client tk) (take (nat nready) clients) h"

fun main_rounds :: "'t task_ops \<Rightarrow> (int \<times> (32 word \<times> 't \<times> int) list) list \<Rightarrow> 't http_example \<Rightarrow> 't http_example" where
  "main_rounds tk [] h = h"
| "main_rounds tk ((nready, clients) # rs) h = main_rounds tk rs (main_round tk nready clients h)"

section \<open>What it relies on\<close>

definition task_doc :: "'t task_ops \<Rightarrow> bool" where
  "task_doc tk \<longleftrightarrow> (\<forall>epollfd fd. task_fd tk (task_new tk epollfd fd) = fd)"

text \<open>
  \<open>epoll_wait\<close> fills in at most \<open>MAXEVENTSIZE\<close> elements, with pointers that were registered;
  \<open>accept\<close> returns no descriptor that is open.
\<close>

definition wait_doc :: "int \<Rightarrow> (32 word \<times> 't \<times> int) list \<Rightarrow> 't http_example \<Rightarrow> bool" where
  "wait_doc nready clients h \<longleftrightarrow>
     nready \<le> int MAXEVENTSIZE \<and> length clients = MAXEVENTSIZE \<and>
     list_all (\<lambda>(events, t, clientfd). clientfd \<noteq> hx_listenfd h \<and>
       (\<exists>fd m. Event_add (hx_epollfd h) fd m t \<in> set (hx_calls h))) (take (nat nready) clients)"

inductive example_reach :: "'t task_ops \<Rightarrow> 't http_example \<Rightarrow> bool" for tk where
  example_start: "main_set_up tk su = Inr h \<Longrightarrow> example_reach tk h"
| example_round: "example_reach tk h \<Longrightarrow> wait_doc nready clients h \<Longrightarrow> example_reach tk (main_round tk nready clients h)"

inductive_cases example_reachE: "example_reach tk h"

section \<open>Who gets into the pool\<close>

text \<open>
  Every registered pointer is a task made for the descriptor it is registered with; what a task in the pool stands
  for was accepted, made non-blocking and registered before.
\<close>

definition made_task :: "'t task_ops \<Rightarrow> 't http_example \<Rightarrow> 't os_call \<Rightarrow> bool" where
  "made_task tk h c \<longleftrightarrow>
     (\<forall>e fd m t. c = Event_add e fd m t \<longrightarrow>
        e = hx_epollfd h \<and> m = EPOLLIN OR EPOLLET \<and> t = task_new tk (hx_epollfd h) fd)"

definition accepted_before :: "'t task_ops \<Rightarrow> 't http_example \<Rightarrow> 't os_call list \<Rightarrow> 't \<Rightarrow> bool" where
  "accepted_before tk h before t \<longleftrightarrow>
     (\<exists>fd. fd \<noteq> hx_listenfd h \<and> t = task_new tk (hx_epollfd h) fd \<and>
        {Setnonblocking fd, Event_add (hx_epollfd h) fd (EPOLLIN OR EPOLLET) t} \<subseteq> set before)"

definition blocking_registered :: "'t os_call list \<Rightarrow> bool" where
  "blocking_registered calls \<longleftrightarrow>
     (\<exists>e fd m t. Event_add e fd m t \<in> set calls \<and> Setnonblocking fd \<notin> set calls)"

definition example_inv :: "'t task_ops \<Rightarrow> 't http_example \<Rightarrow> bool" where
  "example_inv tk h \<longleftrightarrow>
     list_all (made_task tk h) (hx_calls h) \<and> \<not> blocking_registered (hx_calls h) \<and>
     (\<forall>before t after. hx_calls h = before @ Add_task t # after \<longrightarrow> accepted_before tk h before t)"

lemma accepted_before_mono: "accepted_before tk h xs t \<Longrightarrow> accepted_before tk h (xs @ ys) t"
  by (auto simp: accepted_before_def)

lemma one_client_fixed [simp]:
  "hx_listenfd (one_client tk x h) = hx_listenfd h" "hx_epollfd (one_client tk x h) = hx_epollfd h"
  by (simp_all add: one_client_def Let_def split: prod.split)

lemma main_round_fixed [simp]:
  "hx_listenfd (main_round tk n cs h) = hx_listenfd h" "hx_epollfd (main_round tk n cs h) = hx_epollfd h"
proof -
  have "hx_listenfd (fold (one_client tk) xs h) = hx_listenfd h \<and> hx_epollfd (fold (one_client tk) xs h) = hx_epollfd h" for xs
    by (induction xs arbitrary: h) simp_all
  then show "hx_listenfd (main_round tk n cs h) = hx_listenfd h" "hx_epollfd (main_round tk n cs h) = hx_epollfd h"
    by (simp_all add: main_round_def)
qed

lemma one_client_cases:
  obtains (same) "one_client tk (ev, t, a) h = h"
  | (accepts) "task_fd tk t = hx_listenfd h"
      "one_client tk (ev, t, a) h = h\<lparr>hx_calls := hx_calls h @ do_accept tk (hx_epollfd h) a\<rparr>"
  | (task) "task_fd tk t \<noteq> hx_listenfd h" "one_client tk (ev, t, a) h = h\<lparr>hx_calls := hx_calls h @ [Add_task t]\<rparr>"
proof (cases "ev AND EPOLLIN = 0")
  case True
  then show ?thesis by (intro same) (simp add: one_client_def)
next
  case False
  then show ?thesis
    by (cases "task_fd tk t = hx_listenfd h") (rule accepts, simp_all add: task one_client_def)
qed

lemma split_snoc:
  "xs @ [y] = before @ z # after \<longleftrightarrow> before = xs \<and> after = [] \<and> y = z \<or> (\<exists>zs. xs = before @ z # zs \<and> after = zs @ [y])"
  by (cases after rule: rev_cases) auto

lemma blocking_registered_append:
  assumes "\<not> blocking_registered cs" "\<And>e fd m t. Event_add e fd m t \<in> set ds \<Longrightarrow> Setnonblocking fd \<in> set ds"
  shows "\<not> blocking_registered (cs @ ds)"
  using assms unfolding blocking_registered_def set_append by blast

lemma one_client_inv:
  assumes inv: "example_inv tk h" and doc: "task_doc tk" and a: "a \<noteq> hx_listenfd h"
    and t: "Event_add (hx_epollfd h) fd m t \<in> set (hx_calls h)"
  shows "example_inv tk (one_client tk (ev, t, a) h) \<and> set (hx_calls h) \<subseteq> set (hx_calls (one_client tk (ev, t, a) h))"
proof (cases rule: one_client_cases [of tk ev t a h])
  case same
  with inv show ?thesis by simp
next
  case accepts
  have m: "made_task tk (h\<lparr>hx_calls := cs\<rparr>) = made_task tk h" "accepted_before tk (h\<lparr>hx_calls := cs\<rparr>) = accepted_before tk h" for cs
    by (simp_all add: made_task_def accepted_before_def fun_eq_iff)
  let ?n = "task_new tk (hx_epollfd h) a"
  have eq: "hx_calls h @ do_accept tk (hx_epollfd h) a =
      (hx_calls h @ [Setnonblocking a]) @ [Event_add (hx_epollfd h) a (EPOLLIN OR EPOLLET) ?n]"
    by (simp add: do_accept_def Let_def)
  have "accepted_before tk h before s" if "hx_calls h @ do_accept tk (hx_epollfd h) a = before @ Add_task s # after" for before s after
  proof -
    from that obtain zs where "hx_calls h = before @ Add_task s # zs" unfolding eq split_snoc by auto
    with inv show ?thesis by (simp add: example_inv_def)
  qed
  moreover have "\<not> blocking_registered (hx_calls h @ do_accept tk (hx_epollfd h) a)"
    by (rule blocking_registered_append) (use inv in \<open>simp_all add: example_inv_def do_accept_def Let_def\<close>)
  moreover have "list_all (made_task tk h) (hx_calls h @ do_accept tk (hx_epollfd h) a)"
    using inv by (simp add: example_inv_def do_accept_def Let_def made_task_def)
  ultimately show ?thesis by (simp add: accepts(2) example_inv_def m)
next
  case task
  have m: "made_task tk (h\<lparr>hx_calls := cs\<rparr>) = made_task tk h" "accepted_before tk (h\<lparr>hx_calls := cs\<rparr>) = accepted_before tk h" for cs
    by (simp_all add: made_task_def accepted_before_def fun_eq_iff)
  have "made_task tk h (Event_add (hx_epollfd h) fd m t)" using inv t unfolding example_inv_def list_all_iff by blast
  then have new: "m = EPOLLIN OR EPOLLET" "t = task_new tk (hx_epollfd h) fd" by (simp_all add: made_task_def)
  with doc task(1) have "fd \<noteq> hx_listenfd h" by (simp add: task_doc_def)
  moreover have "Setnonblocking fd \<in> set (hx_calls h)" 
    using inv t unfolding example_inv_def blocking_registered_def by blast
  ultimately have before: "accepted_before tk h (hx_calls h) t"
    using t new unfolding accepted_before_def by blast
  then have "accepted_before tk h before s" if "hx_calls h @ [Add_task t] = before @ Add_task s # after" for before s after
  proof -
    from that consider "before = hx_calls h" "s = t" | zs where "hx_calls h = before @ Add_task s # zs"
      unfolding split_snoc by auto
    then show ?thesis using inv before by cases (simp_all add: example_inv_def)
  qed
  moreover have "\<not> blocking_registered (hx_calls h @ [Add_task t])"
    by (rule blocking_registered_append) (use inv in \<open>simp_all add: example_inv_def\<close>)
  moreover have "list_all (made_task tk h) (hx_calls h @ [Add_task t])"
    using inv by (simp add: example_inv_def made_task_def)
  ultimately show ?thesis by (simp add: task(2) example_inv_def m subset_insertI)
qed

lemma main_round_inv:
  assumes inv: "example_inv tk h" and doc: "task_doc tk" "wait_doc nready clients h"
  shows "example_inv tk (main_round tk nready clients h)"
proof -
  have "list_all (\<lambda>(ev, t, a). a \<noteq> hx_listenfd h \<and> (\<exists>fd m. Event_add (hx_epollfd h) fd m t \<in> set (hx_calls h))) xs \<Longrightarrow>
    example_inv tk h \<Longrightarrow> example_inv tk (fold (one_client tk) xs h)" for xs
  proof (induction xs arbitrary: h)
    case (Cons x xs)
    obtain ev t a where x: "x = (ev, t, a)" by (metis prod.exhaust)
    with Cons.prems obtain fd m where t: "a \<noteq> hx_listenfd h" "Event_add (hx_epollfd h) fd m t \<in> set (hx_calls h)" by auto
    from one_client_inv [OF Cons.prems(2) doc(1) t] have
      n: "example_inv tk (one_client tk x h)" "set (hx_calls h) \<subseteq> set (hx_calls (one_client tk x h))" by (simp_all add: x)
    have "list_all (\<lambda>(ev, t, a). a \<noteq> hx_listenfd (one_client tk x h) \<and>
        (\<exists>fd m. Event_add (hx_epollfd (one_client tk x h)) fd m t \<in> set (hx_calls (one_client tk x h)))) xs"
      using Cons.prems(1) n(2) by (fastforce simp: list_all_iff)
    from Cons.IH [OF this n(1)] show ?case by simp
  qed simp
  with inv doc(2) show ?thesis by (simp add: main_round_def wait_doc_def)
qed

lemma example_reach_inv:
  assumes "example_reach tk h" "task_doc tk"
  shows "example_inv tk h"
  using assms(1)
proof induction
  case (example_start su h)
  then show ?case
    by (auto simp: main_set_up_def Let_def cassert_eq_Inr example_inv_def made_task_def blocking_registered_def
        Cons_eq_append_conv)
next
  case (example_round h nready clients)
  with main_round_inv assms(2) show ?case by blast
qed

section \<open>Who is accepted\<close>

text \<open>The descriptors registered, in order, and those a round accepts.\<close>

definition registrations :: "'t os_call list \<Rightarrow> int list" where
  "registrations calls = concat (map (\<lambda>c. case c of Event_add e fd m t \<Rightarrow> [fd] | _ \<Rightarrow> []) calls)"

definition accepts :: "'t task_ops \<Rightarrow> int \<Rightarrow> (32 word \<times> 't \<times> int) list \<Rightarrow> int list" where
  "accepts tk listenfd ready =
     map (snd \<circ> snd) (filter (\<lambda>(ev, t, a). task_fd tk t = listenfd \<and> ev AND EPOLLIN \<noteq> 0) ready)"

lemma registrations_simps [simp]:
  "registrations (xs @ ys) = registrations xs @ registrations ys"
  "registrations [] = []" "registrations (Setnonblocking fd # xs) = registrations xs"
  "registrations (Add_task t # xs) = registrations xs" "registrations (Event_add e fd m t # xs) = fd # registrations xs"
  by (simp_all add: registrations_def)

lemma round_registrations:
  "registrations (hx_calls (main_round tk n cs h)) = registrations (hx_calls h) @ accepts tk (hx_listenfd h) (take (nat n) cs)"
proof -
  have "registrations (hx_calls (fold (one_client tk) xs h)) = registrations (hx_calls h) @ accepts tk (hx_listenfd h) xs" for xs
  proof (induction xs arbitrary: h)
    case (Cons x xs)
    obtain ev t a where x: "x = (ev, t, a)" by (metis prod.exhaust)
    show ?case
      using Cons.IH [of "one_client tk x h"] by (simp add: x accepts_def one_client_def do_accept_def Let_def)
  qed (simp add: accepts_def)
  then show ?thesis by (simp add: main_round_def)
qed

text \<open>
  Edge-triggered: a descriptor is reported when something new has arrived on it since the last wait, and once.
  \<open>bursts\<close> has, for each wait, the clients that arrived before it.
\<close>

definition edge_doc :: "'t task_ops \<Rightarrow> int \<Rightarrow> int list list \<Rightarrow> (int \<times> (32 word \<times> 't \<times> int) list) list \<Rightarrow> bool" where
  "edge_doc tk listenfd bursts rs \<longleftrightarrow>
     list_all2 (\<lambda>burst (nready, clients).
       length (accepts tk listenfd (take (nat nready) clients)) \<le> (if burst = [] then 0 else 1)) bursts rs"

lemma rounds_registrations:
  "edge_doc tk (hx_listenfd h) bursts rs \<Longrightarrow>
    length (registrations (hx_calls (main_rounds tk rs h))) + (\<Sum>burst\<leftarrow>bursts. length burst - 1) \<le>
    length (registrations (hx_calls h)) + length (concat bursts)"
proof (induction bursts arbitrary: rs h)
  case (Cons burst bursts)
  then obtain nready clients rs' where rs: "rs = (nready, clients) # rs'"
    and le: "length (accepts tk (hx_listenfd h) (take (nat nready) clients)) \<le> (if burst = [] then 0 else 1)"
    and rest: "edge_doc tk (hx_listenfd (main_round tk nready clients h)) bursts rs'"
    by (auto simp: edge_doc_def list_all2_Cons1)
  show ?case
    using Cons.IH [OF rest] le by (cases burst) (simp_all add: rs round_registrations)
qed (simp add: edge_doc_def)

lemma rounds_extend: "\<exists>fds. registrations (hx_calls (main_rounds tk rs h)) = registrations (hx_calls h) @ fds"
proof (induction rs arbitrary: h)
  case (Cons r rs)
  from Cons.IH [of "main_round tk (fst r) (snd r) h"] show ?case by (cases r) (auto simp: round_registrations)
qed simp

section \<open>Properties\<close>


text \<open>
  A client is accepted, and then sends twice: its task is handed to the pool a second time, though the pool is
  to delete a task that it has run.
\<close>

definition demo_tasks :: "(int \<times> int) task_ops" where
  "demo_tasks = \<lparr>task_new = Pair, task_fd = snd\<rparr>"

definition demo_wait :: "32 word \<times> (int \<times> int) \<times> int \<Rightarrow> (32 word \<times> (int \<times> int) \<times> int) list" where
  "demo_wait x = x # replicate (MAXEVENTSIZE - 1) (0, (0, 0), 0)"

lemma demo_round:
  "main_round demo_tasks 1 (demo_wait x) h = one_client demo_tasks x h"
  "wait_doc 1 (demo_wait (ev, t, a)) h \<longleftrightarrow>
    a \<noteq> hx_listenfd h \<and> (\<exists>fd m. Event_add (hx_epollfd h) fd m t \<in> set (hx_calls h))"
  by (simp_all add: main_round_def demo_wait_def wait_doc_def MAXEVENTSIZE_def)

lemma demo_step:
  assumes "example_reach demo_tasks h" "a \<noteq> hx_listenfd h" "Event_add (hx_epollfd h) fd m t \<in> set (hx_calls h)"
  shows "example_reach demo_tasks (one_client demo_tasks (ev, t, a) h)"
proof -
  have "wait_doc 1 (demo_wait (ev, t, a)) h" using assms(2,3) unfolding demo_round by blast
  from example_round [OF assms(1) this] show ?thesis by (simp add: demo_round)
qed




end
