(* ===== verification/LocalTime.thy ===== *)
theory LocalTime
  imports TimeZone
begin

text \<open>
  \<open>toLocalTime\<close> and \<open>fromLocalTime\<close> (src/base/TimeZone.cc) in zones with daylight saving: the two searches,
  by time and by local time, agree except in the hour a change back repeats, which \<open>fromLocalTime\<close> tells apart
  by \<open>tm_isdst\<close>.
\<close>

section \<open>Zones with daylight saving\<close>

definition local_of :: "Data \<Rightarrow> Transition \<Rightarrow> Localtime" where
  "local_of d x = localtimes d ! nat (tr_localtimeIdx x)"

text \<open>
  From the local time \<open>l\<close> on: every transition carries its local time as the reader computes it, an offset
  decreases only at the end of daylight saving time and then by an hour, and changes are at least an hour apart.
\<close>

fun daylight :: "Data \<Rightarrow> Localtime \<Rightarrow> Transition list \<Rightarrow> bool" where
  "daylight d l [] \<longleftrightarrow> True"
| "daylight d l (x # xs) \<longleftrightarrow>
     tr_localtime x = tr_gmttime x + lt_gmtOffset (local_of d x) \<and>
     (lt_gmtOffset l \<le> lt_gmtOffset (local_of d x) \<or>
      lt_isDst l \<and> \<not> lt_isDst (local_of d x) \<and> lt_gmtOffset l = lt_gmtOffset (local_of d x) + 3600) \<and>
     (case xs of
        [] \<Rightarrow> True
      | y # ys \<Rightarrow> tr_gmttime x + 3600 \<le> tr_gmttime y \<and> tr_localtime x + 3600 \<le> tr_localtime y) \<and>
     daylight d (local_of d x) xs"

definition daylight_zone :: "Data \<Rightarrow> bool" where
  "daylight_zone d \<longleftrightarrow>
     localtimes d \<noteq> [] \<and>
     list_all (\<lambda>x. 0 \<le> tr_localtimeIdx x \<and> tr_localtimeIdx x < int (length (localtimes d))) (transitions d) \<and>
     list_all (\<lambda>l. \<bar>lt_gmtOffset l\<bar> \<le> kSecondsPerDay \<and>
       0 \<le> lt_arrbIdx l \<and> lt_arrbIdx l \<le> int (length (zone_abbreviation d))) (localtimes d) \<and>
     daylight d (hd (localtimes d)) (transitions d)"

text \<open>The local time in force at \<open>s\<close>, by a walk along the transitions.\<close>

fun walk :: "(Transition \<Rightarrow> int) \<Rightarrow> Data \<Rightarrow> Localtime \<Rightarrow> Transition list \<Rightarrow> int \<Rightarrow> Localtime" where
  "walk key d l [] s = l"
| "walk key d l (x # xs) s = (if s < key x then l else walk key d (local_of d x) xs s)"

lemma daylight_hd:
  "daylight d l xs \<Longrightarrow> x \<in> set xs \<Longrightarrow> tr_gmttime (hd xs) \<le> tr_gmttime x \<and> tr_localtime (hd xs) \<le> tr_localtime x"
proof (induction xs arbitrary: l)
  case (Cons y ys)
  from Cons.prems Cons.IH [of "local_of d y"] show ?case by (cases ys) auto
qed simp

lemma daylight_sorted:
  assumes "daylight d l xs"
  shows "sorted_wrt (\<lambda>x y. tr_gmttime x < tr_gmttime y) xs" "sorted_wrt (\<lambda>x y. tr_localtime x < tr_localtime y) xs"
proof -
  have "sorted_wrt (\<lambda>x y. tr_gmttime x < tr_gmttime y \<and> tr_localtime x < tr_localtime y) xs"
    using assms
  proof (induction xs arbitrary: l)
    case (Cons x xs)
    from Cons.prems have d: "daylight d (local_of d x) xs" by simp
    from Cons.IH [OF d] daylight_hd [OF d] Cons.prems show ?case by (cases xs) fastforce+
  qed simp
  then show "sorted_wrt (\<lambda>x y. tr_gmttime x < tr_gmttime y) xs" "sorted_wrt (\<lambda>x y. tr_localtime x < tr_localtime y) xs"
    by (blast intro: sorted_wrt_mono_rel [rotated])+
qed

lemma walk_filter:
  assumes "sorted_wrt (\<lambda>x y. key x < key y) xs"
  shows "walk key d l xs s =
    (case rev (filter (\<lambda>x. \<not> s < key x) xs) of [] \<Rightarrow> l | x # _ \<Rightarrow> local_of d x)"
  using assms
proof (induction xs arbitrary: l)
  case (Cons x xs)
  show ?case
  proof (cases "s < key x")
    case True
    with Cons.prems have "filter (\<lambda>x. \<not> s < key x) xs = []" by (auto simp: filter_empty_conv)
    with True show ?thesis by simp
  next
    case False
    with Cons show ?thesis by (auto split: list.splits)
  qed
qed simp

lemma in_force_walk:
  assumes "daylight d l (transitions d)" "l = hd (localtimes d)"
  shows "in_force d (Transition_of s u i) \<lparr>compareGmt = True\<rparr> = walk tr_gmttime d l (transitions d) s"
    and "in_force d (Transition_of u s i) \<lparr>compareGmt = False\<rparr> = walk tr_localtime d l (transitions d) s"
  using daylight_sorted [OF assms(1)] assms(2)
  by (simp_all add: walk_filter in_force_def Comp_less_def Transition_of_def local_of_def split: list.split)

lemma walk_reaches:
  assumes "daylight d l (x # xs)" "tr_gmttime x \<le> t"
  shows "tr_localtime x \<le> t + lt_gmtOffset (walk tr_gmttime d (local_of d x) xs t)"
  using assms
proof (induction xs arbitrary: l x)
  case (Cons y ys)
  show ?case
  proof (cases "t < tr_gmttime y")
    case False
    with Cons.IH [of "local_of d x" y] Cons.prems show ?thesis by simp
  qed (use Cons.prems in simp)
qed simp

text \<open>Looking for a local time finds the offset it was made with, or the one an hour less that follows it.\<close>

lemma walk_local:
  fixes t :: int
  assumes "daylight d l xs"
  defines "a \<equiv> walk tr_gmttime d l xs t"
  defines "b \<equiv> walk tr_localtime d l xs (t + lt_gmtOffset a)"
  shows "b = a \<or> lt_isDst a \<and> \<not> lt_isDst b \<and> lt_gmtOffset a = lt_gmtOffset b + 3600 \<and>
    walk tr_gmttime d l xs (t + 3600) = b"
  using assms(1) unfolding a_def b_def
proof (induction xs arbitrary: l)
  case (Cons x xs)
  show ?case
  proof (cases "t < tr_gmttime x")
    case True
    show ?thesis
    proof (cases "t + lt_gmtOffset l < tr_localtime x")
      case False
      with Cons.prems True show ?thesis by (cases xs) auto
    qed (use True in simp)
  next
    case False
    with walk_reaches [OF Cons.prems, of t] Cons.IH [of "local_of d x"] Cons.prems show ?thesis by simp
  qed
qed simp

lemma walk_in:
  "localtimes d \<noteq> [] \<Longrightarrow> l \<in> set (localtimes d) \<Longrightarrow>
    list_all (\<lambda>x. 0 \<le> tr_localtimeIdx x \<and> tr_localtimeIdx x < int (length (localtimes d))) xs \<Longrightarrow>
    walk key d l xs s \<in> set (localtimes d)"
  by (induction xs arbitrary: l) (auto simp: local_of_def nat_less_iff)

section \<open>The conversions\<close>

lemma find_local:
  assumes "daylight_zone d"
  shows "findLocaltime d (Transition_of s u i) \<lparr>compareGmt = True\<rparr> =
      Inr (walk tr_gmttime d (hd (localtimes d)) (transitions d) s)"
    and "findLocaltime d (Transition_of u s i) \<lparr>compareGmt = False\<rparr> =
      Inr (walk tr_localtime d (hd (localtimes d)) (transitions d) s)"
proof -
  have d: "daylight d (hd (localtimes d)) (transitions d)" using assms by (simp add: daylight_zone_def)
  have "Comp_less c = (\<lambda>x y. if compareGmt c then tr_gmttime x < tr_gmttime y else tr_localtime x < tr_localtime y)" for c
    by (intro ext) (simp add: Comp_less_def)
  then have "zone_wf c d" for c
    using assms daylight_sorted [OF d] by (cases "compareGmt c") (simp_all add: zone_wf_def daylight_zone_def)
  then show "findLocaltime d (Transition_of s u i) \<lparr>compareGmt = True\<rparr> =
      Inr (walk tr_gmttime d (hd (localtimes d)) (transitions d) s)"
    "findLocaltime d (Transition_of u s i) \<lparr>compareGmt = False\<rparr> =
      Inr (walk tr_localtime d (hd (localtimes d)) (transitions d) s)"
    by (simp_all add: findLocaltime_last in_force_walk [OF d])
qed

lemma toLocalTime_walk:
  fixes t :: int
  assumes "daylight_zone d"
  defines "l \<equiv> walk tr_gmttime d (hd (localtimes d)) (transitions d) t"
  assumes "utc_range (t + lt_gmtOffset l)"
  shows "\<exists>zone. toLocalTime (Some d) t = Inr ((gmtime_r (t + lt_gmtOffset l))
    \<lparr>tm_isdst := (if lt_isDst l then 1 else 0), tm_gmtoff := lt_gmtOffset l, tm_zone := zone\<rparr>)"
proof -
  have "l \<in> set (localtimes d)" using assms(1) unfolding l_def by (intro walk_in) (auto simp: daylight_zone_def)
  then have "\<exists>zone. zone_at d (lt_arrbIdx l) = Inr zone"
    using assms(1) by (simp add: daylight_zone_def list_all_iff zone_at_def)
  moreover have "add64 t (lt_gmtOffset l) = t + lt_gmtOffset l" using assms(3) by (simp add: add64_def utc_range_def)
  ultimately show ?thesis
    using find_local(1) [OF assms(1), of t 0 0] by (auto simp: toLocalTime_def cassert_def Let_def simp flip: l_def)
qed

lemma local_roundtrip:
  assumes "daylight_zone d" "utc_range t" "utc_range (t - kSecondsPerDay)" "utc_range (t + kSecondsPerDay)"
  shows "\<exists>u. toLocalTime (Some d) t = Inr u \<and> timegm u = t + tm_gmtoff u \<and> fromLocalTime (Some d) u = Inr t"
proof -
  let ?w = "walk tr_gmttime d (hd (localtimes d)) (transitions d)"
  let ?v = "walk tr_localtime d (hd (localtimes d)) (transitions d)"
  define a where "a = ?w t"
  define b where "b = ?v (t + lt_gmtOffset a)"
  have "a \<in> set (localtimes d)" using assms(1) unfolding a_def by (intro walk_in) (auto simp: daylight_zone_def)
  then have "\<bar>lt_gmtOffset a\<bar> \<le> kSecondsPerDay" using assms(1) by (simp add: daylight_zone_def list_all_iff)
  with assms(2-4) have r: "utc_range (t + lt_gmtOffset a)" by (auto simp: utc_range_def kSecondsPerDay_def)
  from toLocalTime_walk [OF assms(1), of t] r obtain zone where
    u: "toLocalTime (Some d) t = Inr ((gmtime_r (t + lt_gmtOffset a))
      \<lparr>tm_isdst := (if lt_isDst a then 1 else 0), tm_gmtoff := lt_gmtOffset a, tm_zone := zone\<rparr>)" (is "_ = Inr ?u")
    by (auto simp: a_def)
  have g: "timegm ?u = t + lt_gmtOffset a" by (rule timegm_gmtime [OF r]) simp_all
  have f: "findLocaltime d (Transition_of 0 (timegm ?u) 0) \<lparr>compareGmt = False\<rparr> = Inr b"
    using find_local(2) [OF assms(1)] by (simp add: g b_def)
  have w: "b = a \<or> lt_isDst a \<and> \<not> lt_isDst b \<and> lt_gmtOffset a = lt_gmtOffset b + 3600 \<and> ?w (t + 3600) = b"
    using walk_local [of d "hd (localtimes d)" "transitions d" t] assms(1)
    unfolding a_def b_def by (simp add: daylight_zone_def)
  show ?thesis
  proof (cases "b = a")
    case True
    have "sub64 (t + lt_gmtOffset a) (lt_gmtOffset a) = t" using assms(2) by (simp add: sub64_def utc_range_def)
    then have "fromLocalTime (Some d) ?u = Inr t"
      using f u by (simp add: fromLocalTime_def cassert_def g True Let_def)
    with u g show ?thesis by (intro exI [of _ ?u]) simp
  next
    case False
    with w have b: "lt_isDst a" "\<not> lt_isDst b" "lt_gmtOffset a = lt_gmtOffset b + 3600" "?w (t + 3600) = b" by auto
    from toLocalTime_walk [OF assms(1), of "t + 3600"] r b obtain zone' where
      v: "toLocalTime (Some d) (t + 3600) = Inr ((gmtime_r (t + lt_gmtOffset a))
        \<lparr>tm_isdst := 0, tm_gmtoff := lt_gmtOffset b, tm_zone := zone'\<rparr>)"
      by (auto simp: algebra_simps)
    have "sub64 (t + lt_gmtOffset a) (lt_gmtOffset b) = t + 3600"
      "sub64 (sub64 (t + lt_gmtOffset a) 3600) (lt_gmtOffset b) = t"
      using assms(2) r by (simp_all add: b(3) sub64_def utc_range_def)
    then have "fromLocalTime (Some d) ?u = Inr t"
      using f v b(1) g [unfolded if_P [OF b(1)]] by (simp add: fromLocalTime_def cassert_def Let_def)
    with u g show ?thesis by (intro exI [of _ ?u]) simp
  qed
qed

section \<open>Properties\<close>



end
