(* ===== verification/ThreadStart.thy ===== *)
theory ThreadStart
  imports Thread
begin

text \<open>
  \<open>Thread::start\<close> and the new thread side by side (src/base/Thread.cc: \<open>ThreadData\<close>, \<open>startThread\<close>): the two
  run in any order, over the memory of the \<open>Thread\<close> object, which its owner may destroy as soon as \<open>start\<close> has
  returned, and of the \<open>ThreadData\<close>. A pointer to a member of the object is the address of the object, NULL is
  \<open>None\<close>.
\<close>

section \<open>The new thread\<close>

record 'f ThreadData =
  td_func :: 'f
  td_name :: string
  td_tid :: "nat option"
  td_latch :: "nat option"

definition ThreadData_new :: "'f \<Rightarrow> string \<Rightarrow> nat option \<Rightarrow> nat option \<Rightarrow> 'f ThreadData" where
  "ThreadData_new func name tid latch = \<lparr>td_func = func, td_name = name, td_tid = tid, td_latch = latch\<rparr>"

text \<open>The statement of \<open>runInThread\<close> or \<open>startThread\<close> the thread is at.\<close>

datatype child_pc = Set_tid | Reset_tid | Count_down | Reset_latch | Set_name | Run_func | Delete_data | Ended thread_end

datatype starter_pc = At_start | At_wait | At_check | Started | Joined | Destroyed

record 'f start_state =
  objects :: "nat \<Rightarrow> 'f Thread option"
  thread_data :: "'f ThreadData option"
  child :: "child_pc option"
  child_locals :: thread_locals
  starter :: starter_pc

definition deref_thread :: "nat option \<Rightarrow> 'f start_state \<Rightarrow> (nat \<times> 'f Thread) res" where
  "deref_thread p s =
     (case p of
        None \<Rightarrow> Inl Undefined
      | Some a \<Rightarrow> (case objects s a of None \<Rightarrow> Inl Undefined | Some th \<Rightarrow> Inr (a, th)))"

definition set_thread :: "nat \<Rightarrow> 'f Thread \<Rightarrow> 'f start_state \<Rightarrow> 'f start_state" where
  "set_thread a th s = s\<lparr>objects := (objects s)(a \<mapsto> th)\<rparr>"

text \<open>\<open>None\<close> where the thread cannot run; \<open>f\<close> is how \<open>func_\<close> ends.\<close>

definition child_step :: "int \<Rightarrow> func_outcome \<Rightarrow> 'f start_state \<Rightarrow> 'f start_state res option" where
  "child_step gettid f s =
     (case (child s, thread_data s) of
        (Some Set_tid, Some d) \<Rightarrow>
          Some (let (t, loc) = current_tid gettid (child_locals s)
                in bind_r (deref_thread (td_tid d) s) (\<lambda>(a, th).
                     Inr (set_thread a (th\<lparr>th_tid := t\<rparr>) (s\<lparr>child_locals := loc, child := Some Reset_tid\<rparr>))))
      | (Some Reset_tid, Some d) \<Rightarrow>
          Some (Inr (s\<lparr>thread_data := Some (d\<lparr>td_tid := None\<rparr>), child := Some Count_down\<rparr>))
      | (Some Count_down, Some d) \<Rightarrow>
          Some (bind_r (deref_thread (td_latch d) s) (\<lambda>(a, th).
                  case countDown (th_latch th) of
                    Done l r ns \<Rightarrow> Inr (set_thread a (th\<lparr>th_latch := l\<rparr>) (s\<lparr>child := Some Reset_latch\<rparr>))
                  | Failed e \<Rightarrow> Inl e
                  | Wait_on c \<Rightarrow> Inl Undefined))
      | (Some Reset_latch, Some d) \<Rightarrow>
          Some (Inr (s\<lparr>thread_data := Some (d\<lparr>td_latch := None\<rparr>), child := Some Set_name\<rparr>))
      | (Some Set_name, Some d) \<Rightarrow>
          Some (Inr (s\<lparr>child_locals := (child_locals s)
                         \<lparr>t_threadName := (if td_name d = [] then ''g5c_thread'' else td_name d)\<rparr>,
                       child := Some Run_func\<rparr>))
      | (Some Run_func, Some d) \<Rightarrow>
          Some (Inr (case runInThread_end f (child_locals s) of
                       (Thread_ends, loc) \<Rightarrow> s\<lparr>child_locals := loc, child := Some Delete_data\<rparr>
                     | (e, loc) \<Rightarrow> s\<lparr>child_locals := loc, child := Some (Ended e)\<rparr>))
      | (Some Delete_data, Some d) \<Rightarrow> Some (Inr (s\<lparr>thread_data := None, child := Some (Ended Thread_ends)\<rparr>))
      | (Some (Ended e), _) \<Rightarrow> None
      | (Some _, None) \<Rightarrow> Some (Inl Undefined)
      | (None, _) \<Rightarrow> None)"

section \<open>The starter\<close>

text \<open>
  \<open>this\<close> is the address of the object, \<open>created\<close> the handle \<open>pthread_create\<close> stores, \<open>None\<close> when it
  fails. \<open>wait\<close> cannot return while the count is positive.
\<close>

definition starter_step :: "int option \<Rightarrow> nat \<Rightarrow> 'f start_state \<Rightarrow> 'f start_state res option" where
  "starter_step created this s =
     (case starter s of
        At_start \<Rightarrow>
          Some (bind_r (deref_thread (Some this) s) (\<lambda>(a, th).
            cassert (\<not> th_started th)
              (let th = th\<lparr>th_started := True\<rparr>;
                   s = s\<lparr>thread_data := Some (ThreadData_new (th_func th) (th_name th) (Some this) (Some this))\<rparr>
               in case created of
                    None \<Rightarrow>
                      Inr (set_thread a (th\<lparr>th_started := False\<rparr>) (s\<lparr>thread_data := None, starter := Started\<rparr>))
                  | Some h \<Rightarrow>
                      Inr (set_thread a (th\<lparr>th_pthreadId := h\<rparr>) (s\<lparr>child := Some Set_tid, starter := At_wait\<rparr>)))))
      | At_wait \<Rightarrow>
          (case deref_thread (Some this) s of
             Inl e \<Rightarrow> Some (Inl e)
           | Inr (a, th) \<Rightarrow>
               (case latch_wait (th_latch th) of
                  Done l r ns \<Rightarrow> Some (Inr (set_thread a (th\<lparr>th_latch := l\<rparr>) (s\<lparr>starter := At_check\<rparr>)))
                | Failed e \<Rightarrow> Some (Inl e)
                | Wait_on c \<Rightarrow> None))
      | At_check \<Rightarrow>
          Some (bind_r (deref_thread (Some this) s) (\<lambda>(a, th).
            cassert (0 < th_tid th) (Inr (s\<lparr>starter := Started\<rparr>))))
      | _ \<Rightarrow> None)"

text \<open>What the owner may do with a started thread: \<open>join\<close>, which returns after the thread has ended, and the destructor.\<close>

definition owner_join :: "nat \<Rightarrow> 'f start_state \<Rightarrow> 'f start_state res option" where
  "owner_join this s =
     (if starter s = Started \<and> child s = Some (Ended Thread_ends)
      then Some (bind_r (deref_thread (Some this) s) (\<lambda>(a, th).
             bind_r (Thread_join 0 th) (\<lambda>(r, th). Inr (set_thread a th (s\<lparr>starter := Joined\<rparr>)))))
      else None)"

definition owner_destroy :: "nat \<Rightarrow> 'f start_state \<Rightarrow> 'f start_state res option" where
  "owner_destroy this s =
     (if starter s \<in> {Started, Joined}
      then Some (bind_r (deref_thread (Some this) s) (\<lambda>(a, th).
             Inr (s\<lparr>objects := (objects s)(a := None), starter := Destroyed\<rparr>)))
      else None)"

definition start_init :: "nat \<Rightarrow> 'f Thread \<Rightarrow> 'f start_state" where
  "start_init this th =
     \<lparr>objects = [this \<mapsto> th], thread_data = None, child = None, child_locals = thread_locals_new, starter = At_start\<rparr>"

section \<open>Runs\<close>

text \<open>An exception that leaves the thread's function ends the process.\<close>

definition process_over :: "'f start_state \<Rightarrow> bool" where
  "process_over s \<longleftrightarrow> child s = Some (Ended Thread_aborts) \<or> child s = Some (Ended Thread_rethrows)"

inductive start_step ::
  "int option \<Rightarrow> int \<Rightarrow> func_outcome \<Rightarrow> nat \<Rightarrow> 'f start_state \<Rightarrow> 'f start_state \<Rightarrow> bool"
  for created gettid f this where
  child_runs: "\<not> process_over s \<Longrightarrow> child_step gettid f s = Some (Inr s') \<Longrightarrow> start_step created gettid f this s s'"
| starter_runs: "\<not> process_over s \<Longrightarrow> starter_step created this s = Some (Inr s') \<Longrightarrow> start_step created gettid f this s s'"
| joins: "\<not> process_over s \<Longrightarrow> owner_join this s = Some (Inr s') \<Longrightarrow> start_step created gettid f this s s'"
| destroys: "\<not> process_over s \<Longrightarrow> owner_destroy this s = Some (Inr s') \<Longrightarrow> start_step created gettid f this s s'"

inductive start_run ::
  "int option \<Rightarrow> int \<Rightarrow> func_outcome \<Rightarrow> nat \<Rightarrow> 'f Thread \<Rightarrow> 'f start_state \<Rightarrow> bool"
  for created gettid f this th where
  run_init: "start_run created gettid f this th (start_init this th)"
| run_step: "start_run created gettid f this th s \<Longrightarrow> start_step created gettid f this s s' \<Longrightarrow>
    start_run created gettid f this th s'"

definition early :: "child_pc option set" where
  "early = {Some Set_tid, Some Reset_tid, Some Count_down}"

text \<open>What is left of the object: it is as \<open>start\<close> leaves it once the count is down.\<close>

definition object_now :: "int option \<Rightarrow> int \<Rightarrow> 'f Thread \<Rightarrow> 'f start_state \<Rightarrow> 'f Thread option" where
  "object_now created gettid th s =
     (let started = (case created of
           None \<Rightarrow> th
         | Some h \<Rightarrow> th\<lparr>th_started := True, th_pthreadId := h,
             th_tid := (if child s = Some Set_tid then th_tid th else gettid),
             th_latch := \<lparr>count = (if child s \<in> early then 1 else 0)\<rparr>\<rparr>)
      in case starter s of
           At_start \<Rightarrow> Some th
         | Destroyed \<Rightarrow> None
         | Joined \<Rightarrow> Some (started\<lparr>th_joined := True\<rparr>)
         | _ \<Rightarrow> Some started)"

definition data_ok :: "nat \<Rightarrow> child_pc option \<Rightarrow> 'f ThreadData option \<Rightarrow> bool" where
  "data_ok this c d \<longleftrightarrow>
     (case c of
        None \<Rightarrow> d = None
      | Some (Ended e) \<Rightarrow> e = Thread_ends \<longrightarrow> d = None
      | Some pc \<Rightarrow> \<exists>x. d = Some x \<and> (pc = Set_tid \<longrightarrow> td_tid x = Some this) \<and>
          (Some pc \<in> early \<longrightarrow> td_latch x = Some this))"

definition start_inv :: "int option \<Rightarrow> int \<Rightarrow> nat \<Rightarrow> 'f Thread \<Rightarrow> 'f start_state \<Rightarrow> bool" where
  "start_inv created gettid this th s \<longleftrightarrow>
     objects s this = object_now created gettid th s \<and>
     (child s = None \<longleftrightarrow> starter s = At_start \<or> created = None) \<and>
     (starter s = At_wait \<or> starter s = At_check \<longrightarrow> created \<noteq> None) \<and>
     (child s \<in> early \<longrightarrow> starter s = At_wait) \<and>
     (starter s = Joined \<longrightarrow> child s = Some (Ended Thread_ends)) \<and>
     (child s = None \<or> child s = Some Set_tid \<longrightarrow> child_locals s = thread_locals_new) \<and>
     data_ok this (child s) (thread_data s)"

lemmas start_simps = start_inv_def object_now_def early_def deref_thread_def set_thread_def cassert_def Let_def

definition fresh :: "'f Thread \<Rightarrow> bool" where
  "fresh th \<longleftrightarrow> \<not> th_started th \<and> \<not> th_joined th \<and> th_latch th = \<lparr>count = 1\<rparr>"

lemma start_inv_init: "start_inv created g this th (start_init this th)"
  by (simp add: start_simps start_init_def data_ok_def)

text \<open>One lemma for each agent: its step succeeds or it cannot run, and keeps the invariant.\<close>

lemma current_tid_new: "\<exists>loc. current_tid g thread_locals_new = (g, loc)"
  by (simp add: current_tid_def cacheTid_def thread_locals_new_def Let_def)

lemma child_ok:
  assumes "start_inv created g this th s"
  shows "(child_step g f s = None \<longleftrightarrow> child s = None \<or> (\<exists>e. child s = Some (Ended e))) \<and>
    (\<forall>r. child_step g f s = Some r \<longrightarrow> (\<exists>s'. r = Inr s' \<and> start_inv created g this th s'))"
proof (cases "child s")
  case None
  then show ?thesis by (simp add: child_step_def)
next
  case (Some pc)
  obtain loc where loc: "current_tid g thread_locals_new = (g, loc)" using current_tid_new by blast
  from assms Some obtain h where h: "created = Some h" "starter s \<noteq> At_start"
    by (auto simp: start_inv_def)
  note inv = assms [unfolded start_inv_def data_ok_def h(1) Some]
  show ?thesis
  proof (cases pc)
    case Set_tid
    with inv h obtain d where "starter s = At_wait" "thread_data s = Some d" "td_tid d = Some this" "td_latch d = Some this"
      "child_locals s = thread_locals_new" "objects s this = object_now (Some h) g th s"
      by (auto simp: early_def)
    with Some Set_tid h show ?thesis by (simp add: start_simps data_ok_def child_step_def loc)
  next
    case Reset_tid
    with inv h obtain d where "starter s = At_wait" "thread_data s = Some d" "td_latch d = Some this"
      "objects s this = object_now (Some h) g th s"
      by (auto simp: early_def)
    with Some Reset_tid h show ?thesis by (simp add: start_simps data_ok_def child_step_def)
  next
    case Count_down
    with inv h obtain d where "starter s = At_wait" "thread_data s = Some d" "td_latch d = Some this"
      "objects s this = object_now (Some h) g th s"
      by (auto simp: early_def)
    with Some Count_down h show ?thesis by (simp add: start_simps data_ok_def child_step_def countDown_def in32_def)
  next
    case Reset_latch
    with inv obtain d where "thread_data s = Some d" by auto
    with Some Reset_latch h inv show ?thesis by (simp add: start_simps data_ok_def child_step_def)
  next
    case Set_name
    with inv obtain d where "thread_data s = Some d" by auto
    with Some Set_name h inv show ?thesis by (simp add: start_simps data_ok_def child_step_def)
  next
    case Run_func
    with inv obtain d where "thread_data s = Some d" by auto
    with Some Run_func h inv show ?thesis
      by (cases f) (simp_all add: start_simps data_ok_def child_step_def runInThread_end_def split: starter_pc.splits)
  next
    case Delete_data
    with inv obtain d where "thread_data s = Some d" by auto
    with Some Delete_data h inv show ?thesis by (simp add: start_simps data_ok_def child_step_def split: starter_pc.splits)
  next
    case (Ended e)
    with Some show ?thesis by (simp add: data_ok_def child_step_def)
  qed
qed

lemma starter_ok:
  assumes "start_inv created g this th s" "fresh th" "0 < g"
  shows "(starter_step created this s = None \<longleftrightarrow> starter s \<in> {Started, Joined, Destroyed} \<or> child s \<in> early) \<and>
    (\<forall>r. starter_step created this s = Some r \<longrightarrow> (\<exists>s'. r = Inr s' \<and> start_inv created g this th s'))"
proof (cases "starter s")
  case At_start
  with assms(1) have "child s = None" "objects s this = Some th" "thread_data s = None" "child_locals s = thread_locals_new"
    by (auto simp: start_inv_def object_now_def data_ok_def)
  moreover from this At_start assms(2) have "th\<lparr>th_started := False\<rparr> = th" by (intro Thread.equality) (simp_all add: fresh_def)
  ultimately show ?thesis
    using At_start assms(2)
    by (cases created) (simp_all add: start_simps starter_step_def fresh_def ThreadData_new_def data_ok_def)
next
  case At_wait
  with assms(1) obtain h where "created = Some h" "objects s this = object_now created g th s" "child s \<noteq> None"
    by (auto simp: start_inv_def)
  with At_wait assms(1) show ?thesis
    by (cases "child s \<in> early") (auto simp: start_simps starter_step_def latch_wait_def)
next
  case At_check
  with assms(1) obtain h where h: "created = Some h" "objects s this = object_now created g th s" "child s \<noteq> None" "child s \<notin> early"
    by (auto simp: start_inv_def)
  with At_check assms(1,3) show ?thesis by (auto simp: start_simps starter_step_def)
qed (use assms(1) in \<open>auto simp: starter_step_def start_inv_def\<close>)

lemma join_ok:
  assumes "start_inv created g this th s" "fresh th" "owner_join this s = Some r"
  shows "\<exists>s'. r = Inr s' \<and> start_inv created g this th s'"
proof -
  let ?th = "\<lambda>h. th\<lparr>th_started := True, th_pthreadId := h, th_tid := g, th_latch := \<lparr>count = 0\<rparr>, th_joined := True\<rparr>"
  from assms(3) have s: "starter s = Started" "child s = Some (Ended Thread_ends)"
    by (simp_all add: owner_join_def split: if_splits)
  with assms(1) obtain h where h: "created = Some h" "objects s this = object_now created g th s" "thread_data s = None"
    by (auto simp: start_inv_def data_ok_def)
  with s assms(2,3) have r: "r = Inr (set_thread this (?th h) (s\<lparr>starter := Joined\<rparr>))"
    by (auto simp: start_simps owner_join_def Thread_join_def fresh_def)
  moreover have "start_inv created g this th (set_thread this (?th h) (s\<lparr>starter := Joined\<rparr>))"
    using s h by (simp add: start_simps data_ok_def)
  ultimately show ?thesis by blast
qed

lemma destroy_ok:
  assumes "start_inv created g this th s" "owner_destroy this s = Some r"
  shows "\<exists>s'. r = Inr s' \<and> start_inv created g this th s'"
proof -
  from assms(2) have s: "starter s = Started \<or> starter s = Joined" by (auto simp: owner_destroy_def split: if_splits)
  with assms(1) obtain x where "objects s this = Some x"
    by (auto simp: start_inv_def object_now_def Let_def)
  with s assms(2) have "r = Inr (s\<lparr>objects := (objects s)(this := None), starter := Destroyed\<rparr>)"
    by (auto simp: owner_destroy_def deref_thread_def)
  moreover have "child s \<notin> early" "child s = None \<longleftrightarrow> created = None" using s assms(1) by (auto simp: start_inv_def)
  ultimately show ?thesis using assms(1) by (simp add: start_inv_def object_now_def)
qed

lemma start_run_inv:
  assumes "start_run created g f this th s" "fresh th" "0 < g"
  shows "start_inv created g this th s"
  using assms(1)
proof induction
  case run_init
  show ?case by (rule start_inv_init)
next
  case (run_step s s')
  note inv = run_step.IH
  from run_step.hyps(2) show ?case
    using child_ok [OF inv] starter_ok [OF inv assms(2,3)] join_ok [OF inv assms(2)] destroy_ok [OF inv]
    by cases fastforce+
qed

lemma fresh_thread_new: "Thread_new func n num = (num', th) \<Longrightarrow> fresh th"
  by (auto simp: Thread_new_def setDefaultName_def CountDownLatch_new_def fresh_def Let_def split: if_splits prod.splits)

text \<open>What \<open>start\<close> leaves when the new thread runs up to its \<open>countDown\<close> at once.\<close>

lemma started_object:
  assumes "fresh th" "0 < g"
  shows "\<exists>th'. Thread_start (map_option (\<lambda>h. (h, g)) created) th = Inr th' \<and>
    (\<forall>s. start_inv created g this th s \<longrightarrow> starter s = Started \<longrightarrow> objects s this = Some th')"
proof (cases created)
  case None
  moreover have "th\<lparr>th_started := False\<rparr> = th" using assms by (intro Thread.equality) (simp_all add: fresh_def)
  ultimately show ?thesis using assms by (auto simp: Thread_start_def cassert_def fresh_def start_inv_def object_now_def)
next
  case (Some h)
  let ?th = "th\<lparr>th_started := True, th_pthreadId := h, th_tid := g, th_latch := \<lparr>count = 0\<rparr>\<rparr>"
  from announce_fresh [of "th\<lparr>th_started := True, th_pthreadId := h\<rparr>" g] assms(1) obtain loc where
    "announce g thread_locals_new (th\<lparr>th_started := True, th_pthreadId := h\<rparr>) = Inr (loc, ?th)"
    by (auto simp: fresh_def)
  then have "Thread_start (Some (h, g)) th = Inr ?th"
    using assms by (simp add: Thread_start_def cassert_def fresh_def latch_wait_def)
  moreover have "objects s this = Some ?th" if "start_inv created g this th s" "starter s = Started" for s
    using that by (auto simp: start_inv_def object_now_def early_def Some)
  ultimately show ?thesis by (auto simp: Some)
qed

lemma start_progress:
  assumes inv: "start_inv created g this th s" and "fresh th" "0 < g" and "starter s \<notin> {Started, Joined, Destroyed}"
    and "\<not> process_over s"
  shows "\<exists>s'. start_step created g f this s s'"
proof (cases "child s \<in> early")
  case True
  then have "child_step g f s \<noteq> None" using child_ok [OF inv, of f] by (auto simp: early_def)
  with child_ok [OF inv, of f] assms(5) show ?thesis by (blast intro: child_runs)
next
  case False
  then have "starter_step created this s \<noteq> None" using starter_ok [OF inv assms(2,3)] assms(4) by blast
  with starter_ok [OF inv assms(2,3)] assms(5) show ?thesis by (blast intro: starter_runs)
qed

section \<open>Properties\<close>


text \<open>The owner destroys the object while the new thread is between its \<open>countDown\<close> and the end of its function.\<close>

definition do_step :: "('f start_state \<Rightarrow> 'f start_state res option) \<Rightarrow> 'f start_state \<Rightarrow> 'f start_state" where
  "do_step step s = (if process_over s then s else case step s of Some (Inr s') \<Rightarrow> s' | _ \<Rightarrow> s)"

lemma do_steps_run:
  assumes "start_run created g f this th s"
    and "set steps \<subseteq> {starter_step created this, child_step g f, owner_join this, owner_destroy this}"
  shows "start_run created g f this th (fold do_step steps s)"
  using assms
proof (induction steps arbitrary: s)
  case (Cons step steps)
  have "start_run created g f this th (do_step step s)"
    using Cons.prems by (auto simp: do_step_def split: option.splits sum.splits intro: run_step start_step.intros)
  with Cons show ?case by simp
qed simp

definition demo_start :: "unit start_state" where
  "demo_start = fold do_step [starter_step (Some 99) 5, child_step 1234 Func_returns, child_step 1234 Func_returns,
     child_step 1234 Func_returns, starter_step (Some 99) 5, starter_step (Some 99) 5, owner_destroy 5]
     (start_init 5 (snd (Thread_new () [] 4)))"


end
