(* ===== verification/Spec2Isabelle.thy ===== *)
theory Spec2Isabelle
  imports Buffer Date Timestamp TimeZone LogStream Channel TimerQueue EventLoop TcpServer HttpServer ThreadPool
    LoopThreads Logging Any ThreadLocal Exception EchoServer EchoReply Lifetime RoundFaults ServerEnd HttpService HttpSession HttpExample LocalTime ThreadStart
begin

text \<open>
  A verification development of g5, a C++ library of \<open>base\<close> (dates, logging, threads) and
  \<open>net\<close> (a reactor with buffered TCP connections and an HTTP server on it), after the sources
  under src/src and src/examples.

  \<^bold>\<open>The program.\<close> An \<open>EventLoop\<close> polls its \<open>Epoller\<close>, calls \<open>handleEvent\<close> of each
  \<open>Channel\<close> that is ready and then runs the functors queued meanwhile; a write to an eventfd wakes
  it, a timerfd drives its \<open>TimerQueue\<close>. An \<open>Acceptor\<close> hands each new descriptor to a \<open>TcpServer\<close>,
  which makes a \<open>TcpConnection\<close> with a channel and two \<open>Buffer\<close>s and queues its
  \<open>connectEstablished\<close>. Input is read into one buffer and given to the user's message
  callback; what a write does not take goes through the other. \<open>HttpServer\<close> parses
  requests out of the input buffer with a \<open>HttpContext\<close> and answers through an \<open>HttpResponse\<close>. Under
  them, \<open>base\<close> has the threads (\<open>Thread\<close>, \<open>ThreadPool\<close>, \<open>BlockingQueue\<close>, latches) and the log
  (\<open>Logger\<close> to \<open>LogStream\<close> to \<open>AsyncLogging\<close> to \<open>LogFile\<close>).

  \<^bold>\<open>Conventions\<close> (Prelude). A class is a record of its members; a member function takes the
  object and returns it changed. What ends an operation, a failed \<open>assert\<close> (the build does not define
  NDEBUG), an exception of the code or the standard library, or an access outside an object, is a
  \<open>fault\<close>, the left side of the sum \<open>res\<close>; \<open>bind_r\<close> sequences such operations and \<open>cassert\<close> is
  \<open>assert\<close>. Machine integers are integers with \<open>wrap32\<close>, \<open>wrap64\<close> and the operations on
  them, \<open>size_t\<close> a natural number with \<open>add_sz\<close> and \<open>sub_sz\<close>, event masks 32-bit words. Vectors are
  lists with checked loads and stores. What a system call, the clock or the allocator returns is an
  argument; what their manual pages promise is a named hypothesis (\<open>write_doc\<close>, \<open>epoll_add_doc\<close>,
  \<open>epoll_set_doc\<close>, \<open>round_doc\<close>, \<open>clock_ok\<close>, \<open>kernel_doc\<close>), which the witnesses instantiate. A loop that may not end is a
  \<open>partial_function\<close> whose value \<open>None\<close> is not returning (\<open>loop\<close>, \<open>parseRequest\<close>), so no fuel is used
  anywhere; other loops are recursive functions with a termination proof.

  \<^bold>\<open>Theories and sources.\<close>
  \<^item> Buffer: net/Buffer.h. Every operation; \<open>content\<close> is the byte string a buffer stands for, the locale
    \<open>byte_queue\<close> says what a client may rely on.
  \<^item> Date, LibcTime, Timestamp, TimeZone, LocalTime: base/Date, Timestamp, TimeZone. The Julian day arithmetic as
    written against the calendar; the zone file reader and the two conversions; \<open>gmtime\<close> and
    \<open>timegm\<close> from their POSIX definition; zones with daylight saving.
  \<^item> Channel: net/Channel, Epoller. The bits of interest, dispatch, and requests to the kernel as values.
  \<^item> TimerQueue: net/Timer, TimerQueue. The ordered set of timers, \<open>getExpired\<close>, \<open>reset\<close>, the locale
    \<open>queueing_callbacks\<close> of callbacks that only queue.
  \<^item> EventLoop: net/EventLoop. Queueing, wake-up, a round, the loop; \<open>loop_inv\<close> relates set, heap and functors.
  \<^item> TcpConnection, TcpServer: net/TcpConnection, Acceptor, TcpServer.
  \<^item> HttpContext, HttpServer, HttpService: net/http. The request parser over a buffer and over plain text; responses;
    \<open>onMessage\<close> as the list of calls it makes of the connection; the object of \<open>HttpServer\<close> on a \<open>TcpServer\<close>.
  \<^item> Sync: base/Mutex.h, Condition, Atomic.h in single steps of threads. Monitor: the semantics of
    classes whose member functions hold one mutex, with the locale \<open>condition\<close> on lost wake-ups.
  \<^item> ThreadStart: base/Thread in single steps, the new thread against \<open>start\<close> and the object's owner.
  \<^item> BlockingQueue, Thread, ThreadPool, LoopThreads: base/BlockingQueue.h, CountDownLatch, CurrentThread,
    Thread, ThreadPool and net/EventLoopThread, EventLoopThreadPool on top of Monitor.
  \<^item> LogStream, LogFile, AsyncLogging, Logging: the log, from an inserted value to the file.
  \<^item> Any, ThreadLocal, Exception: base/any.h over an explicit heap; ThreadLocal.h and
    ThreadLocalSingleton.h by one locale \<open>per_thread\<close>; Exception and the stack trace.
  \<^item> EchoServer: examples/echoserver on the whole of \<open>net\<close>, the composition of poller, channels,
    server, connections and buffers; EchoReply: the same when messages are written whole; Lifetime: the pointers
    that the kernel keeps to channels, and descriptors that are used again; RoundFaults: the ways a round can fail;
    ServerEnd: the destructors of a server whose loop goes on.
  \<^item> HttpSession: the read handler of a connection with \<open>onMessage\<close>, on a whole sequence of pieces of input.
  \<^item> HttpExample: examples/httpserver, a loop of its own around edge-triggered \<open>epoll\<close>.

  \<^bold>\<open>What is shown.\<close> Buffers are byte queues; a connection loses, repeats and reorders nothing, and the echo
  server answers every client with its own bytes, whatever the kernel answers. It uses no channel that
  is destroyed and no descriptor that is closed, and a round of it fails only by \<open>accept\<close>, \<open>write\<close> or
  the allocator. Queued functors have a pending
  wake-up, the earliest timer is always the one the kernel timer is set for, repeating timers
  survive. HTTP requests and responses survive their text, and
  every request of a conversation is answered once and in order, in whatever pieces it arrives.
  Queues and pools keep every element, in order, and no thread sleeps while there is something for it; a thread can be
  started and its object destroyed in any order of steps.
  Dates, zones, local times and decimal texts round-trip. Log entries are whole, in order. \<open>any\<close> is a value
  and typed; thread-local objects are private and freed. The properties also say where the code
  fails: interest in writing never reaches the kernel (\<open>EPOLL_CTL_ADD\<close> only), so a short write
  stalls; a full socket makes \<open>send\<close> throw, which stops the whole server; the log never
  starts; \<open>stop\<close> loses its tail; the loop has no way to end; the HTTP example leaves clients waiting;
  a server that is destroyed leaves the loop with pointers to what is gone.

  \<^bold>\<open>Bounds.\<close> Buffers stay below \<open>vec_max\<close> = 2^63 - 1 bytes, so streams are bounded by 2^62 bytes per connection;
  messages and log items are shorter than 2^31, as their lengths are read as \<open>int\<close>. Dates are those of the years
  -4799 to 1400000, inside which no product wraps. Clocks stay within the times whose sums fit 64 bits.

  \<^bold>\<open>Not modelled.\<close> Socket options, addresses and the text printed to the terminal. \<open>net::Socket\<close> and
  \<open>BoundedBlockingQueue\<close>, which have no code; base classes and casts of types.h. \<open>HttpServer\<close> calls
  members that do not exist: those of \<open>TcpServer\<close> (a constructor, \<open>getLoop\<close>, \<open>setThreadNum\<close>) are parameters, the
  calls of a connection's \<open>shutdown\<close> and context are values. The HTTP example is written against a thread pool,
  tasks and system helpers of another code base, which are parameters and calls listed in order.
  Data races outside the classes with a mutex (\<open>EventLoop::queueInLoop\<close> from another thread). Floating point:
  an interval is a rational.
\<close>

end
